(* ===== verification/Tanix_Prelude.thy ===== *)
theory Tanix_Prelude
  imports Main "HOL-Library.Word" "HOL-Library.Monad_Syntax"
begin

text \<open>
  Shared vocabulary of the development: the machine types of the kernel, what a panic is, the
  checked arithmetic of a build with overflow checks, page rounding, fallible loops, and the
  search for a slot in a fixed array of options that most kernel tables share.

  \<^item> A \<^verbatim>\<open>usize\<close> or physical address is a \<open>nat\<close> (the value is below \<open>2 ^ 64\<close>); an addition that the
    source leaves unchecked panics on overflow in the workspace's default (dev) profile, so it is
    \<open>uadd\<close>, whose \<open>None\<close> is the panic.  Identifiers, descriptors and register values keep their
    width as words.
  \<^item> A function of type \<open>'a option\<close> whose source function has no \<^verbatim>\<open>Option\<close> result returns \<open>None\<close>
    exactly where the source panics (a failed assertion, an index out of range, an overflow, an
    \<^verbatim>\<open>expect\<close> on \<^verbatim>\<open>None\<close>): the kernel aborts on a panic, so nothing follows it.
\<close>

unbundle bit_operations_syntax

type_synonym u8 = "8 word"
type_synonym u16 = "16 word"
type_synonym u32 = "32 word"
type_synonym u64 = "64 word"
type_synonym phys_addr = nat
type_synonym virt_addr = nat

named_theorems panic_simps \<open>definitions of the checked operations\<close>

section \<open>Checked machine arithmetic\<close>

abbreviation USIZE_LIMIT :: nat where
  "USIZE_LIMIT \<equiv> 2 ^ 64"

definition uadd :: "nat \<Rightarrow> nat \<Rightarrow> nat option" where
  "uadd a b = (if a + b < USIZE_LIMIT then Some (a + b) else None)"

definition usub :: "nat \<Rightarrow> nat \<Rightarrow> nat option" where
  "usub a b = (if b \<le> a then Some (a - b) else None)"

definition u32_inc :: "u32 \<Rightarrow> u32 option" where
  "u32_inc n = (if n = - 1 then None else Some (n + 1))"

lemma uadd_Some [simp]: "uadd a b = Some c \<longleftrightarrow> c = a + b \<and> a + b < USIZE_LIMIT"
  by (auto simp: uadd_def)

lemma uadd_fits: "a + b < USIZE_LIMIT \<Longrightarrow> uadd a b = Some (a + b)"
  by (simp add: uadd_def)

lemma usub_Some [simp]: "usub a b = Some c \<longleftrightarrow> b \<le> a \<and> c = a - b"
  by (auto simp: usub_def)

lemma u32_inc_Some: "u32_inc n = Some m \<Longrightarrow> m = n + 1 \<and> unat m = unat n + 1"
proof -
  assume "u32_inc n = Some m"
  then have m: "m = n + 1" and n: "n \<noteq> - 1" by (auto simp: u32_inc_def split: if_splits)
  from n have "n + 1 \<noteq> 0" by (metis eq_neg_iff_add_eq_0)
  then have "unat (n + 1) = unat n + 1" by (metis Suc_eq_plus1 add.commute unatSuc)
  with m show ?thesis by simp
qed

lemmas [panic_simps] = uadd_def usub_def u32_inc_def

section \<open>Pages\<close>

abbreviation PAGE_SIZE :: nat where
  "PAGE_SIZE \<equiv> 4096"

definition page_down :: "nat \<Rightarrow> nat" where
  "page_down x = PAGE_SIZE * (x div PAGE_SIZE)"

definition page_aligned :: "nat \<Rightarrow> bool" where
  "page_aligned x \<longleftrightarrow> x mod PAGE_SIZE = 0"

text \<open>
  The source writes \<^verbatim>\<open>x & !(PAGE_SIZE - 1)\<close> and \<^verbatim>\<open>x & (PAGE_SIZE - 1)\<close>; on 64-bit words these are
  the two functions above.
\<close>

lemma and_page_mask: "x AND 4095 = x mod PAGE_SIZE" for x :: nat
proof -
  have "(4095::nat) = mask 12" by (simp add: mask_eq_exp_minus_1)
  then have "x AND 4095 = take_bit 12 x" by (simp only: take_bit_eq_mask)
  then show ?thesis by (simp add: take_bit_eq_mod)
qed

lemma page_down_le: "page_down x \<le> x"
  by (simp add: page_down_def)

lemma page_down_aligned [simp]: "page_aligned (page_down x)"
  by (simp add: page_down_def page_aligned_def)

lemma page_down_id: "page_aligned x \<Longrightarrow> page_down x = x"
  by (auto simp: page_down_def page_aligned_def)

lemma page_aligned_add: "page_aligned x \<Longrightarrow> page_aligned (x + PAGE_SIZE * k)"
  by (simp add: page_aligned_def)

section \<open>Loops that may panic\<close>

fun foldm :: "('a \<Rightarrow> 's \<Rightarrow> 's option) \<Rightarrow> 'a list \<Rightarrow> 's \<Rightarrow> 's option" where
  "foldm f [] s = Some s"
| "foldm f (x # xs) s = Option.bind (f x s) (foldm f xs)"

lemma foldm_append: "foldm f (xs @ ys) s = Option.bind (foldm f xs s) (foldm f ys)"
  by (induction xs arbitrary: s) (auto split: Option.bind_split)

lemma foldm_inv:
  assumes "\<And>x s. x \<in> set xs \<Longrightarrow> P s \<Longrightarrow> \<exists>s'. f x s = Some s' \<and> P s'"
    and "P s"
  shows "\<exists>s'. foldm f xs s = Some s' \<and> P s'"
  using assms by (induction xs arbitrary: s) fastforce+

lemma foldm_rel:
  assumes "foldm f xs s = Some s'"
    and "\<And>x s s'. x \<in> set xs \<Longrightarrow> f x s = Some s' \<Longrightarrow> P s \<Longrightarrow> P s'"
    and "P s"
  shows "P s'"
  using assms by (induction xs arbitrary: s) (fastforce split: Option.bind_splits)+

lemma foldm_upt:
  assumes "\<And>i s. i < n \<Longrightarrow> P i s \<Longrightarrow> \<exists>s'. f i s = Some s' \<and> P (Suc i) s'" and "P 0 s"
  shows "\<exists>s'. foldm f [0..<n] s = Some s' \<and> P n s'"
  using assms
proof (induction n)
  case (Suc n)
  then obtain s1 where "foldm f [0..<n] s = Some s1" "P n s1" by force
  moreover from this Suc.prems obtain s2 where "f n s1 = Some s2" "P (Suc n) s2" by blast
  ultimately show ?case by (simp add: foldm_append)
qed simp

section \<open>Slots\<close>

text \<open>
  \<^verbatim>\<open>iter_mut().find(|s| s.is_none())\<close> over a fixed array of options, and
  \<^verbatim>\<open>iter().filter_map(|s| s.as_ref()).find(p)\<close>: the first index whose entry satisfies a test.
\<close>

fun find_idx :: "('a \<Rightarrow> bool) \<Rightarrow> 'a list \<Rightarrow> nat option" where
  "find_idx P [] = None"
| "find_idx P (x # xs) = (if P x then Some 0 else map_option Suc (find_idx P xs))"

lemma find_idx_Some:
  "find_idx P xs = Some i \<longleftrightarrow> i < length xs \<and> P (xs ! i) \<and> (\<forall>j < i. \<not> P (xs ! j))"
proof (induction xs arbitrary: i)
  case (Cons x xs)
  show ?case
  proof (cases i)
    case 0
    then show ?thesis by auto
  next
    case (Suc k)
    then show ?thesis using Cons by (auto simp: less_Suc_eq_0_disj nth_Cons')
  qed
qed simp

lemma find_idx_None: "find_idx P xs = None \<longleftrightarrow> (\<forall>x \<in> set xs. \<not> P x)"
  by (induction xs) auto

lemma find_idx_lt: "find_idx P xs = Some i \<Longrightarrow> i < length xs"
  by (simp add: find_idx_Some)

lemma find_idx_map: "find_idx P xs = find_idx (\<lambda>b. b) (map P xs)"
  by (induction xs) auto

lemma find_idx_update: "P y = P (xs ! i) \<Longrightarrow> find_idx P (xs[i := y]) = find_idx P xs"
proof -
  assume "P y = P (xs ! i)"
  then have "map P (xs[i := y]) = map P xs"
    by (cases "i < length xs") (auto intro!: nth_equalityI simp: nth_list_update list_update_beyond split: if_splits)
  then show ?thesis by (simp only: find_idx_map [of P])
qed

definition free_slot :: "'a option list \<Rightarrow> nat option" where
  "free_slot xs = find_idx (\<lambda>s. s = None) xs"

definition lookup_slot :: "('a \<Rightarrow> bool) \<Rightarrow> 'a option list \<Rightarrow> nat option" where
  "lookup_slot P xs = find_idx (\<lambda>s. case s of None \<Rightarrow> False | Some e \<Rightarrow> P e) xs"

lemma free_slot_Some:
  "free_slot xs = Some i \<longleftrightarrow> i < length xs \<and> xs ! i = None \<and> (\<forall>j < i. xs ! j \<noteq> None)"
  by (auto simp: free_slot_def find_idx_Some)

lemma free_slot_None: "free_slot xs = None \<longleftrightarrow> None \<notin> set xs"
  by (induction xs) (auto simp: free_slot_def)

lemma lookup_slot_Some:
  "lookup_slot P xs = Some i \<Longrightarrow> i < length xs \<and> (\<exists>e. xs ! i = Some e \<and> P e)"
  by (auto simp: lookup_slot_def find_idx_Some split: option.splits)

lemma lookup_slot_None: "lookup_slot P xs = None \<longleftrightarrow> (\<forall>e. Some e \<in> set xs \<longrightarrow> \<not> P e)"
  by (auto simp: lookup_slot_def find_idx_None split: option.splits)

lemma lookup_slot_unique:
  assumes "i < length xs" "xs ! i = Some e" "P e"
    and "\<And>j e'. j < length xs \<Longrightarrow> xs ! j = Some e' \<Longrightarrow> P e' \<Longrightarrow> j = i"
  shows "lookup_slot P xs = Some i"
proof -
  have "lookup_slot P xs \<noteq> None"
    using assms(1-3) by (metis lookup_slot_None nth_mem)
  then obtain j where j: "lookup_slot P xs = Some j" by blast
  with lookup_slot_Some [OF j] assms(4) show ?thesis by auto
qed

end
