(* ===== verification/Frame_Alloc.thy ===== *)
theory Frame_Alloc
  imports Tanix_Prelude
begin

text \<open>
  The physical frame allocator of \<^verbatim>\<open>kernel/src/mem/frame.rs\<close>: a bitmap over the DRAM window, one bit
  per 4 KiB frame, a set bit meaning the frame is free.  The record is the source's struct; each
  method is one definition, loops included; \<open>None\<close> is a panic.  The abstract view of an allocator is
  the set \<open>free_set\<close> of free frame indices; every operation is characterised by what it does to that
  set, and the interface \<open>frame_provider\<close> that the page tables rely on is interpreted on it.
\<close>

section \<open>The allocator\<close>

abbreviation MAX_RAM_SIZE :: nat where
  "MAX_RAM_SIZE \<equiv> 1024 * 1024 * 1024"

abbreviation MAX_FRAMES :: nat where
  "MAX_FRAMES \<equiv> 262144"

abbreviation BITMAP_WORDS :: nat where
  "BITMAP_WORDS \<equiv> 4096"

record frame_allocator =
  ram_start :: phys_addr
  ram_size :: nat
  total_frames :: nat
  bitmap :: "u64 list"
  free_frames :: nat

definition new_zeroed :: frame_allocator where
  "new_zeroed = \<lparr>ram_start = 0, ram_size = 0, total_frames = 0,
                 bitmap = replicate BITMAP_WORDS 0, free_frames = 0\<rparr>"

definition set_used :: "nat \<Rightarrow> frame_allocator \<Rightarrow> frame_allocator option" where
  "set_used frame_idx fa =
     (let wi = frame_idx div 64; bi = frame_idx mod 64 in
      if length (bitmap fa) \<le> wi then None
      else if (bitmap fa ! wi) AND push_bit bi 1 \<noteq> 0 then
        do { n \<leftarrow> usub (free_frames fa) 1;
             Some (fa\<lparr>bitmap := (bitmap fa)[wi := (bitmap fa ! wi) AND NOT (push_bit bi 1)],
                      free_frames := n\<rparr>) }
      else Some fa)"

definition set_free :: "nat \<Rightarrow> frame_allocator \<Rightarrow> frame_allocator option" where
  "set_free frame_idx fa =
     (let wi = frame_idx div 64; bi = frame_idx mod 64 in
      if length (bitmap fa) \<le> wi then None
      else if (bitmap fa ! wi) AND push_bit bi 1 = 0 then
        do { n \<leftarrow> uadd (free_frames fa) 1;
             Some (fa\<lparr>bitmap := (bitmap fa)[wi := (bitmap fa ! wi) OR push_bit bi 1],
                      free_frames := n\<rparr>) }
      else Some fa)"

definition init :: "phys_addr \<Rightarrow> phys_addr \<Rightarrow> nat \<Rightarrow> frame_allocator \<Rightarrow> frame_allocator option" where
  "init kernel_end start sz fa =
     (if \<not> sz \<le> MAX_RAM_SIZE then None
      else if start mod PAGE_SIZE \<noteq> 0 then None
      else
        let fa1 = fa\<lparr>ram_start := start, ram_size := sz, total_frames := sz div PAGE_SIZE\<rparr>;
            fa2 = fa1\<lparr>bitmap := map (\<lambda>_. NOT 0) (bitmap fa1), free_frames := total_frames fa1\<rparr>
        in do { e \<leftarrow> uadd kernel_end PAGE_SIZE;
                let reserved_end = page_down (e - 1);
                let reserved_frames = (reserved_end - start) div PAGE_SIZE;
                let reserved_frames = min reserved_frames (total_frames fa2);
                foldm set_used [0..<reserved_frames] fa2 })"

definition phys_to_idx :: "phys_addr \<Rightarrow> phys_addr \<Rightarrow> nat \<Rightarrow> nat option option" where
  "phys_to_idx addr start sz =
     do { e \<leftarrow> uadd start sz;
          Some (if \<not> (start \<le> addr \<and> addr < e) then None
                else Some ((addr - start) div PAGE_SIZE)) }"

definition unwrap_or :: "'a option \<Rightarrow> 'a \<Rightarrow> 'a" where
  "unwrap_or x d = (case x of None \<Rightarrow> d | Some v \<Rightarrow> v)"

definition reserve_region :: "phys_addr \<Rightarrow> nat \<Rightarrow> frame_allocator \<Rightarrow> frame_allocator option" where
  "reserve_region start sz fa =
     do { b \<leftarrow> uadd start PAGE_SIZE;
          let begin_addr = page_down (b - 1);
          e \<leftarrow> uadd start sz;
          let end_addr = page_down e;
          if end_addr \<le> begin_addr then Some fa
          else do { bi \<leftarrow> phys_to_idx begin_addr (ram_start fa) (ram_size fa);
                    ei \<leftarrow> phys_to_idx end_addr (ram_start fa) (ram_size fa);
                    let begin_idx = unwrap_or bi 0;
                    let end_idx = unwrap_or ei (total_frames fa);
                    foldm set_used [begin_idx..<min end_idx (total_frames fa)] fa } }"

definition trailing_zeros :: "u64 \<Rightarrow> nat" where
  "trailing_zeros w = length (takeWhile (\<lambda>i. \<not> bit w i) [0..<64])"

fun alloc_scan :: "nat \<Rightarrow> u64 list \<Rightarrow> nat option" where
  "alloc_scan word_idx [] = None"
| "alloc_scan word_idx (w # ws) =
     (if w = 0 then alloc_scan (Suc word_idx) ws else Some (word_idx * 64 + trailing_zeros w))"

definition alloc :: "frame_allocator \<Rightarrow> (phys_addr option \<times> frame_allocator) option" where
  "alloc fa =
     (case alloc_scan 0 (bitmap fa) of
        None \<Rightarrow> Some (None, fa)
      | Some frame_idx \<Rightarrow>
          if total_frames fa \<le> frame_idx then Some (None, fa)
          else do { fa' \<leftarrow> set_used frame_idx fa;
                    a \<leftarrow> uadd (ram_start fa) (frame_idx * PAGE_SIZE);
                    Some (Some a, fa') })"

fun run_scan :: "u64 list \<Rightarrow> nat \<Rightarrow> nat \<Rightarrow> nat \<Rightarrow> nat list \<Rightarrow> nat option option" where
  "run_scan bm n run_start run_len [] = Some None"
| "run_scan bm n run_start run_len (i # is) =
     (if length bm \<le> i div 64 then None
      else if (bm ! (i div 64)) AND push_bit (i mod 64) 1 \<noteq> 0 then
        (let run_start' = (if run_len = 0 then i else run_start); run_len' = run_len + 1 in
         if run_len' = n then Some (Some run_start')
         else run_scan bm n run_start' run_len' is)
      else run_scan bm n run_start 0 is)"

definition alloc_contiguous :: "nat \<Rightarrow> frame_allocator \<Rightarrow> (phys_addr option \<times> frame_allocator) option" where
  "alloc_contiguous n fa =
     (if n = 0 then Some (None, fa)
      else do { r \<leftarrow> run_scan (bitmap fa) n 0 0 [0..<total_frames fa];
                case r of
                  None \<Rightarrow> Some (None, fa)
                | Some run_start \<Rightarrow>
                    do { fa' \<leftarrow> foldm set_used [run_start..<run_start + n] fa;
                         a \<leftarrow> uadd (ram_start fa) (run_start * PAGE_SIZE);
                         Some (Some a, fa') } })"

definition free :: "phys_addr \<Rightarrow> frame_allocator \<Rightarrow> frame_allocator option" where
  "free addr fa =
     (if addr mod PAGE_SIZE \<noteq> 0 then None
      else do { r \<leftarrow> phys_to_idx addr (ram_start fa) (ram_size fa);
                idx \<leftarrow> r;
                set_free idx fa })"

section \<open>The abstract view\<close>

definition frame_bit :: "u64 list \<Rightarrow> nat \<Rightarrow> bool" where
  "frame_bit bm i \<longleftrightarrow> i div 64 < length bm \<and> bit (bm ! (i div 64)) (i mod 64)"

definition free_set :: "frame_allocator \<Rightarrow> nat set" where
  "free_set fa = {i. i < total_frames fa \<and> frame_bit (bitmap fa) i}"

definition frame_inv :: "frame_allocator \<Rightarrow> bool" where
  "frame_inv fa \<longleftrightarrow>
     length (bitmap fa) = BITMAP_WORDS \<and> ram_size fa \<le> MAX_RAM_SIZE \<and>
     total_frames fa = ram_size fa div PAGE_SIZE \<and> page_aligned (ram_start fa) \<and>
     ram_start fa + ram_size fa < USIZE_LIMIT \<and>
     (\<forall>i. total_frames fa \<le> i \<and> i < MAX_FRAMES \<longrightarrow> frame_bit (bitmap fa) i) \<and>
     free_frames fa = card (free_set fa)"

text \<open>
  Histories: any sequence of calls by clients that give back only frames they hold.  The second
  component is the list of frames handed out and not yet given back.
\<close>

inductive frame_step :: "frame_allocator \<times> phys_addr list \<Rightarrow> frame_allocator \<times> phys_addr list \<Rightarrow> bool" where
  alloc_one: "alloc fa = Some (Some a, fb) \<Longrightarrow> frame_step (fa, held) (fb, a # held)"
| alloc_fail: "alloc fa = Some (None, fb) \<Longrightarrow> frame_step (fa, held) (fb, held)"
| alloc_run: "alloc_contiguous n fa = Some (Some a, fb) \<Longrightarrow>
    frame_step (fa, held) (fb, map (\<lambda>j. a + j * PAGE_SIZE) [0..<n] @ held)"
| alloc_run_fail: "alloc_contiguous n fa = Some (None, fb) \<Longrightarrow> frame_step (fa, held) (fb, held)"
| give_back: "a \<in> set held \<Longrightarrow> free a fa = Some fb \<Longrightarrow> frame_step (fa, held) (fb, remove1 a held)"

lemma test_bit_word [simp]: "(w AND push_bit n 1 = 0) = (\<not> bit w n)" for w :: u64
  by (simp add: push_bit_of_1 and_exp_eq_0_iff_not_bit)

lemma same_frame: "j div 64 = i div 64 \<Longrightarrow> (j mod 64 = i mod 64) = (j = i)" for i j :: nat
  by (metis div_mult_mod_eq)

lemma bit_clear_one: "bit (w AND NOT (push_bit n 1)) m = (bit w m \<and> m \<noteq> n)" if "m < 64" for w :: u64
  using that by (auto simp: bit_and_iff bit_not_iff bit_exp_iff push_bit_of_1)

lemma bit_set_one: "bit (w OR push_bit n 1) m = (bit w m \<or> m = n)" if "m < 64" "n < 64" for w :: u64
  using that by (auto simp: bit_or_iff bit_exp_iff push_bit_of_1)

lemma frame_bit_clear:
  assumes "i div 64 < length bm"
  shows "frame_bit (bm[i div 64 := bm ! (i div 64) AND NOT (push_bit (i mod 64) 1)]) j
           = (frame_bit bm j \<and> j \<noteq> i)"
proof (cases "j div 64 = i div 64")
  case True
  then show ?thesis using assms same_frame [OF True]
    by (simp add: frame_bit_def bit_clear_one del: push_bit_of_1)
next
  case False
  then show ?thesis by (auto simp: frame_bit_def)
qed

lemma frame_bit_set:
  assumes "i div 64 < length bm"
  shows "frame_bit (bm[i div 64 := bm ! (i div 64) OR push_bit (i mod 64) 1]) j
           = (frame_bit bm j \<or> j = i)"
proof (cases "j div 64 = i div 64")
  case True
  then show ?thesis using assms same_frame [OF True]
    by (simp add: frame_bit_def bit_set_one del: push_bit_of_1)
next
  case False
  then show ?thesis by (auto simp: frame_bit_def)
qed

lemma finite_free_set [simp]: "finite (free_set fa)"
  by (simp add: free_set_def)


section \<open>What each operation does to the free set\<close>

lemma frame_inv_bound: "frame_inv fa \<Longrightarrow> total_frames fa \<le> MAX_FRAMES"
  by (auto simp: frame_inv_def)

lemma frame_inv_end:
  "frame_inv fa \<Longrightarrow> i < total_frames fa \<Longrightarrow> ram_start fa + i * PAGE_SIZE + PAGE_SIZE \<le> ram_start fa + ram_size fa"
  by (auto simp: frame_inv_def)

lemma free_set_bound: "frame_inv fa \<Longrightarrow> i \<in> free_set fa \<Longrightarrow> i < MAX_FRAMES"
  using frame_inv_bound [of fa] by (auto simp: free_set_def)

text \<open>Fields of an allocator that no allocation or release changes.\<close>

definition same_window :: "frame_allocator \<Rightarrow> frame_allocator \<Rightarrow> bool" where
  "same_window fa fb \<longleftrightarrow> ram_start fb = ram_start fa \<and> ram_size fb = ram_size fa \<and>
     total_frames fb = total_frames fa"

lemma same_window_refl [simp]: "same_window fa fa"
  by (simp add: same_window_def)

lemma same_window_trans: "same_window a b \<Longrightarrow> same_window b c \<Longrightarrow> same_window a c"
  by (simp add: same_window_def)

lemma set_used_ok:
  assumes inv: "frame_inv fa" and i: "i < total_frames fa"
  shows "\<exists>fb. set_used i fa = Some fb \<and> frame_inv fb \<and> same_window fa fb \<and> free_set fb = free_set fa - {i}"
proof -
  let ?w = "i div 64"
  from inv i have w: "?w < length (bitmap fa)" by (auto simp: frame_inv_def)
  show ?thesis
  proof (cases "bit (bitmap fa ! ?w) (i mod 64)")
    case False
    then have "i \<notin> free_set fa" by (simp add: free_set_def frame_bit_def)
    with False w inv show ?thesis by (auto simp: set_used_def Let_def simp del: push_bit_of_1)
  next
    case True
    with w i have mem: "i \<in> free_set fa" by (simp add: free_set_def frame_bit_def)
    with inv have cnt: "0 < free_frames fa" by (auto simp: frame_inv_def card_gt_0_iff)
    define fb where "fb = fa\<lparr>bitmap := (bitmap fa)[?w := bitmap fa ! ?w AND NOT (push_bit (i mod 64) 1)],
                            free_frames := free_frames fa - 1\<rparr>"
    from True w cnt have step: "set_used i fa = Some fb"
      by (simp add: set_used_def Let_def fb_def usub_def del: push_bit_of_1)
    from w i have fs: "free_set fb = free_set fa - {i}"
      by (auto simp: free_set_def fb_def frame_bit_clear simp del: push_bit_of_1)
    with inv mem w i have "frame_inv fb"
      by (auto simp: frame_inv_def fb_def frame_bit_clear simp del: push_bit_of_1)
    with step fs show ?thesis by (auto simp: fb_def same_window_def)
  qed
qed

lemma set_used_range:
  assumes "frame_inv fa" and "set xs \<subseteq> {..<total_frames fa}"
  shows "\<exists>fb. foldm set_used xs fa = Some fb \<and> frame_inv fb \<and> same_window fa fb \<and>
              free_set fb = free_set fa - set xs"
  using assms
proof (induction xs arbitrary: fa)
  case (Cons x xs)
  then obtain fb where fb: "set_used x fa = Some fb" "frame_inv fb" "same_window fa fb"
      "free_set fb = free_set fa - {x}"
    using set_used_ok [of fa x] by auto
  from Cons.prems fb(3) have "set xs \<subseteq> {..<total_frames fb}" by (auto simp: same_window_def)
  from Cons.IH [OF fb(2) this] obtain fc where fc: "foldm set_used xs fb = Some fc" "frame_inv fc"
      "same_window fb fc" "free_set fc = free_set fb - set xs" by blast
  with fb show ?case by (auto dest: same_window_trans)
qed simp

lemma set_free_ok:
  assumes inv: "frame_inv fa" and i: "i < MAX_FRAMES"
  shows "\<exists>fb. set_free i fa = Some fb \<and> frame_inv fb \<and> same_window fa fb \<and>
              free_set fb = free_set fa \<union> ({i} \<inter> {..<total_frames fa})"
proof -
  let ?w = "i div 64"
  from inv i have w: "?w < length (bitmap fa)" by (auto simp: frame_inv_def)
  show ?thesis
  proof (cases "bit (bitmap fa ! ?w) (i mod 64)")
    case True
    then have "i < total_frames fa \<Longrightarrow> i \<in> free_set fa" using w by (simp add: free_set_def frame_bit_def)
    with True w inv show ?thesis by (auto simp: set_free_def Let_def simp del: push_bit_of_1)
  next
    case False
    with inv i w have lt: "i < total_frames fa"
      by (auto simp: frame_inv_def frame_bit_def not_less)
    from False have mem: "i \<notin> free_set fa" by (simp add: free_set_def frame_bit_def)
    have "free_set fa \<subseteq> {..<total_frames fa}" by (auto simp: free_set_def)
    then have "card (free_set fa) \<le> MAX_FRAMES"
      using card_mono [of "{..<total_frames fa}" "free_set fa"] frame_inv_bound [OF inv] by simp
    with inv have cnt: "free_frames fa + 1 < USIZE_LIMIT" by (auto simp: frame_inv_def)
    define fb where "fb = fa\<lparr>bitmap := (bitmap fa)[?w := bitmap fa ! ?w OR push_bit (i mod 64) 1],
                            free_frames := free_frames fa + 1\<rparr>"
    from False w cnt have step: "set_free i fa = Some fb"
      by (simp add: set_free_def Let_def fb_def uadd_def del: push_bit_of_1)
    from w lt have fs: "free_set fb = insert i (free_set fa)"
      by (auto simp: free_set_def fb_def frame_bit_set simp del: push_bit_of_1)
    with inv mem w have "frame_inv fb"
      by (auto simp: frame_inv_def fb_def frame_bit_set simp del: push_bit_of_1)
    with step fs lt show ?thesis by (auto simp: fb_def same_window_def)
  qed
qed


lemma trailing_zeros:
  assumes "w \<noteq> 0"
  shows "trailing_zeros w < 64 \<and> bit w (trailing_zeros w) \<and> (\<forall>j < trailing_zeros w. \<not> bit w j)"
proof -
  let ?P = "\<lambda>i. \<not> bit w i" and ?l = "takeWhile (\<lambda>i. \<not> bit w i) [0..<64]"
  have "\<exists>n < 64. bit w n"
  proof (rule ccontr)
    assume "\<not> (\<exists>n < 64. bit w n)"
    then have "w = 0" by (intro bit_word_eqI) auto
    with assms show False by simp
  qed
  then have "\<not> (\<forall>x \<in> set [0..<64]. ?P x)" by auto
  then have "?l \<noteq> [0..<64]" by (metis takeWhile_eq_all_conv)
  then have lt: "length ?l < 64"
    using length_takeWhile_le [of ?P "[0..<64]"] takeWhile_eq_take [of ?P "[0..<64]"]
    by (metis diff_zero le_neq_implies_less length_upt take_all_iff order_refl)
  then have "bit w (length ?l)"
    using nth_length_takeWhile [of ?P "[0..<64]"] by simp
  moreover have "\<not> bit w j" if "j < length ?l" for j
  proof -
    from that have "?l ! j \<in> set ?l" by simp
    moreover from that lt have "?l ! j = j" by (simp add: takeWhile_nth)
    ultimately show ?thesis by (auto dest: set_takeWhileD)
  qed
  ultimately show ?thesis using lt by (simp add: trailing_zeros_def)
qed

lemma frame_bit_Cons: "frame_bit (w # ws) i = (if i < 64 then bit w i else frame_bit ws (i - 64))"
proof (cases "i < 64")
  case False
  then obtain j where "i = j + 64" by (metis add.commute le_iff_add not_less)
  moreover have "(j + 64) div 64 = Suc (j div 64)" by presburger
  ultimately show ?thesis by (simp add: frame_bit_def)
qed (simp add: frame_bit_def)

lemma alloc_scan_None: "alloc_scan k bm = None \<Longrightarrow> \<not> frame_bit bm i"
proof (induction k bm arbitrary: i rule: alloc_scan.induct)
  case (2 k w ws)
  then show ?case by (auto simp: frame_bit_Cons split: if_splits)
qed (simp add: frame_bit_def)

lemma alloc_scan_Some:
  "alloc_scan k bm = Some m \<Longrightarrow> \<exists>i. m = k * 64 + i \<and> frame_bit bm i \<and> (\<forall>j < i. \<not> frame_bit bm j)"
proof (induction k bm rule: alloc_scan.induct)
  case (2 k w ws)
  show ?case
  proof (cases "w = 0")
    case True
    with 2 obtain i where i: "m = Suc k * 64 + i" "frame_bit ws i" "\<forall>j < i. \<not> frame_bit ws j" by auto
    with True have "m = k * 64 + (i + 64) \<and> frame_bit (w # ws) (i + 64) \<and>
        (\<forall>j < i + 64. \<not> frame_bit (w # ws) j)"
      by (auto simp: frame_bit_Cons)
    then show ?thesis by blast
  next
    case False
    with 2 trailing_zeros [OF False] show ?thesis by (auto simp: frame_bit_Cons)
  qed
qed simp

definition frame_addr :: "frame_allocator \<Rightarrow> nat \<Rightarrow> phys_addr" where
  "frame_addr fa i = ram_start fa + i * PAGE_SIZE"

lemma alloc_none:
  assumes "frame_inv fa" and "free_set fa = {}"
  shows "alloc fa = Some (None, fa)"
proof (cases "alloc_scan 0 (bitmap fa)")
  case (Some m)
  with alloc_scan_Some [OF Some] assms(2) show ?thesis by (auto simp: alloc_def free_set_def)
qed (simp add: alloc_def)

lemma alloc_some:
  assumes inv: "frame_inv fa" and ne: "free_set fa \<noteq> {}"
  shows "\<exists>fb. alloc fa = Some (Some (frame_addr fa (Min (free_set fa))), fb) \<and> frame_inv fb \<and>
              same_window fa fb \<and> free_set fb = free_set fa - {Min (free_set fa)}"
proof -
  from ne obtain k where k: "k < total_frames fa" "frame_bit (bitmap fa) k" by (auto simp: free_set_def)
  with alloc_scan_None [of 0 "bitmap fa" k] obtain m where m: "alloc_scan 0 (bitmap fa) = Some m" by fastforce
  from alloc_scan_Some [OF m] have bit: "frame_bit (bitmap fa) m" and least: "\<forall>j < m. \<not> frame_bit (bitmap fa) j"
    by auto
  from least k have mk: "m \<le> k" by (meson not_le_imp_less)
  with k have lt: "m < total_frames fa" by simp
  from bit least lt have min: "Min (free_set fa) = m"
    by (intro Min_eqI) (auto simp: free_set_def intro: leI)
  from set_used_ok [OF inv lt] obtain fb where "set_used m fa = Some fb" "frame_inv fb" "same_window fa fb"
      "free_set fb = free_set fa - {m}" by blast
  moreover have "ram_start fa + m * PAGE_SIZE < USIZE_LIMIT"
    using frame_inv_end [OF inv lt] inv by (auto simp: frame_inv_def)
  ultimately show ?thesis using m lt min by (auto simp: alloc_def uadd_def frame_addr_def)
qed


definition free_run :: "u64 list \<Rightarrow> nat \<Rightarrow> nat \<Rightarrow> bool" where
  "free_run bm r n \<longleftrightarrow> (\<forall>j. r \<le> j \<and> j < r + n \<longrightarrow> frame_bit bm j)"

text \<open>
  The scan's loop invariant: the current run is the \<open>rl\<close> set bits before \<open>i\<close>, it is maximal to the
  left, and no run of length \<open>n\<close> ends at or before \<open>i\<close>.
\<close>

definition run_inv :: "u64 list \<Rightarrow> nat \<Rightarrow> nat \<Rightarrow> nat \<Rightarrow> nat \<Rightarrow> bool" where
  "run_inv bm n rs rl i \<longleftrightarrow>
     rl < n \<and> rl \<le> i \<and> (0 < rl \<longrightarrow> rs = i - rl) \<and> (\<forall>j. i - rl \<le> j \<and> j < i \<longrightarrow> frame_bit bm j) \<and>
     (i = rl \<or> \<not> frame_bit bm (i - rl - 1)) \<and> (\<forall>r. r + n \<le> i \<longrightarrow> \<not> free_run bm r n)"

lemma run_inv_no_run:
  assumes "run_inv bm n rs rl i" and "r < i - rl"
  shows "\<not> free_run bm r n"
proof (cases "r + n \<le> i")
  case True
  with assms show ?thesis by (auto simp: run_inv_def)
next
  case False
  have "\<not> frame_bit bm (i - rl - 1)" using assms by (auto simp: run_inv_def)
  moreover have "r \<le> i - rl - 1 \<and> i - rl - 1 < r + n" using False assms(2) by arith
  ultimately show ?thesis by (auto simp: free_run_def)
qed

lemma run_inv_set:
  assumes "run_inv bm n rs rl i" and b: "frame_bit bm i" and "rl + 1 \<noteq> n"
  shows "run_inv bm n (if rl = 0 then i else rs) (rl + 1) (Suc i)"
proof -
  have "\<not> free_run bm r n" if "r + n \<le> Suc i" for r
  proof (cases "r < i - rl")
    case True
    with assms(1) show ?thesis by (rule run_inv_no_run)
  next
    case False
    with that assms show ?thesis by (auto simp: run_inv_def)
  qed
  with assms show ?thesis by (auto simp: run_inv_def less_Suc_eq)
qed

lemma run_inv_clear:
  assumes "run_inv bm n rs rl i" and b: "\<not> frame_bit bm i"
  shows "run_inv bm n rs 0 (Suc i)"
proof -
  have "\<not> free_run bm r n" if "r + n \<le> Suc i" for r
  proof (cases "r + n \<le> i")
    case True
    with assms show ?thesis by (auto simp: run_inv_def)
  next
    case False
    then have "r \<le> i \<and> i < r + n" using that assms(1) by (auto simp: run_inv_def)
    with b show ?thesis by (auto simp: free_run_def)
  qed
  with assms show ?thesis by (auto simp: run_inv_def)
qed

lemma run_scan_spec:
  assumes "\<forall>j < t. j div 64 < length bm" and "i \<le> t" and "run_inv bm n rs rl i"
  shows "run_scan bm n rs rl [i..<t] = Some None \<and> (\<forall>r. r + n \<le> t \<longrightarrow> \<not> free_run bm r n) \<or>
         (\<exists>r. run_scan bm n rs rl [i..<t] = Some (Some r) \<and> r + n \<le> t \<and> free_run bm r n \<and>
              (\<forall>r' < r. \<not> free_run bm r' n))"
  using assms
proof (induction "t - i" arbitrary: i rs rl)
  case 0
  then show ?case by (simp add: run_inv_def)
next
  case (Suc d)
  then have it: "i < t" by simp
  then have upt: "[i..<t] = i # [Suc i..<t]" by (simp add: upt_conv_Cons)
  from Suc it have d: "d = t - Suc i" and idx: "i div 64 < length bm" by auto
  show ?case
  proof (cases "frame_bit bm i")
    case clear: False
    with idx have "run_scan bm n rs rl [i..<t] = run_scan bm n rs 0 [Suc i..<t]"
      by (simp add: upt frame_bit_def del: push_bit_of_1)
    with Suc.hyps(1) [OF d Suc.prems(1) _ run_inv_clear [OF Suc.prems(3) clear]] it show ?thesis by simp
  next
    case set: True
    show ?thesis
    proof (cases "rl + 1 = n")
      case full: True
      let ?r = "if rl = 0 then i else rs"
      from set idx full have res: "run_scan bm n rs rl [i..<t] = Some (Some ?r)"
        by (simp add: upt frame_bit_def Let_def del: push_bit_of_1)
      from Suc.prems(3) have r: "?r = i - rl" and rl: "rl \<le> i"
        and bits: "\<forall>j. i - rl \<le> j \<and> j < i \<longrightarrow> frame_bit bm j" by (auto simp: run_inv_def)
      have end_r: "?r + n = Suc i" using r rl full by simp
      have "free_run bm ?r n"
        unfolding free_run_def end_r using bits set r by (metis less_Suc_eq)
      moreover have "?r + n \<le> t" using end_r it by simp
      moreover have "\<forall>r' < ?r. \<not> free_run bm r' n"
        using run_inv_no_run [OF Suc.prems(3)] r by simp
      ultimately show ?thesis using res by blast
    next
      case False
      with set idx have "run_scan bm n rs rl [i..<t]
          = run_scan bm n (if rl = 0 then i else rs) (rl + 1) [Suc i..<t]"
        by (simp add: upt frame_bit_def Let_def del: push_bit_of_1)
      with Suc.hyps(1) [OF d Suc.prems(1) _ run_inv_set [OF Suc.prems(3) set False]] it show ?thesis
        by simp
    qed
  qed
qed

lemma run_inv_start: "0 < n \<Longrightarrow> run_inv bm n 0 0 0"
  by (auto simp: run_inv_def)


lemma free_run_set:
  "0 < n \<Longrightarrow> {r..<r + n} \<subseteq> free_set fa \<longleftrightarrow> r + n \<le> total_frames fa \<and> free_run (bitmap fa) r n"
proof
  assume n: "0 < n" and sub: "{r..<r + n} \<subseteq> free_set fa"
  have "r + n - 1 \<in> {r..<r + n}" using n by auto
  with sub have "r + n - 1 < total_frames fa" by (auto simp: free_set_def)
  with n sub show "r + n \<le> total_frames fa \<and> free_run (bitmap fa) r n"
    by (auto simp: free_set_def free_run_def)
qed (auto simp: free_set_def free_run_def)

lemma frame_addr_fits: "frame_inv fa \<Longrightarrow> i < total_frames fa \<Longrightarrow> ram_start fa + i * PAGE_SIZE < USIZE_LIMIT"
  using frame_inv_end [of fa i] by (auto simp: frame_inv_def)

lemma alloc_contiguous_ok:
  assumes inv: "frame_inv fa" and n: "0 < n"
  shows "(\<forall>r. \<not> {r..<r + n} \<subseteq> free_set fa) \<and> alloc_contiguous n fa = Some (None, fa) \<or>
         (\<exists>r fb. alloc_contiguous n fa = Some (Some (frame_addr fa r), fb) \<and> frame_inv fb \<and>
            same_window fa fb \<and> {r..<r + n} \<subseteq> free_set fa \<and>
            (\<forall>r' < r. \<not> {r'..<r' + n} \<subseteq> free_set fa) \<and> free_set fb = free_set fa - {r..<r + n})"
proof -
  let ?t = "total_frames fa" and ?bm = "bitmap fa"
  have idx: "\<forall>j < ?t. j div 64 < length ?bm"
    using inv frame_inv_bound [OF inv] by (auto simp: frame_inv_def)
  from run_scan_spec [OF idx _ run_inv_start [OF n]]
  consider (none) "run_scan ?bm n 0 0 [0..<?t] = Some None" "\<forall>r. r + n \<le> ?t \<longrightarrow> \<not> free_run ?bm r n"
    | (some) r where "run_scan ?bm n 0 0 [0..<?t] = Some (Some r)" "r + n \<le> ?t" "free_run ?bm r n"
        "\<forall>r' < r. \<not> free_run ?bm r' n"
    by auto
  then show ?thesis
  proof cases
    case none
    then have "alloc_contiguous n fa = Some (None, fa)" using n by (simp add: alloc_contiguous_def)
    with none(2) show ?thesis by (simp add: free_run_set [OF n])
  next
    case some
    have sub: "set [r..<r + n] \<subseteq> {..<?t}" using some(2) by auto
    from set_used_range [OF inv sub] obtain fb where fb: "foldm set_used [r..<r + n] fa = Some fb"
        "frame_inv fb" "same_window fa fb" "free_set fb = free_set fa - {r..<r + n}" by auto
    have "uadd (ram_start fa) (r * PAGE_SIZE) = Some (ram_start fa + r * PAGE_SIZE)"
      using frame_addr_fits [OF inv, of r] n some(2) by (simp only: uadd_Some)
    with fb some n have "alloc_contiguous n fa = Some (Some (frame_addr fa r), fb)"
      by (simp add: alloc_contiguous_def frame_addr_def del: uadd_Some)
    with fb some(2-4) show ?thesis by (auto simp: free_run_set [OF n])
  qed
qed

lemma all_ones_bit: "i < 64 * k \<Longrightarrow> frame_bit (map (\<lambda>_. NOT 0) (xs :: u64 list)) i" if "length xs = k"
proof -
  assume "i < 64 * k"
  then have "i div 64 < length xs" using that by (simp add: div_less_iff_less_mult mult.commute)
  then show ?thesis by (simp add: frame_bit_def bit_not_iff)
qed

lemma page_ceil_le: "(x + 4095) div PAGE_SIZE \<le> n \<longleftrightarrow> x \<le> n * PAGE_SIZE" for x n :: nat
  using div_less_iff_less_mult [of PAGE_SIZE "x + 4095" "Suc n"] by (auto simp: less_Suc_eq_le)

lemma page_floor_less: "n < x div PAGE_SIZE \<longleftrightarrow> n * PAGE_SIZE + PAGE_SIZE \<le> x" for x n :: nat
  using less_eq_div_iff_mult_less_eq [of PAGE_SIZE "Suc n" x] by (simp add: Suc_le_eq add.commute)

lemma reserved_bound:
  assumes "page_aligned start"
  shows "(page_down (kernel_end + PAGE_SIZE - 1) - start) div PAGE_SIZE \<le> i \<longleftrightarrow> kernel_end \<le> start + i * PAGE_SIZE"
proof -
  from assms obtain k where k: "start = PAGE_SIZE * k" by (auto simp: page_aligned_def)
  let ?q = "(kernel_end + 4095) div PAGE_SIZE"
  have "(page_down (kernel_end + PAGE_SIZE - 1) - start) div PAGE_SIZE = ?q - k"
    by (simp add: page_down_def k add.commute flip: diff_mult_distrib2)
  moreover have "?q \<le> i + k \<longleftrightarrow> kernel_end \<le> (i + k) * PAGE_SIZE"
    by (rule page_ceil_le)
  moreover have "start + i * PAGE_SIZE = (i + k) * PAGE_SIZE" by (simp add: k)
  ultimately show ?thesis by (simp only: le_diff_conv)
qed

lemma init_ok:
  assumes "length (bitmap fa) = BITMAP_WORDS" and "sz \<le> MAX_RAM_SIZE" and al: "page_aligned start"
    and "start + sz < USIZE_LIMIT" and ke: "kernel_end + PAGE_SIZE < USIZE_LIMIT"
  shows "\<exists>fb. init kernel_end start sz fa = Some fb \<and> frame_inv fb \<and> ram_start fb = start \<and>
              ram_size fb = sz \<and>
              free_set fb = {i. i < sz div PAGE_SIZE \<and> kernel_end \<le> start + i * PAGE_SIZE}"
proof -
  define fa2 where "fa2 = fa\<lparr>ram_start := start, ram_size := sz, total_frames := sz div PAGE_SIZE,
      bitmap := map (\<lambda>_. NOT 0) (bitmap fa), free_frames := sz div PAGE_SIZE\<rparr>"
  have bits: "frame_bit (bitmap fa2) i" if "i < MAX_FRAMES" for i
    using that assms(1) all_ones_bit [of "bitmap fa" BITMAP_WORDS i] by (simp add: fa2_def)
  moreover have "sz div PAGE_SIZE \<le> MAX_FRAMES" using assms(2) by simp
  ultimately have fs: "free_set fa2 = {..<sz div PAGE_SIZE}" by (auto simp: free_set_def fa2_def)
  have inv: "frame_inv fa2"
    using assms bits fs by (auto simp: frame_inv_def fa2_def page_aligned_def)
  define m where "m = min ((page_down (kernel_end + PAGE_SIZE - 1) - start) div PAGE_SIZE) (sz div PAGE_SIZE)"
  have "set [0..<m] \<subseteq> {..<total_frames fa2}" by (auto simp: m_def fa2_def)
  from set_used_range [OF inv this] obtain fb where fb: "foldm set_used [0..<m] fa2 = Some fb"
      "frame_inv fb" "same_window fa2 fb" "free_set fb = {..<sz div PAGE_SIZE} - {0..<m}" using fs by auto
  have "init kernel_end start sz fa = Some fb"
    using assms fb(1) by (simp add: init_def page_aligned_def uadd_def Let_def fa2_def m_def)
  moreover have "free_set fb = {i. i < sz div PAGE_SIZE \<and> kernel_end \<le> start + i * PAGE_SIZE}"
  proof -
    have "{..<t} - {0..<min r t} = {i. i < t \<and> r \<le> i}" for r t :: nat by auto
    then show ?thesis unfolding fb(4) m_def by (simp only: reserved_bound [OF al])
  qed
  ultimately show ?thesis using fb by (auto simp: same_window_def fa2_def)
qed

lemma phys_to_idx_page:
  assumes "k \<le> j" "j * PAGE_SIZE < k * PAGE_SIZE + sz" "k * PAGE_SIZE + sz < USIZE_LIMIT"
  shows "phys_to_idx (j * PAGE_SIZE) (k * PAGE_SIZE) sz = Some (Some (j - k))"
proof -
  have "j * PAGE_SIZE - k * PAGE_SIZE = (j - k) * PAGE_SIZE" by (simp only: diff_mult_distrib)
  with assms show ?thesis by (simp add: phys_to_idx_def uadd_def)
qed

lemma phys_to_idx_outside:
  "start + sz < USIZE_LIMIT \<Longrightarrow> addr < start \<or> start + sz \<le> addr \<Longrightarrow> phys_to_idx addr start sz = Some None"
  by (auto simp: phys_to_idx_def uadd_def)

lemma reserve_region_inside:
  assumes inv: "frame_inv fa" and lo: "ram_start fa \<le> start"
    and hi: "start + sz \<le> ram_start fa + ram_size fa" and nov: "start + PAGE_SIZE < USIZE_LIMIT"
  shows "\<exists>fb. reserve_region start sz fa = Some fb \<and> frame_inv fb \<and> same_window fa fb \<and>
              free_set fb = free_set fa -
                {i. start \<le> frame_addr fa i \<and> frame_addr fa i + PAGE_SIZE \<le> start + sz}"
proof -
  from inv obtain k where k: "ram_start fa = k * PAGE_SIZE"
    by (auto simp: frame_inv_def page_aligned_def mult.commute)
  define b where "b = (start + 4095) div PAGE_SIZE"
  define e where "e = (start + sz) div PAGE_SIZE"
  have lim: "ram_start fa + ram_size fa < USIZE_LIMIT" and tot: "total_frames fa = ram_size fa div PAGE_SIZE"
    using inv by (auto simp: frame_inv_def)
  have ke: "e \<le> k + total_frames fa"
    using div_le_mono [OF hi, of PAGE_SIZE] by (simp add: e_def k tot)
  have in_set: "start \<le> frame_addr fa i \<and> frame_addr fa i + PAGE_SIZE \<le> start + sz \<longleftrightarrow> b \<le> k + i \<and> k + i < e" for i
    unfolding b_def e_def page_ceil_le page_floor_less by (simp add: frame_addr_def k algebra_simps)
  have kb: "k \<le> b"
    using div_le_mono [of "ram_start fa" "start + 4095" PAGE_SIZE] lo by (simp add: b_def k)
  have pd: "page_down (start + PAGE_SIZE - 1) = b * PAGE_SIZE" "page_down (start + sz) = e * PAGE_SIZE"
    by (simp_all add: page_down_def b_def e_def add.commute)
  show ?thesis
  proof (cases "e \<le> b")
    case True
    have "reserve_region start sz fa = Some fa"
      using True nov hi lim pd by (simp add: reserve_region_def uadd_def Let_def)
    moreover have "{i. b \<le> k + i \<and> k + i < e} = {}" using True by auto
    ultimately show ?thesis using inv by (auto simp: in_set)
  next
    case False
    have "set [b - k..<e - k] \<subseteq> {..<total_frames fa}" using ke False kb by auto
    from set_used_range [OF inv this] obtain fb where fb: "foldm set_used [b - k..<e - k] fa = Some fb"
      "frame_inv fb" "same_window fa fb" "free_set fb = free_set fa - {b - k..<e - k}" by auto
    have ee: "e * PAGE_SIZE \<le> start + sz" by (simp add: e_def)
    have "phys_to_idx (b * PAGE_SIZE) (ram_start fa) (ram_size fa) = Some (Some (b - k))"
      unfolding k by (rule phys_to_idx_page) (use False ee hi kb lim k in simp_all)
    moreover have "\<exists>x. phys_to_idx (e * PAGE_SIZE) (ram_start fa) (ram_size fa) = Some x \<and>
        min (unwrap_or x (total_frames fa)) (total_frames fa) = e - k"
    proof (cases "e * PAGE_SIZE < ram_start fa + ram_size fa")
      case True
      then have "phys_to_idx (e * PAGE_SIZE) (ram_start fa) (ram_size fa) = Some (Some (e - k))"
        unfolding k by (intro phys_to_idx_page) (use lim kb \<open>\<not> e \<le> b\<close> k in simp_all)
      then show ?thesis using ke by (simp add: unwrap_or_def)
    next
      case False
      then have "ram_size fa = (e - k) * PAGE_SIZE" using ee hi by (simp add: k diff_mult_distrib)
      then show ?thesis using lim False phys_to_idx_outside [OF lim] by (simp add: unwrap_or_def tot)
    qed
    ultimately have "reserve_region start sz fa = Some fb"
      using False nov hi lim pd fb(1) by (auto simp: reserve_region_def uadd_def Let_def unwrap_or_def)
    moreover have "{i. b \<le> k + i \<and> k + i < e} = {b - k..<e - k}" using kb by auto
    ultimately show ?thesis using fb(2-4) by (simp add: in_set)
  qed
qed

lemma reserve_region_outside:
  assumes inv: "frame_inv fa" and out: "start + sz < ram_start fa \<or> ram_start fa + ram_size fa \<le> start"
    and nov: "start + PAGE_SIZE < USIZE_LIMIT" "start + sz < USIZE_LIMIT"
    and page: "page_down (start + PAGE_SIZE - 1) < page_down (start + sz)"
  shows "\<exists>fb. reserve_region start sz fa = Some fb \<and> frame_inv fb \<and> same_window fa fb \<and> free_set fb = {}"
proof -
  let ?b = "page_down (start + PAGE_SIZE - 1)" and ?e = "page_down (start + sz)"
  have lim: "ram_start fa + ram_size fa < USIZE_LIMIT" using inv by (simp add: frame_inv_def)
  have "start \<le> ?b" using page_ceil_le [of start "?b div PAGE_SIZE"] by (simp add: page_down_def add.commute)
  moreover have "?e \<le> start + sz" by (rule page_down_le)
  ultimately have "phys_to_idx ?b (ram_start fa) (ram_size fa) = Some None"
      "phys_to_idx ?e (ram_start fa) (ram_size fa) = Some None"
    using out page by (auto intro!: phys_to_idx_outside [OF lim])
  then have step: "reserve_region start sz fa = foldm set_used [0..<total_frames fa] fa"
    using nov page by (simp add: reserve_region_def uadd_def Let_def unwrap_or_def)
  have "set [0..<total_frames fa] \<subseteq> {..<total_frames fa}" by auto
  moreover have "free_set fa - set [0..<total_frames fa] = {}" by (auto simp: free_set_def)
  ultimately show ?thesis unfolding step using set_used_range [OF inv, of "[0..<total_frames fa]"] by metis
qed

definition free_addrs :: "frame_allocator \<Rightarrow> phys_addr set" where
  "free_addrs fa = frame_addr fa ` free_set fa"

definition frame_addrs :: "frame_allocator \<Rightarrow> phys_addr set" where
  "frame_addrs fa = frame_addr fa ` {..<total_frames fa}"

lemma frame_addr_inj [simp]: "frame_addr fa i = frame_addr fa j \<longleftrightarrow> i = j"
  by (simp add: frame_addr_def)

lemma frame_addr_window: "same_window fa fb \<Longrightarrow> frame_addr fb = frame_addr fa"
  by (simp add: same_window_def frame_addr_def fun_eq_iff)

lemma frame_addrs_window: "same_window fa fb \<Longrightarrow> frame_addrs fb = frame_addrs fa"
  unfolding frame_addrs_def using frame_addr_window [of fa fb] by (simp only: same_window_def)

lemma free_addrs_diff:
  assumes "same_window fa fb" "free_set fb = free_set fa - X"
  shows "free_addrs fb = free_addrs fa - frame_addr fa ` X"
proof -
  have "frame_addr fa ` (free_set fa - X) = frame_addr fa ` free_set fa - frame_addr fa ` X"
    by (rule image_set_diff) (simp add: inj_def)
  then show ?thesis unfolding free_addrs_def assms(2) frame_addr_window [OF assms(1)] .
qed

lemma frame_addrs_aligned:
  assumes "frame_inv fa" "a \<in> frame_addrs fa"
  shows "page_aligned a \<and> ram_start fa \<le> a \<and> a + PAGE_SIZE \<le> ram_start fa + ram_size fa"
proof -
  from assms(2) obtain i where i: "a = frame_addr fa i" "i < total_frames fa" by (auto simp: frame_addrs_def)
  from assms(1) have "page_aligned (ram_start fa)" by (simp add: frame_inv_def)
  then have "page_aligned a"
    using page_aligned_add [of "ram_start fa" i] by (simp add: i(1) frame_addr_def mult.commute)
  with frame_inv_end [OF assms(1) i(2)] show ?thesis by (simp add: i(1) frame_addr_def)
qed

lemma free_ok:
  assumes inv: "frame_inv fa" and i: "i < total_frames fa"
  shows "\<exists>fb. free (frame_addr fa i) fa = Some fb \<and> frame_inv fb \<and> same_window fa fb \<and>
              free_set fb = insert i (free_set fa)"
proof -
  from i have "frame_addr fa i \<in> frame_addrs fa" by (auto simp: frame_addrs_def)
  from frame_addrs_aligned [OF inv this]
  have al: "frame_addr fa i mod PAGE_SIZE = 0" and hi: "frame_addr fa i < ram_start fa + ram_size fa"
    by (auto simp: page_aligned_def)
  have "ram_start fa + ram_size fa < USIZE_LIMIT" using inv by (simp add: frame_inv_def)
  with hi have "phys_to_idx (frame_addr fa i) (ram_start fa) (ram_size fa) = Some (Some i)"
    by (simp add: phys_to_idx_def uadd_def frame_addr_def)
  with al have "free (frame_addr fa i) fa = set_free i fa" by (simp add: free_def)
  moreover have "i < MAX_FRAMES" using i frame_inv_bound [OF inv] by simp
  moreover have "free_set fa \<union> {i} \<inter> {..<total_frames fa} = insert i (free_set fa)" using i by auto
  ultimately show ?thesis using set_free_ok [OF inv, of i] by simp
qed

lemma free_panics:
  assumes "frame_inv fa" and "\<not> page_aligned addr \<or> addr < ram_start fa \<or> ram_start fa + ram_size fa \<le> addr"
  shows "free addr fa = None"
proof (cases "page_aligned addr")
  case True
  with assms have "phys_to_idx addr (ram_start fa) (ram_size fa) = Some None"
    by (intro phys_to_idx_outside) (simp_all add: frame_inv_def)
  then show ?thesis by (simp add: free_def)
qed (simp add: free_def page_aligned_def)

section \<open>The interface the page tables and the loaders rely on\<close>

locale frame_provider =
  fixes take1 :: "'s \<Rightarrow> (phys_addr option \<times> 's) option"
    and give :: "phys_addr \<Rightarrow> 's \<Rightarrow> 's option"
    and avail :: "'s \<Rightarrow> phys_addr set"
    and managed :: "'s \<Rightarrow> phys_addr set"
    and ok :: "'s \<Rightarrow> bool"
  assumes take_none: "ok s \<Longrightarrow> avail s = {} \<Longrightarrow> take1 s = Some (None, s)"
    and take_some: "ok s \<Longrightarrow> avail s \<noteq> {} \<Longrightarrow>
      \<exists>a s'. take1 s = Some (Some a, s') \<and> a \<in> avail s \<and> ok s' \<and> avail s' = avail s - {a} \<and> managed s' = managed s"
    and give_ok: "ok s \<Longrightarrow> a \<in> managed s \<Longrightarrow>
      \<exists>s'. give a s = Some s' \<and> ok s' \<and> avail s' = insert a (avail s) \<and> managed s' = managed s"
    and avail_managed: "avail s \<subseteq> managed s"
    and managed_aligned: "ok s \<Longrightarrow> a \<in> managed s \<Longrightarrow> page_aligned a"
    and finite_avail: "finite (avail s)"
begin

lemma take_cases:
  assumes "ok s"
  obtains (empty) "avail s = {}" "take1 s = Some (None, s)"
    | (frame) a s' where "take1 s = Some (Some a, s')" "a \<in> avail s" "ok s'" "avail s' = avail s - {a}"
        "managed s' = managed s"
  using take_none [OF assms] take_some [OF assms] by blast

lemma take_total: "ok s \<Longrightarrow> \<exists>r s'. take1 s = Some (r, s') \<and> ok s' \<and> managed s' = managed s \<and> avail s' \<subseteq> avail s"
  using take_none [of s] take_some [of s] by (cases "avail s = {}") auto

lemma take_twice:
  assumes "ok s" "take1 s = Some (Some a, s')" "take1 s' = Some (Some b, s'')"
  shows "a \<noteq> b"
  using assms(1)
proof (cases rule: take_cases)
  case (frame c t)
  with assms(2) have "ok s'" "avail s' = avail s - {a}" by auto
  from this(1) show ?thesis by (cases rule: take_cases) (use assms(3) \<open>avail s' = avail s - {a}\<close> in auto)
qed (use assms in auto)

lemma take_give:
  assumes "ok s" "take1 s = Some (Some a, s')"
  shows "\<exists>s''. give a s' = Some s'' \<and> ok s'' \<and> avail s'' = avail s"
proof -
  from assms(1) have s': "ok s' \<and> a \<in> avail s \<and> avail s' = avail s - {a} \<and> managed s' = managed s"
    by (cases rule: take_cases) (use assms(2) in auto)
  with avail_managed [of s] have "a \<in> managed s'" by auto
  from give_ok [OF _ this] s' show ?thesis by (auto simp: insert_absorb)
qed

text \<open>What a client holds, and that taking and giving back keep it apart from the pool.\<close>

definition holds :: "'s \<Rightarrow> phys_addr list \<Rightarrow> bool" where
  "holds s hs \<longleftrightarrow> ok s \<and> distinct hs \<and> set hs \<inter> avail s = {} \<and> set hs \<subseteq> managed s"

lemma holds_take:
  assumes "holds s hs" "take1 s = Some (r, s')"
  shows "case r of None \<Rightarrow> s' = s \<and> avail s = {}
         | Some a \<Rightarrow> holds s' (a # hs) \<and> card (avail s') + 1 = card (avail s)"
proof -
  from assms have ok: "ok s" by (simp add: holds_def)
  then show ?thesis
  proof (cases rule: take_cases)
    case empty
    then show ?thesis using assms by simp
  next
    case (frame a s'')
    then have "Suc (card (avail s - {a})) = card (avail s)"
      by (intro card_Suc_Diff1 finite_avail)
    with frame assms avail_managed [of s] show ?thesis by (auto simp: holds_def)
  qed
qed

lemma holds_give:
  assumes "holds s hs" "a \<in> set hs"
  shows "\<exists>s'. give a s = Some s' \<and> holds s' (remove1 a hs) \<and> card (avail s') = card (avail s) + 1"
proof -
  from assms have "ok s" "a \<in> managed s" "a \<notin> avail s" by (auto simp: holds_def)
  from give_ok [OF this(1,2)] this(3) obtain s' where "give a s = Some s'" "ok s'"
      "avail s' = insert a (avail s)" "managed s' = managed s" by auto
  with assms \<open>a \<notin> avail s\<close> show ?thesis by (auto simp: holds_def finite_avail)
qed

end


interpretation fp: frame_provider alloc free free_addrs frame_addrs frame_inv
proof unfold_locales
  fix fa assume inv: "frame_inv fa" and "free_addrs fa = {}"
  then have "free_set fa = {}" by (simp add: free_addrs_def)
  with inv show "alloc fa = Some (None, fa)" by (rule alloc_none)
next
  fix fa assume inv: "frame_inv fa" and "free_addrs fa \<noteq> {}"
  then have ne: "free_set fa \<noteq> {}" by (simp add: free_addrs_def)
  from alloc_some [OF inv ne] obtain fb where fb: "alloc fa = Some (Some (frame_addr fa (Min (free_set fa))), fb)"
      "frame_inv fb" "same_window fa fb" "free_set fb = free_set fa - {Min (free_set fa)}" by auto
  have "frame_addr fa (Min (free_set fa)) \<in> free_addrs fa" using ne by (simp add: free_addrs_def)
  with fb free_addrs_diff [OF fb(3,4)] frame_addrs_window [OF fb(3)]
  show "\<exists>a fb. alloc fa = Some (Some a, fb) \<and> a \<in> free_addrs fa \<and> frame_inv fb \<and>
          free_addrs fb = free_addrs fa - {a} \<and> frame_addrs fb = frame_addrs fa" by simp
next
  fix fa a assume inv: "frame_inv fa" and "a \<in> frame_addrs fa"
  then obtain i where i: "i < total_frames fa" "a = frame_addr fa i" by (auto simp: frame_addrs_def)
  from free_ok [OF inv i(1)] obtain fb where fb: "free a fa = Some fb" "frame_inv fb" "same_window fa fb"
      "free_set fb = insert i (free_set fa)" by (auto simp: i(2))
  have "free_addrs fb = insert a (free_addrs fa)"
    unfolding free_addrs_def fb(4) frame_addr_window [OF fb(3)] i(2) by (rule image_insert)
  with fb frame_addrs_window [OF fb(3)]
  show "\<exists>fb. free a fa = Some fb \<and> frame_inv fb \<and> free_addrs fb = insert a (free_addrs fa) \<and>
          frame_addrs fb = frame_addrs fa" by simp
next
  show "free_addrs fa \<subseteq> frame_addrs fa" for fa by (auto simp: free_addrs_def frame_addrs_def free_set_def)
next
  show "page_aligned a" if "frame_inv fa" "a \<in> frame_addrs fa" for fa a
    using frame_addrs_aligned [OF that] by simp
next
  show "finite (free_addrs fa)" for fa by (simp add: free_addrs_def)
qed

section \<open>Histories of the allocator\<close>

lemma free_addrs_card: "frame_inv fa \<Longrightarrow> card (free_addrs fa) = free_frames fa"
  by (simp add: free_addrs_def frame_inv_def card_image inj_on_def)

lemma frame_run_addrs: "frame_addr fa ` {r..<r + n} = set (map (\<lambda>j. frame_addr fa r + j * PAGE_SIZE) [0..<n])"
proof -
  have "{r..<r + n} = (\<lambda>j. r + j) ` {0..<n}" by (simp add: image_add_atLeastLessThan add.commute)
  then have "frame_addr fa ` {r..<r + n} = (\<lambda>j. frame_addr fa (r + j)) ` {0..<n}"
    by (simp only: image_image)
  then show ?thesis by (simp add: frame_addr_def algebra_simps)
qed

lemma holds_alloc_contiguous:
  assumes "fp.holds fa hs" "alloc_contiguous n fa = Some (r, fb)"
  shows "case r of None \<Rightarrow> fb = fa
         | Some a \<Rightarrow> fp.holds fb (map (\<lambda>j. a + j * PAGE_SIZE) [0..<n] @ hs) \<and> free_frames fb + n = free_frames fa"
proof (cases "n = 0")
  case True
  then show ?thesis using assms by (simp add: alloc_contiguous_def)
next
  case False
  from assms have inv: "frame_inv fa" and dj: "set hs \<inter> free_addrs fa = {}" and hs: "distinct hs" "set hs \<subseteq> frame_addrs fa"
    by (auto simp: fp.holds_def)
  from alloc_contiguous_ok [OF inv, of n, unfolded assms(2) option.inject prod.inject] False
  consider "r = None" "fb = fa"
    | i where "r = Some (frame_addr fa i)" "frame_inv fb" "same_window fa fb" "{i..<i + n} \<subseteq> free_set fa"
        "free_set fb = free_set fa - {i..<i + n}" by blast
  then show ?thesis
  proof cases
    case (2 i)
    let ?new = "map (\<lambda>j. frame_addr fa i + j * PAGE_SIZE) [0..<n]"
    have new: "set ?new \<subseteq> free_addrs fa"
      unfolding frame_run_addrs [symmetric] free_addrs_def using 2(4) by (rule image_mono)
    have "free_addrs fb = free_addrs fa - set ?new"
      unfolding frame_run_addrs [symmetric] by (rule free_addrs_diff [OF 2(3,5)])
    moreover have "distinct ?new" by (simp add: distinct_map inj_on_def)
    ultimately have "fp.holds fb (?new @ hs)"
      using 2(2) dj hs new fp.avail_managed [of fa] frame_addrs_window [OF 2(3)]
      unfolding fp.holds_def by (simp only: distinct_append set_append) blast
    moreover have "free_frames fb + n = free_frames fa"
      using card_Diff_subset [OF _ 2(4)] card_mono [OF _ 2(4)] inv 2(2,5) by (simp add: frame_inv_def)
    ultimately show ?thesis by (simp add: 2(1))
  qed simp
qed


lemma frame_step_inv:
  assumes "frame_step x y" "fp.holds (fst x) (snd x)"
  shows "fp.holds (fst y) (snd y) \<and> free_frames (fst y) + length (snd y) = free_frames (fst x) + length (snd x)"
  using assms
proof (induction rule: frame_step.induct)
  case (alloc_one fa a fb held)
  then have "fp.holds fb (a # held) \<and> card (free_addrs fb) + 1 = card (free_addrs fa)"
    using fp.holds_take [of fa held "Some a" fb] by simp
  with alloc_one show ?case using free_addrs_card [of fa] free_addrs_card [of fb] by (auto simp: fp.holds_def)
next
  case (alloc_fail fa fb held)
  then show ?case using fp.holds_take [of fa held None fb] by simp
next
  case (alloc_run n fa a fb held)
  then show ?case using holds_alloc_contiguous [of fa held n "Some a" fb] by simp
next
  case (alloc_run_fail n fa fb held)
  then show ?case using holds_alloc_contiguous [of fa held n None fb] by simp
next
  case (give_back a held fa fb)
  then have fb: "fp.holds fb (remove1 a held)" "card (free_addrs fb) = card (free_addrs fa) + 1"
    using fp.holds_give [of fa held a] by auto
  have "length held = Suc (length (remove1 a held))"
    using give_back(1) by (simp add: length_remove1) (metis Suc_pred length_pos_if_in_set)
  with fb give_back(3) show ?case
    using free_addrs_card [of fa] free_addrs_card [of fb] by (auto simp: fp.holds_def)
qed

lemma frame_steps_inv:
  assumes "frame_step\<^sup>*\<^sup>* x y" "fp.holds (fst x) (snd x)"
  shows "fp.holds (fst y) (snd y) \<and> free_frames (fst y) + length (snd y) = free_frames (fst x) + length (snd x)"
  using assms by (induction rule: rtranclp_induct) (use frame_step_inv in force)+

lemma boot_frames:
  "\<exists>fa. init 0x40300000 0x40000000 0x20000000 new_zeroed = Some fa \<and> frame_inv fa \<and>
        ram_start fa = 0x40000000 \<and> ram_size fa = 0x20000000 \<and> free_set fa = {768..<131072}"
proof -
  have "{i. i < 0x20000000 div PAGE_SIZE \<and> (0x40300000 :: nat) \<le> 0x40000000 + i * PAGE_SIZE} = {768..<131072}"
    by auto
  then show ?thesis
    using init_ok [of new_zeroed "0x20000000" "0x40000000" "0x40300000"] by (simp add: new_zeroed_def page_aligned_def)
qed

lemma boot_alloc:
  "\<exists>fa fb. init 0x40300000 0x40000000 0x20000000 new_zeroed = Some fa \<and> frame_inv fa \<and>
           ram_start fa = 0x40000000 \<and> ram_size fa = 0x20000000 \<and> free_set fa = {768..<131072} \<and>
           alloc fa = Some (Some 0x40300000, fb)"
proof -
  obtain fa where fa: "init 0x40300000 0x40000000 0x20000000 new_zeroed = Some fa" "frame_inv fa"
      "ram_start fa = 0x40000000" "ram_size fa = 0x20000000" "free_set fa = {768..<131072}"
    using boot_frames by blast
  have "Min {768..<131072} = (768::nat)" by (rule Min_eqI) auto
  then have "frame_addr fa (Min (free_set fa)) = 0x40300000" using fa by (simp add: frame_addr_def)
  moreover have "\<exists>fb. alloc fa = Some (Some (frame_addr fa (Min (free_set fa))), fb)"
    using alloc_some [OF fa(2)] fa(5) by auto
  ultimately show ?thesis using fa by simp
qed

section \<open>Properties\<close>

text \<open>
  C2.  No frame is ever handed out twice.  Start from any well-formed allocator with no frame held
  and run any sequence of \<open>alloc\<close>, \<open>alloc_contiguous\<close> and \<open>free\<close> calls in which clients give back
  only frames they hold: the frames held are pairwise distinct, page-aligned, inside the managed
  window and disjoint from the free pool; the free counter plus the number of frames held is
  constant; the allocator is still well formed, and none of the next calls panics.
\<close>

theorem frames_exclusive:
  assumes "frame_inv fa" "frame_step\<^sup>*\<^sup>* (fa, []) (fb, held)"
  shows "frame_inv fb \<and> distinct held \<and> set held \<inter> free_addrs fb = {} \<and>
         (\<forall>a \<in> set held. page_aligned a \<and> ram_start fb \<le> a \<and> a + PAGE_SIZE \<le> ram_start fb + ram_size fb) \<and>
         free_frames fb + length held = free_frames fa \<and>
         alloc fb \<noteq> None \<and> alloc_contiguous n fb \<noteq> None \<and> (\<forall>a \<in> set held. free a fb \<noteq> None)"
proof -
  have h: "fp.holds fb held" "free_frames fb + length held = free_frames fa"
    using frame_steps_inv [OF assms(2)] assms(1) by (simp_all add: fp.holds_def)
  then have inv: "frame_inv fb" by (simp add: fp.holds_def)
  have "alloc fb \<noteq> None" using fp.take_total [OF inv] by auto
  moreover have "alloc_contiguous n fb \<noteq> None"
    using alloc_contiguous_ok [OF inv, of n] by (cases "n = 0") (auto simp: alloc_contiguous_def)
  moreover have "\<forall>a \<in> set held. free a fb \<noteq> None" using fp.holds_give [OF h(1)] by fastforce
  ultimately show ?thesis using h frame_addrs_aligned [OF inv] by (auto simp: fp.holds_def)
qed

theorem frames_exclusive_witness:
  "\<exists>fa fb. init 0x40300000 0x40000000 0x20000000 new_zeroed = Some fa \<and> alloc fa = Some (Some 0x40300000, fb) \<and>
     frame_step\<^sup>*\<^sup>* (fa, []) (fb, [0x40300000]) \<and> frame_inv fb \<and> 0x40300000 \<notin> free_addrs fb \<and>
     free_frames fb + 1 = free_frames fa \<and> free 0x40300000 fb \<noteq> None"
proof -
  obtain fa fb where fa: "init 0x40300000 0x40000000 0x20000000 new_zeroed = Some fa" "frame_inv fa"
      "alloc fa = Some (Some 0x40300000, fb)" using boot_alloc by blast
  have step: "frame_step\<^sup>*\<^sup>* (fa, []) (fb, [0x40300000])" using fa(3) by (auto intro: frame_step.intros)
  from frames_exclusive [OF fa(2) step] fa step show ?thesis by auto
qed



text \<open>
  C18.  Contiguous allocation is exact first fit.  For a positive count the call never panics; it
  returns no address only when the managed window has no run of that many free frames; otherwise
  it returns the lowest run and removes exactly that run from the free frames.
\<close>

theorem alloc_contiguous_first_fit:
  assumes "frame_inv fa" "0 < n"
  shows "(\<forall>r. \<not> {r..<r + n} \<subseteq> free_set fa) \<and> alloc_contiguous n fa = Some (None, fa) \<or>
         (\<exists>r fb. alloc_contiguous n fa = Some (Some (ram_start fa + r * PAGE_SIZE), fb) \<and> frame_inv fb \<and>
            {r..<r + n} \<subseteq> free_set fa \<and> (\<forall>r' < r. \<not> {r'..<r' + n} \<subseteq> free_set fa) \<and>
            free_set fb = free_set fa - {r..<r + n})"
  using alloc_contiguous_ok [OF assms] unfolding frame_addr_def by blast

theorem alloc_contiguous_first_fit_witness:
  "\<exists>fa fb. init 0x40300000 0x40000000 0x20000000 new_zeroed = Some fa \<and>
     alloc_contiguous 16 fa = Some (Some 0x40300000, fb) \<and> free_set fb = {784..<131072}"
proof -
  obtain fa where fa: "init 0x40300000 0x40000000 0x20000000 new_zeroed = Some fa" "frame_inv fa"
      "ram_start fa = 0x40000000" "free_set fa = {768..<131072}" using boot_frames by blast
  have run: "{768..<768 + 16} \<subseteq> free_set fa" by (auto simp: fa(4))
  have pos: "0 < (16::nat)" by simp
  from alloc_contiguous_first_fit [OF fa(2) pos] run obtain r fb where r:
      "alloc_contiguous 16 fa = Some (Some (ram_start fa + r * PAGE_SIZE), fb)" "{r..<r + 16} \<subseteq> free_set fa"
      "\<forall>r' < r. \<not> {r'..<r' + 16} \<subseteq> free_set fa" "free_set fb = free_set fa - {r..<r + 16}" by blast
  from r(3) run have "r \<le> 768" using not_less by blast
  moreover from r(2) have "r \<in> free_set fa" by (auto simp: subset_iff)
  ultimately have "r = 768" by (simp add: fa(4))
  moreover have "{768..<131072} - {768..<784} = {784..<131072 :: nat}" by auto
  ultimately show ?thesis using r fa by auto
qed

text \<open>
  C26.  \<open>reserve_region\<close> inside the managed window takes exactly the whole frames that lie in the
  region out of the pool.
\<close>

theorem reserve_region_exact:
  assumes "frame_inv fa" "ram_start fa \<le> start" "start + sz \<le> ram_start fa + ram_size fa"
    and "start + PAGE_SIZE < USIZE_LIMIT"
  shows "\<exists>fb. reserve_region start sz fa = Some fb \<and> frame_inv fb \<and>
              free_addrs fb = {a \<in> free_addrs fa. \<not> (start \<le> a \<and> a + PAGE_SIZE \<le> start + sz)}"
proof -
  from reserve_region_inside [OF assms] obtain fb where fb: "reserve_region start sz fa = Some fb" "frame_inv fb"
      "same_window fa fb" "free_set fb = free_set fa -
         {i. start \<le> frame_addr fa i \<and> frame_addr fa i + PAGE_SIZE \<le> start + sz}" by blast
  have "free_addrs fb = {a \<in> free_addrs fa. \<not> (start \<le> a \<and> a + PAGE_SIZE \<le> start + sz)}"
    unfolding free_addrs_def fb(4) frame_addr_window [OF fb(3)] by blast
  with fb show ?thesis by blast
qed

theorem reserve_region_exact_witness:
  "\<exists>fa fb. init 0x40300000 0x40000000 0x20000000 new_zeroed = Some fa \<and>
     reserve_region 0x50000800 0x2000 fa = Some fb \<and> frame_inv fb \<and> 0x50001000 \<notin> free_addrs fb \<and>
     0x50002000 \<in> free_addrs fb"
proof -
  obtain fa where fa: "init 0x40300000 0x40000000 0x20000000 new_zeroed = Some fa" "frame_inv fa"
      "ram_start fa = 0x40000000" "ram_size fa = 0x20000000" "free_set fa = {768..<131072}"
    using boot_frames by blast
  from reserve_region_exact [OF fa(2), of "0x50000800" "0x2000"] obtain fb where fb:
      "reserve_region 0x50000800 0x2000 fa = Some fb" "frame_inv fb"
      "free_addrs fb = {a \<in> free_addrs fa. \<not> (0x50000800 \<le> a \<and> a + PAGE_SIZE \<le> 0x50000800 + 0x2000)}"
    by (auto simp: fa(3,4))
  have "frame_addr fa 65538 \<in> free_addrs fa" unfolding free_addrs_def by (rule imageI) (simp add: fa(5))
  with fa fb show ?thesis by (simp add: frame_addr_def)
qed

text \<open>
  C28.  A region that lies wholly outside the managed window is not clamped to nothing: if it covers
  a page, \<open>reserve_region\<close> empties the whole pool, because both end points fall back to the ends of
  the window.
\<close>

theorem reserve_region_outside_empties:
  assumes "frame_inv fa" "ram_start fa + ram_size fa \<le> start"
    and "page_aligned start" "page_aligned sz" "0 < sz" "start + PAGE_SIZE < USIZE_LIMIT" "start + sz < USIZE_LIMIT"
  shows "\<exists>fb. reserve_region start sz fa = Some fb \<and> free_addrs fb = {} \<and> alloc fb = Some (None, fb)"
proof -
  from assms(3) obtain j where j: "start = j * PAGE_SIZE" by (auto simp: page_aligned_def mult.commute)
  from assms(4) obtain k where k: "sz = k * PAGE_SIZE" by (auto simp: page_aligned_def mult.commute)
  have "page_down (start + PAGE_SIZE - 1) < page_down (start + sz)"
    using assms(5) by (simp add: page_down_def j k)
  with reserve_region_outside [of fa start sz] assms obtain fb where
      "reserve_region start sz fa = Some fb" "frame_inv fb" "free_set fb = {}" by auto
  moreover from this have "free_addrs fb = {}" by (simp add: free_addrs_def)
  ultimately show ?thesis using fp.take_none by blast
qed

theorem reserve_region_outside_empties_witness:
  "\<exists>fa fb. init 0x40300000 0x40000000 0x20000000 new_zeroed = Some fa \<and> free_addrs fa \<noteq> {} \<and>
     reserve_region 0x60000000 0x1000 fa = Some fb \<and> alloc fb = Some (None, fb)"
proof -
  obtain fa where fa: "init 0x40300000 0x40000000 0x20000000 new_zeroed = Some fa" "frame_inv fa"
      "ram_start fa = 0x40000000" "ram_size fa = 0x20000000" "free_set fa = {768..<131072}"
    using boot_frames by blast
  from reserve_region_outside_empties [OF fa(2), of "0x60000000" "0x1000"] fa show ?thesis
    by (auto simp: page_aligned_def free_addrs_def)
qed

end
