(* ===== verification/Page_Table.thy ===== *)
theory Page_Table
  imports Frame_Alloc
begin

text \<open>
  The four-level translation tables of \<^verbatim>\<open>kernel/src/mem/page_table.rs\<close>.  Physical memory is a
  function from a page's base address and a word index to the 64-bit word there: a table is a page,
  a descriptor a word.  The kernel reaches every page through its identity map, so a table pointer
  is the physical address.  \<open>None\<close> is a panic (a failed assertion, or running out of frames where the
  source calls \<^verbatim>\<open>expect\<close>).

  A level is counted by the number of levels below it: the root (L0 in the source) is 3, a table of
  page descriptors (L3) is 0.  The abstract view of an address space is \<open>leaf\<close>, the descriptor that
  ends the walk for an address, and \<open>tables\<close>, the list of the table pages of a tree.
\<close>

section \<open>Descriptors\<close>

definition DESC_VALID :: u64 where "DESC_VALID = push_bit 0 1"
definition DESC_TABLE :: u64 where "DESC_TABLE = push_bit 1 1"
definition DESC_PAGE :: u64 where "DESC_PAGE = push_bit 1 1"
definition DESC_AF :: u64 where "DESC_AF = push_bit 10 1"
definition DESC_SH_INNER :: u64 where "DESC_SH_INNER = push_bit 8 3"
definition DESC_AP_RW_EL1 :: u64 where "DESC_AP_RW_EL1 = push_bit 6 0"
definition DESC_AP_RO_EL1 :: u64 where "DESC_AP_RO_EL1 = push_bit 6 2"
definition DESC_AP_RW_EL0 :: u64 where "DESC_AP_RW_EL0 = push_bit 6 1"
definition DESC_UXN :: u64 where "DESC_UXN = push_bit 54 1"
definition DESC_PXN :: u64 where "DESC_PXN = push_bit 53 1"
definition ATTR_NORMAL :: u64 where "ATTR_NORMAL = push_bit 2 0"
definition ATTR_DEVICE :: u64 where "ATTR_DEVICE = push_bit 2 1"

definition FLAGS_KERNEL_RWX :: u64 where
  "FLAGS_KERNEL_RWX = DESC_VALID OR DESC_PAGE OR DESC_AF OR DESC_SH_INNER OR DESC_AP_RW_EL1 OR ATTR_NORMAL"

definition FLAGS_KERNEL_RO :: u64 where
  "FLAGS_KERNEL_RO = FLAGS_KERNEL_RWX OR DESC_PXN OR DESC_UXN"

definition FLAGS_DEVICE :: u64 where
  "FLAGS_DEVICE = DESC_VALID OR DESC_PAGE OR DESC_AF OR DESC_AP_RW_EL1 OR DESC_UXN OR DESC_PXN OR ATTR_DEVICE"

definition FLAGS_BLOCK_NORMAL :: u64 where
  "FLAGS_BLOCK_NORMAL = DESC_VALID OR DESC_AF OR DESC_SH_INNER OR DESC_AP_RW_EL1 OR ATTR_NORMAL"

definition FLAGS_BLOCK_DEVICE :: u64 where
  "FLAGS_BLOCK_DEVICE = DESC_VALID OR DESC_AF OR DESC_AP_RW_EL1 OR DESC_UXN OR DESC_PXN OR ATTR_DEVICE"

definition FLAGS_USER_RWX :: u64 where
  "FLAGS_USER_RWX = DESC_VALID OR DESC_PAGE OR DESC_AF OR DESC_SH_INNER OR DESC_AP_RW_EL0 OR ATTR_NORMAL"

definition FLAGS_USER_DEVICE :: u64 where
  "FLAGS_USER_DEVICE = DESC_VALID OR DESC_PAGE OR DESC_AF OR DESC_AP_RW_EL0 OR DESC_UXN OR DESC_PXN OR ATTR_DEVICE"

definition DESC_COW_TAG :: u64 where "DESC_COW_TAG = push_bit 11 1"

definition FLAGS_USER_COW :: u64 where
  "FLAGS_USER_COW = DESC_VALID OR DESC_PAGE OR DESC_AF OR DESC_SH_INNER OR push_bit 6 3 OR DESC_COW_TAG OR ATTR_NORMAL"

lemmas desc_defs = DESC_VALID_def DESC_TABLE_def DESC_PAGE_def DESC_AF_def DESC_SH_INNER_def
  DESC_AP_RW_EL1_def DESC_AP_RO_EL1_def DESC_AP_RW_EL0_def DESC_UXN_def DESC_PXN_def ATTR_NORMAL_def
  ATTR_DEVICE_def DESC_COW_TAG_def

lemmas flags_defs = FLAGS_KERNEL_RWX_def FLAGS_KERNEL_RO_def FLAGS_DEVICE_def FLAGS_BLOCK_NORMAL_def
  FLAGS_BLOCK_DEVICE_def FLAGS_USER_RWX_def FLAGS_USER_DEVICE_def FLAGS_USER_COW_def

abbreviation ADDR_MASK :: u64 where
  "ADDR_MASK \<equiv> 0x0000FFFFFFFFF000"

definition desc_addr :: "u64 \<Rightarrow> phys_addr" where
  "desc_addr e = unat (e AND ADDR_MASK)"

definition is_valid :: "u64 \<Rightarrow> bool" where
  "is_valid e \<longleftrightarrow> e AND DESC_VALID \<noteq> 0"

definition has_table_bit :: "u64 \<Rightarrow> bool" where
  "has_table_bit e \<longleftrightarrow> e AND DESC_TABLE \<noteq> 0"

section \<open>Memory and tables\<close>

record kmem =
  frames :: frame_allocator
  pages :: "phys_addr \<Rightarrow> nat \<Rightarrow> u64"
  kernel_l0 :: phys_addr
  zero_page :: phys_addr

definition entry :: "phys_addr \<Rightarrow> nat \<Rightarrow> kmem \<Rightarrow> u64" where
  "entry t i m = pages m t i"

definition set_entry :: "phys_addr \<Rightarrow> nat \<Rightarrow> u64 \<Rightarrow> kmem \<Rightarrow> kmem" where
  "set_entry t i v m = m\<lparr>pages := (pages m)(t := (pages m t)(i := v))\<rparr>"

definition zero :: "phys_addr \<Rightarrow> kmem \<Rightarrow> kmem" where
  "zero t m = fold (\<lambda>i. set_entry t i 0) [0..<512] m"

definition l0_idx :: "virt_addr \<Rightarrow> nat" where "l0_idx va = (va div 2 ^ 39) mod 512"
definition l1_idx :: "virt_addr \<Rightarrow> nat" where "l1_idx va = (va div 2 ^ 30) mod 512"
definition l2_idx :: "virt_addr \<Rightarrow> nat" where "l2_idx va = (va div 2 ^ 21) mod 512"
definition l3_idx :: "virt_addr \<Rightarrow> nat" where "l3_idx va = (va div 2 ^ 12) mod 512"

definition alloc_frame :: "kmem \<Rightarrow> (phys_addr option \<times> kmem) option" where
  "alloc_frame m = do { (r, fa) \<leftarrow> alloc (frames m); Some (r, m\<lparr>frames := fa\<rparr>) }"

definition free_frame :: "phys_addr \<Rightarrow> kmem \<Rightarrow> kmem option" where
  "free_frame a m = do { fa \<leftarrow> free a (frames m); Some (m\<lparr>frames := fa\<rparr>) }"

definition alloc_table :: "kmem \<Rightarrow> (phys_addr \<times> kmem) option" where
  "alloc_table m = do { (r, m) \<leftarrow> alloc_frame m; phys \<leftarrow> r; Some (phys, zero phys m) }"

definition ensure_table :: "phys_addr \<Rightarrow> nat \<Rightarrow> kmem \<Rightarrow> (phys_addr \<times> kmem) option" where
  "ensure_table t i m =
     (let e = entry t i m in
      if is_valid e then Some (desc_addr e, m)
      else do { (child, m) \<leftarrow> alloc_table m;
                Some (child, set_entry t i (of_nat child OR DESC_VALID OR DESC_TABLE) m) })"

definition map_page :: "virt_addr \<Rightarrow> phys_addr \<Rightarrow> u64 \<Rightarrow> kmem \<Rightarrow> kmem option" where
  "map_page va pa flags m =
     (if va mod PAGE_SIZE \<noteq> 0 \<or> pa mod PAGE_SIZE \<noteq> 0 then None
      else do { (l1, m) \<leftarrow> ensure_table (kernel_l0 m) (l0_idx va) m;
                (l2, m) \<leftarrow> ensure_table l1 (l1_idx va) m;
                let l2e = entry l2 (l2_idx va) m;
                if is_valid l2e \<and> \<not> has_table_bit l2e then Some m
                else do { (l3, m) \<leftarrow> ensure_table l2 (l2_idx va) m;
                          Some (set_entry l3 (l3_idx va) (of_nat pa OR flags OR DESC_PAGE) m) } })"

definition map_range :: "phys_addr \<Rightarrow> nat \<Rightarrow> u64 \<Rightarrow> kmem \<Rightarrow> kmem option" where
  "map_range pa sz flags m =
     foldm (\<lambda>i m. do { a \<leftarrow> uadd pa (i * PAGE_SIZE); map_page a a flags m })
       [0..<(sz + PAGE_SIZE - 1) div PAGE_SIZE] m"

abbreviation BLOCK_SIZE :: nat where
  "BLOCK_SIZE \<equiv> 2 * 1024 * 1024"

definition map_block :: "virt_addr \<Rightarrow> phys_addr \<Rightarrow> nat \<Rightarrow> u64 \<Rightarrow> kmem \<Rightarrow> kmem option" where
  "map_block va pa sz flags m =
     (if va mod BLOCK_SIZE \<noteq> 0 \<or> pa mod BLOCK_SIZE \<noteq> 0 then None
      else do { (l1, m) \<leftarrow> ensure_table (kernel_l0 m) (l0_idx va) m;
                (l2, m) \<leftarrow> ensure_table l1 (l1_idx va) m;
                foldm (\<lambda>j m. do { v \<leftarrow> uadd va (j * BLOCK_SIZE);
                                  p \<leftarrow> uadd pa (j * BLOCK_SIZE);
                                  Some (set_entry l2 (l2_idx v) (of_nat p OR flags) m) })
                  [0..<(sz + BLOCK_SIZE - 1) div BLOCK_SIZE] m })"

definition alloc_table_frame :: "kmem \<Rightarrow> (phys_addr \<times> kmem) option" where
  "alloc_table_frame m =
     do { (r, m) \<leftarrow> alloc_frame m;
          phys \<leftarrow> r;
          fa \<leftarrow> reserve_region phys PAGE_SIZE (frames m);
          Some (phys, m\<lparr>frames := fa\<rparr>) }"

primrec clone_level :: "nat \<Rightarrow> phys_addr \<Rightarrow> kmem \<Rightarrow> (phys_addr \<times> kmem) option" where
  "clone_level 0 src m =
     do { (dst, m) \<leftarrow> alloc_table_frame m;
          m \<leftarrow> foldm (\<lambda>i m. Some (set_entry dst i (entry src i m) m)) [0..<512] m;
          Some (dst, m) }"
| "clone_level (Suc k) src m =
     do { (dst, m) \<leftarrow> alloc_table_frame m;
          m \<leftarrow> foldm (\<lambda>i m. let e = entry src i m in
                 if is_valid e \<and> has_table_bit e then
                   do { (child, m) \<leftarrow> clone_level k (desc_addr e) m;
                        Some (set_entry dst i (of_nat child OR DESC_VALID OR DESC_TABLE) m) }
                 else Some (set_entry dst i e m)) [0..<512] m;
          Some (dst, m) }"

definition clone_kernel_table :: "kmem \<Rightarrow> (phys_addr \<times> kmem) option" where
  "clone_kernel_table m = clone_level 3 (kernel_l0 m) m"

definition split_block :: "phys_addr \<Rightarrow> virt_addr \<Rightarrow> kmem \<Rightarrow> kmem option" where
  "split_block l2 cur m =
     (let l2e = entry l2 (l2_idx cur) m in
      if is_valid l2e \<and> \<not> has_table_bit l2e then
        do { (l3, m) \<leftarrow> alloc_table_frame m;
             let block_base = BLOCK_SIZE * (cur div BLOCK_SIZE);
             let fill_flags = (l2e AND (0xFFF OR DESC_UXN OR DESC_PXN)) OR DESC_PAGE;
             m \<leftarrow> foldm (\<lambda>i m. do { a \<leftarrow> uadd block_base (i * PAGE_SIZE);
                                    Some (set_entry l3 i (of_nat a OR fill_flags) m) }) [0..<512] m;
             Some (set_entry l2 (l2_idx cur) (of_nat l3 OR DESC_VALID OR DESC_TABLE) m) }
      else Some m)"

definition map_user_pages :: "phys_addr \<Rightarrow> virt_addr \<Rightarrow> nat \<Rightarrow> u64 \<Rightarrow> kmem \<Rightarrow> kmem option" where
  "map_user_pages root va sz flags m =
     (if va mod PAGE_SIZE \<noteq> 0 \<or> sz mod PAGE_SIZE \<noteq> 0 then None
      else do { (l1, m) \<leftarrow> ensure_table root (l0_idx va) m;
                (l2, m) \<leftarrow> ensure_table l1 (l1_idx va) m;
                foldm (\<lambda>j m. do { cur \<leftarrow> uadd va (j * PAGE_SIZE);
                                  m \<leftarrow> split_block l2 cur m;
                                  (l3, m) \<leftarrow> ensure_table l2 (l2_idx cur) m;
                                  Some (set_entry l3 (l3_idx cur) (of_nat cur OR flags) m) })
                  [0..<sz div PAGE_SIZE] m })"

definition map_user_frame :: "phys_addr \<Rightarrow> virt_addr \<Rightarrow> phys_addr \<Rightarrow> u64 \<Rightarrow> kmem \<Rightarrow> kmem option" where
  "map_user_frame root va pa flags m =
     (if va mod PAGE_SIZE \<noteq> 0 \<or> pa mod PAGE_SIZE \<noteq> 0 then None
      else do { (l1, m) \<leftarrow> ensure_table root (l0_idx va) m;
                (l2, m) \<leftarrow> ensure_table l1 (l1_idx va) m;
                (l3, m) \<leftarrow> ensure_table l2 (l2_idx va) m;
                Some (set_entry l3 (l3_idx va) (of_nat pa OR flags) m) })"

definition read_user_page :: "phys_addr \<Rightarrow> virt_addr \<Rightarrow> kmem \<Rightarrow> u64" where
  "read_user_page root va m =
     (let l0e = entry root (l0_idx va) m in
      if \<not> is_valid l0e then 0
      else let l1e = entry (desc_addr l0e) (l1_idx va) m in
      if \<not> is_valid l1e then 0
      else let l2e = entry (desc_addr l1e) (l2_idx va) m in
      if \<not> is_valid l2e \<or> \<not> has_table_bit l2e then 0
      else entry (desc_addr l2e) (l3_idx va) m)"

definition write_user_page :: "phys_addr \<Rightarrow> virt_addr \<Rightarrow> u64 \<Rightarrow> kmem \<Rightarrow> kmem" where
  "write_user_page root va e m =
     (let l1 = desc_addr (entry root (l0_idx va) m);
          l2 = desc_addr (entry l1 (l1_idx va) m);
          l3 = desc_addr (entry l2 (l2_idx va) m) in
      set_entry l3 (l3_idx va) e m)"

definition set_user_block :: "phys_addr \<Rightarrow> virt_addr \<Rightarrow> u64 \<Rightarrow> kmem \<Rightarrow> kmem option" where
  "set_user_block root va flags m =
     (if va mod BLOCK_SIZE \<noteq> 0 then None
      else do { (l1, m) \<leftarrow> ensure_table root (l0_idx va) m;
                (l2, m) \<leftarrow> ensure_table l1 (l1_idx va) m;
                let e = entry l2 (l2_idx va) m;
                if is_valid e \<and> \<not> has_table_bit e
                then Some (set_entry l2 (l2_idx va) ((e AND ADDR_MASK) OR flags) m) else None })"

primrec free_walk :: "nat \<Rightarrow> phys_addr \<Rightarrow> kmem \<Rightarrow> kmem option" where
  "free_walk 0 t m = free_frame t m"
| "free_walk (Suc k) t m =
     do { m \<leftarrow> foldm (\<lambda>i m. let e = entry t i m in
            if is_valid e \<and> has_table_bit e then free_walk k (desc_addr e) m else Some m) [0..<512] m;
          free_frame t m }"

definition free_task_tables :: "phys_addr \<Rightarrow> kmem \<Rightarrow> kmem option" where
  "free_task_tables root m = (if root = kernel_l0 m then None else free_walk 3 root m)"

section \<open>The abstract view\<close>

abbreviation is_table :: "u64 \<Rightarrow> bool" where
  "is_table e \<equiv> is_valid e \<and> has_table_bit e"

definition level_idx :: "nat \<Rightarrow> virt_addr \<Rightarrow> nat" where
  "level_idx k va = (va div 2 ^ (12 + 9 * k)) mod 512"

primrec leaf :: "nat \<Rightarrow> (phys_addr \<Rightarrow> nat \<Rightarrow> u64) \<Rightarrow> phys_addr \<Rightarrow> virt_addr \<Rightarrow> nat \<times> u64" where
  "leaf 0 pg t va = (0, pg t (level_idx 0 va))"
| "leaf (Suc k) pg t va =
     (let e = pg t (level_idx (Suc k) va) in if is_table e then leaf k pg (desc_addr e) va else (Suc k, e))"

primrec tables :: "nat \<Rightarrow> (phys_addr \<Rightarrow> nat \<Rightarrow> u64) \<Rightarrow> phys_addr \<Rightarrow> phys_addr list" where
  "tables 0 pg t = [t]"
| "tables (Suc k) pg t =
     t # concat (map (\<lambda>i. if is_table (pg t i) then tables k pg (desc_addr (pg t i)) else []) [0..<512])"

text \<open>The tables below one entry of a table, and below the first \<open>n\<close> entries.\<close>

definition subtables :: "nat \<Rightarrow> (phys_addr \<Rightarrow> nat \<Rightarrow> u64) \<Rightarrow> u64 \<Rightarrow> phys_addr list" where
  "subtables k pg e = (if is_table e then tables k pg (desc_addr e) else [])"

definition subtables_upto :: "nat \<Rightarrow> (phys_addr \<Rightarrow> nat \<Rightarrow> u64) \<Rightarrow> phys_addr \<Rightarrow> nat \<Rightarrow> phys_addr list" where
  "subtables_upto k pg t n = concat (map (\<lambda>i. subtables k pg (pg t i)) [0..<n])"

definition subleaf :: "nat \<Rightarrow> (phys_addr \<Rightarrow> nat \<Rightarrow> u64) \<Rightarrow> u64 \<Rightarrow> virt_addr \<Rightarrow> nat \<times> u64" where
  "subleaf k pg e va = (if is_table e then leaf k pg (desc_addr e) va else (Suc k, e))"

definition avail :: "kmem \<Rightarrow> phys_addr set" where
  "avail m = free_addrs (frames m)"

definition managed :: "kmem \<Rightarrow> phys_addr set" where
  "managed m = frame_addrs (frames m)"

definition kmem_ok :: "kmem \<Rightarrow> bool" where
  "kmem_ok m \<longleftrightarrow> frame_inv (frames m) \<and> managed m \<subseteq> {..<2 ^ 48}"

text \<open>\<open>taken X m m'\<close>: from \<open>m\<close> to \<open>m'\<close> exactly the frames \<open>X\<close> left the pool; nothing is said of page contents.\<close>

definition taken :: "phys_addr set \<Rightarrow> kmem \<Rightarrow> kmem \<Rightarrow> bool" where
  "taken X m m' \<longleftrightarrow> kmem_ok m' \<and> X \<subseteq> avail m \<and> avail m' = avail m - X \<and> managed m' = managed m \<and>
     kernel_l0 m' = kernel_l0 m \<and> zero_page m' = zero_page m"

text \<open>
  What the hardware makes of a walk: the physical address and the attribute bits, for a valid block
  or page descriptor.
\<close>

abbreviation ATTR_MASK :: u64 where
  "ATTR_MASK \<equiv> 0xFFF OR DESC_UXN OR DESC_PXN"

definition xlate :: "nat \<Rightarrow> (phys_addr \<Rightarrow> nat \<Rightarrow> u64) \<Rightarrow> phys_addr \<Rightarrow> virt_addr \<Rightarrow> (phys_addr \<times> u64) option" where
  "xlate k pg t va =
     (case leaf k pg t va of (l, e) \<Rightarrow>
        if is_valid e \<and> (l = 0 \<longrightarrow> has_table_bit e)
        then Some (desc_addr e + va mod 2 ^ (12 + 9 * l), (e AND ATTR_MASK) AND NOT DESC_TABLE) else None)"

text \<open>A tree that owns its tables, and a change of it that leaves every address outside \<open>A\<close> alone.\<close>

definition tree_ok :: "nat \<Rightarrow> phys_addr \<Rightarrow> kmem \<Rightarrow> bool" where
  "tree_ok k t m \<longleftrightarrow> kmem_ok m \<and> distinct (tables k (pages m) t) \<and> set (tables k (pages m) t) \<inter> avail m = {}"

definition tree_upd :: "nat \<Rightarrow> phys_addr \<Rightarrow> nat \<Rightarrow> virt_addr set \<Rightarrow> kmem \<Rightarrow> kmem \<Rightarrow> bool" where
  "tree_upd k t n A m m' \<longleftrightarrow>
     (\<exists>X. taken X m m' \<and> card X \<le> n \<and> set (tables k (pages m') t) = set (tables k (pages m) t) \<union> X \<and>
        distinct (tables k (pages m') t) \<and>
        (\<forall>p. p \<notin> set (tables k (pages m) t) \<union> X \<longrightarrow> pages m' p = pages m p) \<and>
        (\<forall>va. va \<notin> A \<longrightarrow> xlate k (pages m') t va = xlate k (pages m) t va))"

text \<open>Walking down to the page descriptor of an address, creating tables on the way, and writing it.\<close>

primrec map_at :: "nat \<Rightarrow> phys_addr \<Rightarrow> virt_addr \<Rightarrow> u64 \<Rightarrow> kmem \<Rightarrow> kmem option" where
  "map_at 0 t va v m = Some (set_entry t (level_idx 0 va) v m)"
| "map_at (Suc k) t va v m = do { (c, m) \<leftarrow> ensure_table t (level_idx (Suc k) va) m; map_at k c va v m }"

definition same_page :: "nat \<Rightarrow> virt_addr \<Rightarrow> virt_addr set" where
  "same_page k va = {va'. \<forall>j \<le> k. level_idx j va' = level_idx j va}"

definition open_at :: "nat \<Rightarrow> (phys_addr \<Rightarrow> nat \<Rightarrow> u64) \<Rightarrow> phys_addr \<Rightarrow> virt_addr \<Rightarrow> bool" where
  "open_at k pg t va \<longleftrightarrow> fst (leaf k pg t va) = 0 \<or> \<not> is_valid (snd (leaf k pg t va))"

text \<open>
  A concrete boot state for the closed instances: the allocator after \<open>init\<close> on 512 MiB of DRAM at
  1 GiB, and a kernel table whose root, L1 and L2 tables lie in the kernel image and map that DRAM by
  2 MiB identity blocks.
\<close>

definition boot_pages :: "phys_addr \<Rightarrow> nat \<Rightarrow> u64" where
  "boot_pages p i =
     (if p = 0x40100000 \<and> i = 0 then of_nat 0x40101000 OR DESC_VALID OR DESC_TABLE
      else if p = 0x40101000 \<and> i = 1 then of_nat 0x40102000 OR DESC_VALID OR DESC_TABLE
      else if p = 0x40102000 \<and> i < 256 then of_nat (0x40000000 + i * BLOCK_SIZE) OR FLAGS_BLOCK_NORMAL
      else 0)"

definition boot_kmem :: "frame_allocator \<Rightarrow> kmem" where
  "boot_kmem fa = \<lparr>frames = fa, pages = boot_pages, kernel_l0 = 0x40100000, zero_page = 0x40103000\<rparr>"

text \<open>A copied tree, and the loop invariant of the copy after \<open>n\<close> entries.\<close>

definition cloned :: "nat \<Rightarrow> phys_addr \<Rightarrow> kmem \<Rightarrow> phys_addr \<Rightarrow> kmem \<Rightarrow> bool" where
  "cloned k src m dst m' \<longleftrightarrow>
     taken (set (tables k (pages m') dst)) m m' \<and> distinct (tables k (pages m') dst) \<and>
     length (tables k (pages m') dst) = length (tables k (pages m) src) \<and>
     (\<forall>p. p \<notin> set (tables k (pages m') dst) \<longrightarrow> pages m' p = pages m p) \<and>
     (\<forall>va. leaf k (pages m') dst va = leaf k (pages m) src va)"

definition clone_inv :: "nat \<Rightarrow> phys_addr \<Rightarrow> phys_addr \<Rightarrow> kmem \<Rightarrow> nat \<Rightarrow> kmem \<Rightarrow> bool" where
  "clone_inv k src dst m0 n m \<longleftrightarrow>
     taken (insert dst (set (subtables_upto k (pages m) dst n))) m0 m \<and>
     distinct (dst # subtables_upto k (pages m) dst n) \<and>
     length (subtables_upto k (pages m) dst n) = length (subtables_upto k (pages m0) src n) \<and>
     (\<forall>p. p \<noteq> dst \<and> p \<notin> set (subtables_upto k (pages m) dst n) \<longrightarrow> pages m p = pages m0 p) \<and>
     (\<forall>i < n. \<forall>va. subleaf k (pages m) (pages m dst i) va = subleaf k (pages m0) (pages m0 src i) va)"

section \<open>Descriptor and index lemmas\<close>

lemma is_valid_bit: "is_valid e = bit e 0"
  unfolding is_valid_def DESC_VALID_def by (simp only: test_bit_word not_not)

lemma has_table_bit_bit: "has_table_bit e = bit e 1"
  unfolding has_table_bit_def DESC_TABLE_def by (simp only: test_bit_word not_not)

lemma addr_mask_bit: "bit ADDR_MASK n \<longleftrightarrow> 12 \<le> n \<and> n < 48"
proof -
  have "ADDR_MASK = push_bit 12 (mask 36)" by (simp add: mask_eq_exp_minus_1 push_bit_eq_mult)
  then have "bit ADDR_MASK n = bit (push_bit 12 (mask 36 :: u64)) n" by (simp only:)
  also have "\<dots> \<longleftrightarrow> 12 \<le> n \<and> n < 48" by (auto simp: bit_push_bit_iff bit_mask_iff)
  finally show ?thesis .
qed

lemma nat_bit_lt: "a < 2 ^ n \<Longrightarrow> bit a k \<Longrightarrow> k < n" for a :: nat
proof (rule ccontr)
  assume a: "a < 2 ^ n" "bit a k" "\<not> k < n"
  then have "a < 2 ^ k" by (meson less_le_trans not_less one_le_numeral power_increasing)
  with a(2) show False by (simp add: bit_iff_odd)
qed

lemma page_aligned_bit: "page_aligned a \<Longrightarrow> bit a k \<Longrightarrow> 12 \<le> k"
proof (rule ccontr)
  assume a: "page_aligned a" "bit a k" "\<not> 12 \<le> k"
  have "take_bit 12 a = 0" using a(1) by (simp add: page_aligned_def take_bit_eq_mod)
  then have "\<not> bit (take_bit 12 a) k" by simp
  with a show False by (simp add: bit_take_bit_iff)
qed

lemma desc_addr_or:
  assumes "page_aligned a" "a < 2 ^ 48" "f AND ADDR_MASK = 0"
  shows "desc_addr (of_nat a OR f) = a"
proof -
  have "(of_nat a OR f) AND ADDR_MASK = (of_nat a :: u64)"
  proof (rule bit_word_eqI)
    fix n assume n: "n < LENGTH(64)"
    have "\<not> bit (f AND ADDR_MASK) n" using assms(3) by simp
    then show "bit ((of_nat a OR f) AND ADDR_MASK) n = bit (of_nat a :: u64) n"
      using n nat_bit_lt [OF assms(2)] page_aligned_bit [OF assms(1)]
      by (auto simp: bit_and_iff bit_or_iff addr_mask_bit bit_of_nat_iff simp del: bit_numeral_word_iff)
  qed
  then show ?thesis using assms(2) by (simp add: desc_addr_def unsigned_of_nat take_bit_nat_eq_self_iff)
qed

lemma desc_addr_lt: "desc_addr e < 2 ^ 48"
proof -
  have "e AND ADDR_MASK \<le> ADDR_MASK" by (rule word_and_le1)
  then have "unat (e AND ADDR_MASK) \<le> unat ADDR_MASK" by (simp only: word_le_nat_alt)
  then show ?thesis unfolding desc_addr_def by (rule le_less_trans) simp
qed

lemma or_bit_low: "page_aligned a \<Longrightarrow> k < 12 \<Longrightarrow> bit (of_nat a OR f :: u64) k = bit f k"
  using page_aligned_bit [of a k] by (auto simp: bit_or_iff bit_of_nat_iff)

lemma table_desc [simp]:
  assumes "page_aligned a" "a < 2 ^ 48"
  shows "desc_addr (of_nat a OR DESC_VALID OR DESC_TABLE) = a"
    and "is_valid (of_nat a OR DESC_VALID OR DESC_TABLE)"
    and "has_table_bit (of_nat a OR DESC_VALID OR DESC_TABLE)"
proof -
  have f: "of_nat a OR DESC_VALID OR DESC_TABLE = (of_nat a OR 3 :: u64)"
    by (simp add: desc_defs)
  show "desc_addr (of_nat a OR DESC_VALID OR DESC_TABLE) = a"
    unfolding f by (rule desc_addr_or [OF assms]) simp
  show "is_valid (of_nat a OR DESC_VALID OR DESC_TABLE)" "has_table_bit (of_nat a OR DESC_VALID OR DESC_TABLE)"
    unfolding f is_valid_bit has_table_bit_bit using or_bit_low [OF assms(1), of _ 3] by simp_all
qed

lemma level_idx_lt [simp]: "level_idx k va < 512"
  by (simp add: level_idx_def)

lemma idx_level: "l3_idx = level_idx 0" "l2_idx = level_idx 1" "l1_idx = level_idx 2" "l0_idx = level_idx 3"
  by (simp_all add: fun_eq_iff level_idx_def l0_idx_def l1_idx_def l2_idx_def l3_idx_def)

section \<open>Memory lemmas\<close>

lemma set_entry_sel [simp]:
  "frames (set_entry t i v m) = frames m" "kernel_l0 (set_entry t i v m) = kernel_l0 m"
  "zero_page (set_entry t i v m) = zero_page m"
  "pages (set_entry t i v m) = (pages m)(t := (pages m t)(i := v))"
  by (simp_all add: set_entry_def)

lemma fold_zero:
  "frames (fold (\<lambda>i. set_entry t i 0) xs m) = frames m \<and> kernel_l0 (fold (\<lambda>i. set_entry t i 0) xs m) = kernel_l0 m \<and>
   zero_page (fold (\<lambda>i. set_entry t i 0) xs m) = zero_page m \<and>
   pages (fold (\<lambda>i. set_entry t i 0) xs m) = (pages m)(t := (\<lambda>i. if i \<in> set xs then 0 else pages m t i))"
  by (induction xs arbitrary: m) (auto simp: fun_eq_iff)

lemma zero_sel [simp]:
  "frames (zero t m) = frames m" "kernel_l0 (zero t m) = kernel_l0 m" "zero_page (zero t m) = zero_page m"
  "pages (zero t m) = (pages m)(t := (\<lambda>i. if i < 512 then 0 else pages m t i))"
  using fold_zero [of t "[0..<512]" m] by (simp_all add: zero_def)

lemma kmem_ok_set_entry [simp]: "kmem_ok (set_entry t i v m) = kmem_ok m"
  "avail (set_entry t i v m) = avail m" "managed (set_entry t i v m) = managed m"
  by (simp_all add: kmem_ok_def avail_def managed_def)

lemma taken_set_entry [simp]: "taken X m (set_entry t i v m') = taken X m m'"
  by (simp add: taken_def)

lemma managed_props:
  assumes "kmem_ok m" "a \<in> managed m"
  shows "page_aligned a" "a < 2 ^ 48"
  using frame_addrs_aligned [of "frames m" a] assms by (auto simp: kmem_ok_def managed_def)

lemma avail_props:
  assumes "kmem_ok m" "a \<in> avail m"
  shows "page_aligned a" "a < 2 ^ 48" "a \<in> managed m"
proof -
  show "a \<in> managed m" using assms(2) fp.avail_managed [of "frames m"] by (auto simp: avail_def managed_def)
  with assms(1) show "page_aligned a" "a < 2 ^ 48" by (rule managed_props)+
qed

lemma taken_trans: "taken X m1 m2 \<Longrightarrow> taken Y m2 m3 \<Longrightarrow> taken (X \<union> Y) m1 m3"
  by (auto simp: taken_def)

lemma taken_refl [simp]: "taken {} m m = kmem_ok m"
  by (auto simp: taken_def)

lemma alloc_frame_ok:
  assumes "kmem_ok m" "avail m \<noteq> {}"
  shows "\<exists>c m'. alloc_frame m = Some (Some c, m') \<and> taken {c} m m' \<and> pages m' = pages m"
proof -
  from assms fp.take_some [of "frames m"] obtain c fa where c: "alloc (frames m) = Some (Some c, fa)"
      "c \<in> free_addrs (frames m)" "frame_inv fa" "free_addrs fa = free_addrs (frames m) - {c}"
      "frame_addrs fa = frame_addrs (frames m)"
    by (auto simp: kmem_ok_def avail_def)
  have "alloc_frame m = Some (Some c, m\<lparr>frames := fa\<rparr>)" by (simp add: alloc_frame_def c(1))
  moreover have "taken {c} m (m\<lparr>frames := fa\<rparr>)"
    using assms c by (auto simp: taken_def kmem_ok_def avail_def managed_def)
  ultimately show ?thesis by auto
qed

lemma alloc_frame_none: "kmem_ok m \<Longrightarrow> avail m = {} \<Longrightarrow> alloc_frame m = Some (None, m)"
  using fp.take_none [of "frames m"] by (simp add: alloc_frame_def kmem_ok_def avail_def)

lemma free_frame_ok:
  assumes "kmem_ok m" "a \<in> managed m"
  shows "\<exists>m'. free_frame a m = Some m' \<and> kmem_ok m' \<and> avail m' = insert a (avail m) \<and> managed m' = managed m \<and>
              pages m' = pages m \<and> kernel_l0 m' = kernel_l0 m \<and> zero_page m' = zero_page m"
  using fp.give_ok [of "frames m" a] assms by (auto simp: free_frame_def kmem_ok_def avail_def managed_def)

interpretation km: frame_provider alloc_frame free_frame avail managed kmem_ok
proof unfold_locales
  show "kmem_ok m \<Longrightarrow> avail m \<noteq> {} \<Longrightarrow> \<exists>a m'. alloc_frame m = Some (Some a, m') \<and> a \<in> avail m \<and> kmem_ok m' \<and>
      avail m' = avail m - {a} \<and> managed m' = managed m" for m
    using alloc_frame_ok [of m] by (auto simp: taken_def)
  show "kmem_ok m \<Longrightarrow> a \<in> managed m \<Longrightarrow> \<exists>m'. free_frame a m = Some m' \<and> kmem_ok m' \<and>
      avail m' = insert a (avail m) \<and> managed m' = managed m" for m a
    using free_frame_ok [of m a] by blast
  show "avail m \<subseteq> managed m" for m using fp.avail_managed by (simp add: avail_def managed_def)
  show "finite (avail m)" for m using fp.finite_avail by (simp add: avail_def)
qed (use alloc_frame_none managed_props in auto)

lemma reserve_frame:
  assumes inv: "frame_inv fa" and c: "c \<in> frame_addrs fa" "c < 2 ^ 48"
  shows "\<exists>fb. reserve_region c PAGE_SIZE fa = Some fb \<and> frame_inv fb \<and> free_addrs fb = free_addrs fa - {c} \<and>
              frame_addrs fb = frame_addrs fa"
proof -
  from frame_addrs_aligned [OF inv c(1)] c(2)
  have "ram_start fa \<le> c" "c + PAGE_SIZE \<le> ram_start fa + ram_size fa" "c + PAGE_SIZE < USIZE_LIMIT" by auto
  from reserve_region_inside [OF inv this] obtain fb where fb: "reserve_region c PAGE_SIZE fa = Some fb" "frame_inv fb"
      "same_window fa fb" "free_set fb = free_set fa - {i. c \<le> frame_addr fa i \<and> frame_addr fa i + PAGE_SIZE \<le> c + PAGE_SIZE}"
    by blast
  from c(1) have "frame_addr fa ` {i. c \<le> frame_addr fa i \<and> frame_addr fa i + PAGE_SIZE \<le> c + PAGE_SIZE} = {c}"
    by (auto simp: frame_addrs_def)
  with free_addrs_diff [OF fb(3,4)] have "free_addrs fb = free_addrs fa - {c}" by simp
  with fb frame_addrs_window [OF fb(3)] show ?thesis by blast
qed

lemma alloc_table_frame_ok:
  assumes "kmem_ok m" "avail m \<noteq> {}"
  shows "\<exists>c m'. alloc_table_frame m = Some (c, m') \<and> taken {c} m m' \<and> pages m' = pages m"
proof -
  from alloc_frame_ok [OF assms] obtain c m1 where c: "alloc_frame m = Some (Some c, m1)" "taken {c} m m1"
      "pages m1 = pages m" by blast
  then have "kmem_ok m1" "c \<in> managed m1" using avail_props(3) [OF assms(1), of c] by (auto simp: taken_def)
  then obtain fa where fa: "reserve_region c PAGE_SIZE (frames m1) = Some fa" "frame_inv fa"
      "free_addrs fa = free_addrs (frames m1) - {c}" "frame_addrs fa = frame_addrs (frames m1)"
    using reserve_frame [of "frames m1" c] managed_props(2) [of m1 c] by (auto simp: kmem_ok_def managed_def)
  have "alloc_table_frame m = Some (c, m1\<lparr>frames := fa\<rparr>)" by (simp add: alloc_table_frame_def c fa)
  moreover have "taken {c} m (m1\<lparr>frames := fa\<rparr>)"
    using c(2) fa by (auto simp: taken_def kmem_ok_def avail_def managed_def)
  ultimately show ?thesis using c(3) by auto
qed

lemma alloc_table_ok:
  assumes "kmem_ok m" "avail m \<noteq> {}"
  shows "\<exists>c m'. alloc_table m = Some (c, m') \<and> taken {c} m m' \<and>
                pages m' = (pages m)(c := (\<lambda>i. if i < 512 then 0 else pages m c i))"
proof -
  from alloc_frame_ok [OF assms] obtain c m1 where c: "alloc_frame m = Some (Some c, m1)" "taken {c} m m1"
      "pages m1 = pages m" by blast
  then have "alloc_table m = Some (c, zero c m1)" by (simp add: alloc_table_def)
  moreover have "taken {c} m (zero c m1)" using c(2) by (auto simp: taken_def kmem_ok_def avail_def managed_def)
  ultimately show ?thesis unfolding c(3) [symmetric] using zero_sel(4) [of c m1] by blast
qed

section \<open>Trees of tables\<close>

lemma tables_Suc: "tables (Suc k) pg t = t # subtables_upto k pg t 512"
  by (simp add: subtables_upto_def subtables_def)

lemma leaf_Suc: "leaf (Suc k) pg t va = subleaf k pg (pg t (level_idx (Suc k) va)) va"
  by (simp add: subleaf_def Let_def)

declare tables.simps(2) [simp del] leaf.simps(2) [simp del]

lemma subtables_upto_simps [simp]:
  "subtables_upto k pg t 0 = []"
  "subtables_upto k pg t (Suc n) = subtables_upto k pg t n @ subtables k pg (pg t n)"
  by (simp_all add: subtables_upto_def)

lemma subtables_upto_set: "p \<in> set (subtables_upto k pg t n) \<longleftrightarrow> (\<exists>i < n. p \<in> set (subtables k pg (pg t i)))"
  by (auto simp: subtables_upto_def)

lemma subtables_upto_mono_length:
  "n < N \<Longrightarrow> length (subtables_upto k pg t n) + length (subtables k pg (pg t n)) \<le> length (subtables_upto k pg t N)"
proof (induction N)
  case (Suc N)
  then show ?case by (cases "n = N") auto
qed simp

lemma tables_root [simp]: "t \<in> set (tables k pg t)"
  by (cases k) (auto simp: tables_Suc)

lemma tables_subtables: "i < 512 \<Longrightarrow> set (subtables k pg (pg t i)) \<subseteq> set (tables (Suc k) pg t)"
  by (auto simp: tables_Suc subtables_upto_set)

lemma tables_cong: "(\<And>p. p \<in> set (tables k pg t) \<Longrightarrow> pg' p = pg p) \<Longrightarrow> tables k pg' t = tables k pg t"
proof (induction k arbitrary: t)
  case (Suc k)
  have t: "pg' t = pg t" using Suc.prems by simp
  have "subtables k pg' (pg t i) = subtables k pg (pg t i)" if "i < 512" for i
    using Suc.prems tables_subtables [OF that, of k pg t] by (auto simp: subtables_def intro!: Suc.IH)
  then show ?case by (auto simp: tables_Suc subtables_upto_def t intro!: arg_cong [where f = concat])
qed simp

lemma subtables_cong:
  "(\<And>p. p \<in> set (subtables k pg e) \<Longrightarrow> pg' p = pg p) \<Longrightarrow> subtables k pg' e = subtables k pg e"
  by (auto simp: subtables_def intro!: tables_cong)

lemma subtables_upto_cong:
  assumes "\<And>p. p \<in> set (subtables_upto k pg t n) \<Longrightarrow> pg' p = pg p" and "\<And>i. i < n \<Longrightarrow> pg' t i = pg t i"
  shows "subtables_upto k pg' t n = subtables_upto k pg t n"
proof -
  have "subtables k pg' (pg' t i) = subtables k pg (pg t i)" if "i < n" for i
    unfolding assms(2) [OF that] using assms(1) that by (intro subtables_cong) (auto simp: subtables_upto_set)
  then show ?thesis by (auto simp: subtables_upto_def intro!: arg_cong [where f = concat])
qed

lemma leaf_cong: "(\<And>p. p \<in> set (tables k pg t) \<Longrightarrow> pg' p = pg p) \<Longrightarrow> leaf k pg' t va = leaf k pg t va"
proof (induction k arbitrary: t)
  case (Suc k)
  have t: "pg' t = pg t" using Suc.prems by simp
  show ?case using Suc.prems tables_subtables [of "level_idx (Suc k) va" k pg t]
    by (auto simp: leaf_Suc subleaf_def t subtables_def intro!: Suc.IH split: if_splits)
qed simp

lemma leaf_block: "\<not> is_table (pg t (level_idx (Suc k) va)) \<Longrightarrow> leaf (Suc k) pg t va = (Suc k, pg t (level_idx (Suc k) va))"
  unfolding leaf_Suc subleaf_def by (rule if_not_P)

lemma leaf_table: "is_table (pg t (level_idx (Suc k) va)) \<Longrightarrow>
    leaf (Suc k) pg t va = leaf k pg (desc_addr (pg t (level_idx (Suc k) va))) va"
  unfolding leaf_Suc subleaf_def by (rule if_P)

lemma subleaf_cong:
  "(\<And>p. p \<in> set (subtables k pg e) \<Longrightarrow> pg' p = pg p) \<Longrightarrow> subleaf k pg' e va = subleaf k pg e va"
  by (auto simp: subleaf_def subtables_def intro!: leaf_cong split: if_splits)

section \<open>Copying and releasing a tree\<close>

declare upt_rec_numeral [simp del]

lemma clone_inv_step:
  assumes inv: "clone_inv k src dst m0 n m" and m2: "taken (set C) m m2" "distinct C"
    and frame: "\<And>p. p \<notin> set C \<Longrightarrow> pages m2 p = pages m p"
    and v: "subtables k (pages m2) v = C" "length C = length (subtables k (pages m0) (pages m0 src n))"
    and leaf: "\<And>va. subleaf k (pages m2) v va = subleaf k (pages m0) (pages m0 src n) va"
  shows "clone_inv k src dst m0 (Suc n) (set_entry dst n v m2)"
proof -
  let ?m3 = "set_entry dst n v m2" and ?U = "subtables_upto k (pages m) dst n"
  from inv have tk: "taken (insert dst (set ?U)) m0 m" and d: "distinct (dst # ?U)" by (simp_all add: clone_inv_def)
  have new: "set C \<inter> insert dst (set ?U) = {}" using tk m2(1) by (auto simp: taken_def)
  have p3: "pages ?m3 p = pages m p" if "p \<notin> set C" "p \<noteq> dst" for p using that frame by simp
  have d3: "pages ?m3 dst i = pages m dst i" if "i < n" for i using that new frame by simp
  have U3: "subtables_upto k (pages ?m3) dst n = ?U"
    by (rule subtables_upto_cong) (use new d p3 d3 in auto)
  have C3: "subtables k (pages ?m3) v = C"
    using v(1) new by (subst subtables_cong [of k "pages m2"]) auto
  have l3: "subleaf k (pages ?m3) v va = subleaf k (pages m2) v va" for va
    by (rule subleaf_cong) (use v(1) new in auto)
  have L3: "subleaf k (pages ?m3) (pages ?m3 dst i) va = subleaf k (pages m) (pages m dst i) va" if "i < n" for i va
  proof -
    have "set (subtables k (pages m) (pages m dst i)) \<subseteq> set ?U" using that by (auto simp: subtables_upto_set)
    then have "\<And>p. p \<in> set (subtables k (pages m) (pages m dst i)) \<Longrightarrow> pages ?m3 p = pages m p"
      using p3 new d by (metis disjoint_iff distinct.simps(2) insertCI subsetD)
    then show ?thesis unfolding d3 [OF that] by (rule subleaf_cong)
  qed
  have S: "subtables_upto k (pages ?m3) dst (Suc n) = ?U @ C" using U3 C3 by simp
  have "taken (insert dst (set (?U @ C))) m0 ?m3" using taken_trans [OF tk m2(1)] by simp
  with inv v(2) m2(2) new p3 L3 leaf l3 show ?thesis
    unfolding clone_inv_def S by (auto simp: less_Suc_eq)
qed

lemma clone_inv_card:
  assumes "clone_inv k src dst m0 n m"
  shows "card (avail m) + Suc (length (subtables_upto k (pages m0) src n)) = card (avail m0)"
proof -
  let ?X = "insert dst (set (subtables_upto k (pages m) dst n))"
  from assms have "card ?X = Suc (length (subtables_upto k (pages m0) src n))" "?X \<subseteq> avail m0" "avail m = avail m0 - ?X"
    by (auto simp: clone_inv_def taken_def distinct_card)
  then show ?thesis using card_Diff_subset [of ?X "avail m0"] card_mono [of "avail m0" ?X] km.finite_avail by auto
qed

lemma clone_inv_done: "clone_inv k src dst m 512 m' \<Longrightarrow> cloned (Suc k) src m dst m'"
  unfolding cloned_def clone_inv_def tables_Suc leaf_Suc by auto

lemma clone_leaf_level:
  assumes "kmem_ok m" "src \<notin> avail m" "avail m \<noteq> {}"
  shows "\<exists>dst m'. clone_level 0 src m = Some (dst, m') \<and> cloned 0 src m dst m'"
proof -
  from alloc_table_frame_ok [OF assms(1,3)] obtain dst m1 where d: "alloc_table_frame m = Some (dst, m1)"
      "taken {dst} m m1" "pages m1 = pages m" by blast
  have ne: "dst \<noteq> src" using d(2) assms(2) by (auto simp: taken_def)
  let ?P = "\<lambda>n m'. taken {dst} m m' \<and> (\<forall>p. p \<noteq> dst \<longrightarrow> pages m' p = pages m p) \<and>
                    (\<forall>i < n. pages m' dst i = pages m src i)"
  have "\<exists>m'. foldm (\<lambda>i m. Some (set_entry dst i (entry src i m) m)) [0..<512] m1 = Some m' \<and> ?P 512 m'"
    by (rule foldm_upt [where P = ?P]) (use ne d in \<open>auto simp: entry_def less_Suc_eq\<close>)
  then show ?thesis using d by (auto simp: cloned_def)
qed

lemma clone_ok:
  assumes "kmem_ok m" "set (tables k (pages m) src) \<inter> avail m = {}"
    and "length (tables k (pages m) src) \<le> card (avail m)"
  shows "\<exists>dst m'. clone_level k src m = Some (dst, m') \<and> cloned k src m dst m'"
  using assms
proof (induction k arbitrary: src m)
  case 0
  then show ?case by (intro clone_leaf_level) auto
next
  case (Suc k)
  let ?T = "subtables_upto k (pages m) src"
  from Suc.prems have "avail m \<noteq> {}" by (auto simp: tables_Suc)
  from alloc_table_frame_ok [OF Suc.prems(1) this] obtain dst m1 where d: "alloc_table_frame m = Some (dst, m1)"
      "taken {dst} m m1" "pages m1 = pages m" by blast
  define f where "f i m = (let e = entry src i m in
                 if is_table e then
                   do { (child, m) \<leftarrow> clone_level k (desc_addr e) m;
                        Some (set_entry dst i (of_nat child OR DESC_VALID OR DESC_TABLE) m) }
                 else Some (set_entry dst i e m))" for i m
  have step: "\<exists>m2. f n m' = Some m2 \<and> clone_inv k src dst m (Suc n) m2"
    if n: "n < 512" and inv: "clone_inv k src dst m n m'" for n m'
  proof -
    let ?e = "pages m src n"
    have sub: "set (subtables k (pages m) ?e) \<subseteq> set (tables (Suc k) (pages m) src)" by (rule tables_subtables [OF n])
    have keep: "pages m' p = pages m p" if "p \<in> set (tables (Suc k) (pages m) src)" for p
    proof -
      have "p \<notin> insert dst (set (subtables_upto k (pages m') dst n))"
        using that inv Suc.prems(2) unfolding clone_inv_def taken_def by blast
      then show ?thesis using inv unfolding clone_inv_def by blast
    qed
    have e: "entry src n m' = ?e" using keep [of src] by (simp add: entry_def)
    have st: "subtables k (pages m') ?e = subtables k (pages m) ?e" using sub keep by (intro subtables_cong) auto
    have sl: "subleaf k (pages m') ?e va = subleaf k (pages m) ?e va" for va using sub keep by (intro subleaf_cong) auto
    have ok: "kmem_ok m'" using inv by (simp add: clone_inv_def taken_def)
    show ?thesis
    proof (cases "is_table ?e")
      case False
      then have "clone_inv k src dst m (Suc n) (set_entry dst n ?e m')"
        using st sl ok by (intro clone_inv_step [OF inv, of "[]"]) (auto simp: subtables_def)
      with False e show ?thesis by (auto simp: f_def)
    next
      case True
      then have tt: "tables k (pages m') (desc_addr ?e) = subtables k (pages m) ?e" using st by (simp add: subtables_def)
      have "length (?T n) + length (subtables k (pages m) ?e) \<le> length (?T 512)"
        using n by (simp add: subtables_upto_mono_length)
      then have "length (tables k (pages m') (desc_addr ?e)) \<le> card (avail m')"
        using clone_inv_card [OF inv] Suc.prems(3) tt by (simp add: tables_Suc)
      moreover have "set (tables k (pages m') (desc_addr ?e)) \<inter> avail m' = {}"
        using tt sub Suc.prems(2) inv by (auto simp: clone_inv_def taken_def)
      ultimately obtain c m2 where c: "clone_level k (desc_addr ?e) m' = Some (c, m2)" "cloned k (desc_addr ?e) m' c m2"
        using Suc.IH [OF ok] by blast
      let ?v = "of_nat c OR DESC_VALID OR DESC_TABLE"
      have "c \<in> avail m'" using c(2) tables_root [of c k "pages m2"] unfolding cloned_def taken_def by blast
      note td = table_desc [OF avail_props(1,2) [OF ok this]]
      have "clone_inv k src dst m (Suc n) (set_entry dst n ?v m2)"
        by (rule clone_inv_step [OF inv, of "tables k (pages m2) c"])
          (use c(2) td True tt sl in \<open>auto simp: cloned_def subtables_def subleaf_def\<close>)
      with c(1) True e show ?thesis by (auto simp: f_def)
    qed
  qed
  have "clone_inv k src dst m 0 m1" using d by (simp add: clone_inv_def)
  from foldm_upt [of 512 "clone_inv k src dst m" f, OF step this] obtain m2 where
    "foldm f [0..<512] m1 = Some m2" "clone_inv k src dst m 512 m2" by blast
  with d(1) clone_inv_done show ?case by (auto simp: f_def [abs_def])
qed

lemma free_walk_ok:
  assumes "kmem_ok m" "set (tables k (pages m) t) \<subseteq> managed m"
  shows "\<exists>m'. free_walk k t m = Some m' \<and> kmem_ok m' \<and> avail m' = avail m \<union> set (tables k (pages m) t) \<and>
              managed m' = managed m \<and> pages m' = pages m \<and> kernel_l0 m' = kernel_l0 m \<and> zero_page m' = zero_page m"
  using assms
proof (induction k arbitrary: t m)
  case 0
  then show ?case using free_frame_ok [of m t] by auto
next
  case (Suc k)
  let ?P = "\<lambda>n m'. kmem_ok m' \<and> avail m' = avail m \<union> set (subtables_upto k (pages m) t n) \<and> managed m' = managed m \<and>
      pages m' = pages m \<and> kernel_l0 m' = kernel_l0 m \<and> zero_page m' = zero_page m"
  define f where "f i m = (let e = entry t i m in if is_table e then free_walk k (desc_addr e) m else Some m)" for i m
  have "\<exists>m2. f n m' = Some m2 \<and> ?P (Suc n) m2" if n: "n < 512" and P: "?P n m'" for n m'
  proof (cases "is_table (pages m t n)")
    case True
    have "set (tables k (pages m') (desc_addr (pages m t n))) \<subseteq> managed m'"
      using tables_subtables [OF n, of k "pages m" t] True P Suc.prems(2) by (auto simp: subtables_def)
    from Suc.IH [OF _ this] P True show ?thesis by (auto simp: f_def entry_def subtables_def)
  next
    case False
    then show ?thesis using P by (auto simp: f_def entry_def subtables_def)
  qed
  moreover have "?P 0 m" using Suc.prems(1) by simp
  ultimately obtain m2 where m2: "foldm f [0..<512] m = Some m2" "?P 512 m2"
    using foldm_upt [of 512 ?P f m] by blast
  moreover have "t \<in> managed m2" using m2(2) Suc.prems(2) by (auto simp: tables_Suc)
  ultimately obtain m3 where "free_frame t m2 = Some m3" "kmem_ok m3" "avail m3 = insert t (avail m2)" "managed m3 = managed m2"
      "pages m3 = pages m2" "kernel_l0 m3 = kernel_l0 m2" "zero_page m3 = zero_page m2" using free_frame_ok [of m2 t] by blast
  with m2 show ?case by (auto simp: f_def [abs_def] tables_Suc)
qed

section \<open>Changing a tree\<close>

lemma xlate_leaf: "leaf k' pg' t' va = leaf k pg t va \<Longrightarrow> xlate k' pg' t' va = xlate k pg t va"
  by (simp add: xlate_def)

lemma distinct_subtables_upto:
  "distinct (subtables_upto k pg t n) \<longleftrightarrow> (\<forall>i < n. distinct (subtables k pg (pg t i))) \<and>
     (\<forall>i < n. \<forall>j < n. i \<noteq> j \<longrightarrow> set (subtables k pg (pg t i)) \<inter> set (subtables k pg (pg t j)) = {})"
  by (induction n) (fastforce simp: less_Suc_eq subtables_upto_set)+

lemma tree_upd_refl: "tree_ok k t m \<Longrightarrow> tree_upd k t 0 {} m m"
  unfolding tree_upd_def tree_ok_def by (intro exI [of _ "{}"]) auto

lemma tree_upd_ok: "tree_ok k t m \<Longrightarrow> tree_upd k t n A m m' \<Longrightarrow> tree_ok k t m'"
  unfolding tree_upd_def tree_ok_def taken_def by auto

lemma tree_upd_trans:
  assumes "tree_upd k t n A m m'" "tree_upd k t n' A' m' m''"
  shows "tree_upd k t (n + n') (A \<union> A') m m''"
proof -
  from assms obtain X Y where X: "taken X m m'" "card X \<le> n" "set (tables k (pages m') t) = set (tables k (pages m) t) \<union> X"
      "\<forall>p. p \<notin> set (tables k (pages m) t) \<union> X \<longrightarrow> pages m' p = pages m p"
      "\<forall>va. va \<notin> A \<longrightarrow> xlate k (pages m') t va = xlate k (pages m) t va"
    and Y: "taken Y m' m''" "card Y \<le> n'" "set (tables k (pages m'') t) = set (tables k (pages m') t) \<union> Y"
      "distinct (tables k (pages m'') t)"
      "\<forall>p. p \<notin> set (tables k (pages m') t) \<union> Y \<longrightarrow> pages m'' p = pages m' p"
      "\<forall>va. va \<notin> A' \<longrightarrow> xlate k (pages m'') t va = xlate k (pages m') t va"
    unfolding tree_upd_def by metis
  have "taken (X \<union> Y) m m''" by (rule taken_trans [OF X(1) Y(1)])
  moreover have "card (X \<union> Y) \<le> n + n'" using card_Un_le [of X Y] X(2) Y(2) by linarith
  ultimately show ?thesis unfolding tree_upd_def
    using X(3,4,5) Y(3,4,5,6) by (intro exI [of _ "X \<union> Y"]) auto
qed

lemma tree_upd_mono: "tree_upd k t n A m m' \<Longrightarrow> n \<le> n' \<Longrightarrow> A \<subseteq> A' \<Longrightarrow> tree_upd k t n' A' m m'"
  unfolding tree_upd_def by (meson le_trans subsetD)

lemma tree_upd_card:
  assumes "tree_upd k t n A m m'"
  shows "card (avail m) \<le> card (avail m') + n"
proof -
  from assms obtain X where "avail m' = avail m - X" "card X \<le> n" "X \<subseteq> avail m"
    by (auto simp: tree_upd_def taken_def)
  then show ?thesis using card_Diff_subset [of X "avail m"] km.finite_avail finite_subset by fastforce
qed

lemma tree_upd_frame:
  assumes "tree_upd k t n A m m'" "set (tables j (pages m) s) \<inter> (set (tables k (pages m) t) \<union> avail m) = {}"
  shows "leaf j (pages m') s va = leaf j (pages m) s va" "tables j (pages m') s = tables j (pages m) s"
proof -
  have "pages m' p = pages m p" if "p \<in> set (tables j (pages m) s)" for p
    using assms that unfolding tree_upd_def taken_def by blast
  then show "leaf j (pages m') s va = leaf j (pages m) s va" "tables j (pages m') s = tables j (pages m) s"
    by (auto intro!: leaf_cong tables_cong)
qed

lemma tree_child:
  assumes "tree_ok (Suc k) t m" "i < 512" "is_table (pages m t i)"
  shows "tree_ok k (desc_addr (pages m t i)) m" "t \<notin> set (tables k (pages m) (desc_addr (pages m t i)))"
  using assms tables_subtables [OF assms(2), of k "pages m" t]
  by (auto simp: tree_ok_def tables_Suc subtables_def distinct_subtables_upto subtables_upto_set split: if_splits)

lemma subtables_upto_grow:
  assumes i: "i < n"
    and other: "\<And>j. j < n \<Longrightarrow> j \<noteq> i \<Longrightarrow> subtables k pg' (pg' t j) = subtables k pg (pg t j)"
    and grow: "set (subtables k pg' (pg' t i)) = set (subtables k pg (pg t i)) \<union> X" "distinct (subtables k pg' (pg' t i))"
    and old: "distinct (subtables_upto k pg t n)" "set (subtables_upto k pg t n) \<inter> X = {}"
  shows "set (subtables_upto k pg' t n) = set (subtables_upto k pg t n) \<union> X" "distinct (subtables_upto k pg' t n)"
proof -
  let ?S = "\<lambda>pg j. subtables k pg (pg t j)"
  have S: "set (?S pg' j) = set (?S pg j) \<union> (if j = i then X else {})" "distinct (?S pg' j)" if "j < n" for j
    using that other [of j] grow old(1) unfolding distinct_subtables_upto by (cases "j = i"; simp)+
  show "set (subtables_upto k pg' t n) = set (subtables_upto k pg t n) \<union> X"
    unfolding set_eq_iff subtables_upto_set Un_iff using S(1) i by (auto split: if_splits)
  have X: "set (?S pg j) \<inter> X = {}" if "j < n" for j
    using old(2) that subtables_upto_set [of _ k pg t n] by blast
  have "set (?S pg' a) \<inter> set (?S pg' b) = {}" if "a < n" "b < n" "a \<noteq> b" for a b
  proof -
    have "set (?S pg a) \<inter> set (?S pg b) = {}" using old(1) that unfolding distinct_subtables_upto by blast
    with S(1) [OF that(1)] S(1) [OF that(2)] X [OF that(1)] X [OF that(2)] that(3) show ?thesis by auto
  qed
  then show "distinct (subtables_upto k pg' t n)" unfolding distinct_subtables_upto using S(2) by blast
qed

lemma tree_descend:
  assumes ok: "tree_ok (Suc k) t m" and i: "i < 512" "is_table (pages m t i)" and c: "c = desc_addr (pages m t i)"
    and upd: "tree_upd k c n A m m'"
  shows "tree_upd (Suc k) t n {va. level_idx (Suc k) va = i \<and> va \<in> A} m m'" "pages m' t = pages m t"
proof -
  from upd obtain X where X: "taken X m m'" "card X \<le> n" "set (tables k (pages m') c) = set (tables k (pages m) c) \<union> X"
      "distinct (tables k (pages m') c)" "\<forall>p. p \<notin> set (tables k (pages m) c) \<union> X \<longrightarrow> pages m' p = pages m p"
      "\<forall>va. va \<notin> A \<longrightarrow> xlate k (pages m') c va = xlate k (pages m) c va"
    unfolding tree_upd_def by metis
  have dis: "set (tables (Suc k) (pages m) t) \<inter> X = {}" "distinct (subtables_upto k (pages m) t 512)"
    using ok X(1) by (auto simp: tree_ok_def tables_Suc taken_def)
  show t: "pages m' t = pages m t" using X(5) dis(1) tree_child(2) [OF ok i] c by (auto simp: tables_Suc)
  have ci: "subtables k pg (pages m t i) = tables k pg c" for pg using i(2) c by (simp add: subtables_def)
  have keep: "pages m' p = pages m p" if "j < 512" "j \<noteq> i" "p \<in> set (subtables k (pages m) (pages m t j))" for j p
  proof -
    have "p \<notin> set (tables k (pages m) c)"
      using dis(2) that i(1) unfolding distinct_subtables_upto ci [symmetric] by blast
    moreover have "p \<notin> X" using tables_subtables [OF that(1), of k "pages m" t] that(3) dis(1) by blast
    ultimately show ?thesis using X(5) by blast
  qed
  have grown: "set (subtables_upto k (pages m') t 512) = set (subtables_upto k (pages m) t 512) \<union> X"
      "distinct (subtables_upto k (pages m') t 512)"
  proof -
    have "subtables k (pages m') (pages m' t j) = subtables k (pages m) (pages m t j)" if "j < 512" "j \<noteq> i" for j
      unfolding t using keep [OF that] by (rule subtables_cong)
    note grow = subtables_upto_grow [of i 512 k "pages m'" t "pages m" X, OF i(1) this]
    show "set (subtables_upto k (pages m') t 512) = set (subtables_upto k (pages m) t 512) \<union> X"
        "distinct (subtables_upto k (pages m') t 512)"
      using grow X(3,4) dis by (simp_all add: t ci tables_Suc)
  qed
  then have d: "distinct (tables (Suc k) (pages m') t)" using ok dis by (auto simp: tables_Suc tree_ok_def)
  have "xlate (Suc k) (pages m') t va = xlate (Suc k) (pages m) t va"
    if "va \<notin> {va. level_idx (Suc k) va = i \<and> va \<in> A}" for va
  proof (cases "level_idx (Suc k) va = i")
    case True
    then show ?thesis using that X(6) i(2) by (simp add: xlate_def leaf_Suc subleaf_def t c)
  next
    case False
    then have "subleaf k (pages m') (pages m t (level_idx (Suc k) va)) va = subleaf k (pages m) (pages m t (level_idx (Suc k) va)) va"
      using keep [of "level_idx (Suc k) va"] by (intro subleaf_cong) auto
    then show ?thesis by (intro xlate_leaf) (simp add: leaf_Suc t)
  qed
  moreover have "pages m' p = pages m p" if "p \<notin> set (tables (Suc k) (pages m) t) \<union> X" for p
    using that X(5) tables_subtables [OF i(1), of k "pages m" t] unfolding ci by blast
  ultimately show "tree_upd (Suc k) t n {va. level_idx (Suc k) va = i \<and> va \<in> A} m m'"
    unfolding tree_upd_def using X(1,2) d grown by (intro exI [of _ X]) (auto simp: tables_Suc)
qed

lemma not_valid_0 [simp]: "\<not> is_valid 0"
  by (simp add: is_valid_def)

lemma empty_table:
  assumes "\<And>j. j < 512 \<Longrightarrow> pg c j = 0"
  shows "tables k pg c = [c]" "leaf k pg c va = (k, 0)"
  using assms by (cases k; simp add: tables_Suc leaf_Suc subtables_upto_def subtables_def subleaf_def)+

lemma attach_child:
  assumes ok: "tree_ok (Suc k) t m" and i: "i < 512" and nt: "\<not> is_table (pages m t i)" and c: "taken {c} m m1"
    and m1: "pages m1 = (pages m)(c := g, t := (pages m t)(i := of_nat c OR DESC_VALID OR DESC_TABLE))"
    and sub: "tables k (pages m1) c = [c]"
    and same: "\<And>va. level_idx (Suc k) va = i \<Longrightarrow> xlate k (pages m1) c va = xlate (Suc k) (pages m) t va"
  shows "tree_upd (Suc k) t 1 {} m m1"
proof -
  have ca: "c \<in> avail m" and okm: "kmem_ok m" using c ok by (auto simp: taken_def tree_ok_def)
  note td = table_desc [OF avail_props(1,2) [OF okm ca]]
  have cT: "c \<notin> set (tables (Suc k) (pages m) t)" using ca ok by (auto simp: tree_ok_def)
  then have ct: "c \<noteq> t" using tables_root by metis
  have p1: "pages m1 p = pages m p" if "p \<noteq> c" "p \<noteq> t" for p using that by (simp add: m1)
  have t1: "pages m1 t = (pages m t)(i := of_nat c OR DESC_VALID OR DESC_TABLE)" by (simp add: m1)
  have keep: "pages m1 p = pages m p" if "j < 512" "p \<in> set (subtables k (pages m) (pages m t j))" for j p
    using that cT ok tables_subtables [OF that(1), of k "pages m" t]
    by (intro p1) (auto simp: tree_ok_def tables_Suc subtables_upto_set)
  have "subtables k (pages m1) (pages m1 t j) = subtables k (pages m) (pages m t j)" if "j < 512" "j \<noteq> i" for j
    using subtables_cong [OF keep [OF that(1)]] that(2) by (simp add: t1)
  note grow = subtables_upto_grow [of i 512 k "pages m1" t "pages m" "{c}", OF i this]
  have "subtables k (pages m1) (pages m1 t i) = [c]" "subtables k (pages m) (pages m t i) = []"
    using td nt sub by (auto simp: t1 subtables_def)
  with grow ok cT have g: "set (subtables_upto k (pages m1) t 512) = set (subtables_upto k (pages m) t 512) \<union> {c}"
      "distinct (subtables_upto k (pages m1) t 512)" by (auto simp: tree_ok_def tables_Suc)
  have x: "xlate (Suc k) (pages m1) t va = xlate (Suc k) (pages m) t va" for va
  proof (cases "level_idx (Suc k) va = i")
    case True
    have "xlate (Suc k) (pages m1) t va = xlate k (pages m1) c va"
      using True td by (simp add: xlate_def leaf_Suc subleaf_def t1)
    then show ?thesis using same [OF True] by simp
  next
    case False
    then have "subleaf k (pages m1) (pages m1 t (level_idx (Suc k) va)) va = subleaf k (pages m) (pages m t (level_idx (Suc k) va)) va"
      using subleaf_cong [OF keep [of "level_idx (Suc k) va"]] by (simp add: t1)
    then show ?thesis by (intro xlate_leaf) (simp add: leaf_Suc)
  qed
  show ?thesis unfolding tree_upd_def
    using c g x p1 ok ct by (intro exI [of _ "{c}"]) (auto simp: tables_Suc tree_ok_def)
qed

lemma ensure_fresh:
  assumes ok: "tree_ok (Suc k) t m" and i: "i < 512" and nv: "\<not> is_valid (pages m t i)" and c: "taken {c} m m0"
    and m1: "m1 = set_entry t i (of_nat c OR DESC_VALID OR DESC_TABLE) m0"
    and m0: "pages m0 = (pages m)(c := (\<lambda>j. if j < 512 then 0 else pages m c j))"
  shows "tree_upd (Suc k) t 1 {} m m1" "pages m1 t = (pages m t)(i := of_nat c OR DESC_VALID OR DESC_TABLE)"
    "\<forall>j < 512. pages m1 c j = 0"
proof -
  have "c \<notin> set (tables (Suc k) (pages m) t)" using c ok by (auto simp: tree_ok_def taken_def)
  then have ct: "c \<noteq> t" using tables_root by metis
  have p1: "pages m1 = (pages m)(c := (\<lambda>j. if j < 512 then 0 else pages m c j),
                                t := (pages m t)(i := of_nat c OR DESC_VALID OR DESC_TABLE))"
    using ct by (simp add: m1 m0)
  show "pages m1 t = (pages m t)(i := of_nat c OR DESC_VALID OR DESC_TABLE)" by (simp add: p1)
  show z: "\<forall>j < 512. pages m1 c j = 0" using ct by (simp add: p1)
  have "xlate k (pages m1) c va = xlate (Suc k) (pages m) t va" if "level_idx (Suc k) va = i" for va
    using that nv empty_table(2) [of "pages m1" c k va] z
    by (auto simp: xlate_def leaf_Suc subleaf_def split: prod.splits)
  moreover have "tables k (pages m1) c = [c]" using z by (intro empty_table) simp
  moreover have "taken {c} m m1" using c by (simp add: m1)
  ultimately show "tree_upd (Suc k) t 1 {} m m1" using nv by (intro attach_child [OF ok i _ _ p1]) auto
qed

lemma ensure_ok:
  assumes ok: "tree_ok (Suc k) t m" and i: "i < 512" and nb: "is_valid (pages m t i) \<Longrightarrow> has_table_bit (pages m t i)"
    and fr: "is_valid (pages m t i) \<or> avail m \<noteq> {}"
  obtains c m1 where "ensure_table t i m = Some (c, m1)" "tree_upd (Suc k) t 1 {} m m1" "is_table (pages m1 t i)"
    "desc_addr (pages m1 t i) = c" "tree_ok k c m1"
    "if is_valid (pages m t i) then m1 = m else \<forall>j < 512. pages m1 c j = 0"
    "\<forall>j. j \<noteq> i \<longrightarrow> pages m1 t j = pages m t j"
proof (cases "is_valid (pages m t i)")
  case True
  then have "tree_upd (Suc k) t 1 {} m m" by (intro tree_upd_mono [OF tree_upd_refl [OF ok]]) auto
  with True show ?thesis using that [of "desc_addr (pages m t i)" m] nb tree_child(1) [OF ok i] by (simp add: ensure_table_def entry_def)
next
  case False
  have okm: "kmem_ok m" using ok by (simp add: tree_ok_def)
  from alloc_table_ok [OF okm] fr False obtain c m0 where c: "alloc_table m = Some (c, m0)" "taken {c} m m0"
      "pages m0 = (pages m)(c := (\<lambda>i. if i < 512 then 0 else pages m c i))" by blast
  define m1 where m1: "m1 = set_entry t i (of_nat c OR DESC_VALID OR DESC_TABLE) m0"
  note f = ensure_fresh [OF ok i False c(2) m1 c(3)]
  have "c \<in> avail m" using c(2) by (simp add: taken_def)
  note td = table_desc [OF avail_props(1,2) [OF okm this]]
  have "tree_ok k c m1" using tree_child(1) [OF tree_upd_ok [OF ok f(1)] i] td unfolding f(2) by simp
  with f td c(1) False show ?thesis by (intro that [of c m1]) (simp_all add: ensure_table_def entry_def m1 [symmetric])
qed

lemma map_at_entries:
  assumes ok: "tree_ok (Suc k) t m" and op: "open_at (Suc k) (pages m) t va" and fr: "avail m \<noteq> {} \<or> is_valid (pages m t (level_idx (Suc k) va))"
    and "k = 0" and map: "map_at (Suc k) t va v m = Some m'" and j: "j \<noteq> level_idx (Suc k) va"
  shows "pages m' t j = pages m t j"
proof -
  let ?i = "level_idx (Suc k) va"
  have "is_valid (pages m t ?i) \<Longrightarrow> has_table_bit (pages m t ?i)"
    using op by (auto simp: open_at_def leaf_Suc subleaf_def split: if_splits)
  moreover have "is_valid (pages m t ?i) \<or> avail m \<noteq> {}" using fr by blast
  ultimately obtain c m1 where e: "ensure_table t ?i m = Some (c, m1)" "tree_upd (Suc k) t 1 {} m m1"
      "is_table (pages m1 t ?i)" "desc_addr (pages m1 t ?i) = c" "tree_ok k c m1"
      "if is_valid (pages m t ?i) then m1 = m else \<forall>j < 512. pages m1 c j = 0"
      "\<forall>j. j \<noteq> ?i \<longrightarrow> pages m1 t j = pages m t j"
    by (rule ensure_ok [OF ok level_idx_lt])
  have "t \<noteq> c" using tree_child(2) [OF tree_upd_ok [OF ok e(2)] level_idx_lt e(3)] e(4) by (auto simp: \<open>k = 0\<close>)
  then show ?thesis using map e(1,7) j by (auto simp: \<open>k = 0\<close>)
qed

lemma set_entry_leaf_level:
  assumes "tree_ok 0 t m"
  shows "tree_upd 0 t 0 {va. level_idx 0 va = i} m (set_entry t i v m)"
  unfolding tree_upd_def using assms by (intro exI [of _ "{}"]) (auto simp: tree_ok_def xlate_def)

lemma map_at_ok:
  assumes "tree_ok k t m" "open_at k (pages m) t va" "fst (leaf k (pages m) t va) \<le> card (avail m)"
  shows "\<exists>m'. map_at k t va v m = Some m' \<and> tree_upd k t (fst (leaf k (pages m) t va)) (same_page k va) m m' \<and>
              leaf k (pages m') t va = (0, v)"
  using assms
proof (induction k arbitrary: t m)
  case 0
  have "same_page 0 va = {va'. level_idx 0 va' = level_idx 0 va}" by (auto simp: same_page_def)
  then show ?case using set_entry_leaf_level [OF 0(1), of "level_idx 0 va" v] by simp
next
  case (Suc k)
  let ?i = "level_idx (Suc k) va" and ?l = "fst (leaf (Suc k) (pages m) t va)"
  have "is_valid (pages m t ?i) \<Longrightarrow> has_table_bit (pages m t ?i)"
    using Suc.prems(2) by (auto simp: open_at_def leaf_Suc subleaf_def split: if_splits)
  moreover have "is_valid (pages m t ?i) \<or> avail m \<noteq> {}"
    using Suc.prems(3) by (auto simp: leaf_Suc subleaf_def split: if_splits)
  ultimately obtain c m1 where e: "ensure_table t ?i m = Some (c, m1)" "tree_upd (Suc k) t 1 {} m m1"
      "is_table (pages m1 t ?i)" "desc_addr (pages m1 t ?i) = c" "tree_ok k c m1"
      "if is_valid (pages m t ?i) then m1 = m else \<forall>j < 512. pages m1 c j = 0"
      "\<forall>j. j \<noteq> ?i \<longrightarrow> pages m1 t j = pages m t j"
    by (rule ensure_ok [OF Suc.prems(1) level_idx_lt])
  obtain n where n: "tree_upd (Suc k) t n {} m m1" "n + fst (leaf k (pages m1) c va) = ?l"
  proof (cases "is_valid (pages m t ?i)")
    case True
    then show ?thesis using that [of 0] e tree_upd_refl [OF Suc.prems(1)] by (simp add: leaf_Suc subleaf_def)
  next
    case False
    then show ?thesis using that [of 1] e empty_table(2) [of "pages m1" c k va] by (simp add: leaf_Suc subleaf_def)
  qed
  have "open_at k (pages m1) c va"
    using e(3,4,6) Suc.prems(2) empty_table(2) [of "pages m1" c k va]
    by (auto simp: open_at_def leaf_Suc subleaf_def split: if_splits)
  moreover have "fst (leaf k (pages m1) c va) \<le> card (avail m1)"
    using tree_upd_card [OF n(1)] n(2) Suc.prems(3) by linarith
  ultimately obtain m' where m': "map_at k c va v m1 = Some m'"
      "tree_upd k c (fst (leaf k (pages m1) c va)) (same_page k va) m1 m'" "leaf k (pages m') c va = (0, v)"
    using Suc.IH [OF e(5)] by blast
  have ok1: "tree_ok (Suc k) t m1" by (rule tree_upd_ok [OF Suc.prems(1) e(2)])
  note d = tree_descend [OF ok1 level_idx_lt e(3) e(4) [symmetric] m'(2)]
  have "tree_upd (Suc k) t ?l (same_page (Suc k) va) m m'"
    by (rule tree_upd_mono [OF tree_upd_trans [OF n(1) d(1)]]) (use n(2) in \<open>auto simp: same_page_def le_Suc_eq\<close>)
  moreover have "leaf (Suc k) (pages m') t va = (0, v)" using d(2) e(3,4) m'(3) by (simp add: leaf_Suc subleaf_def)
  ultimately show ?case using e(1) m'(1) by auto
qed

lemma level_digits:
  "(\<forall>j < n. (p div 512 ^ j) mod 512 = (q div 512 ^ j) mod 512) \<longleftrightarrow> p mod 512 ^ n = q mod 512 ^ n" for p q :: nat
proof (induction n)
  case (Suc n)
  have split: "x mod 512 ^ Suc n = x mod 512 ^ n + 512 ^ n * ((x div 512 ^ n) mod 512)" for x :: nat
    using mod_mult2_eq [of x "512 ^ n" 512] by (simp add: mult.commute)
  have "x mod 512 ^ Suc n mod 512 ^ n = x mod 512 ^ n" "x mod 512 ^ Suc n div 512 ^ n = (x div 512 ^ n) mod 512" for x :: nat
    unfolding split by simp_all
  then show ?case using Suc split by (metis less_Suc_eq)
qed simp

lemma level_idx_page: "level_idx j va = (va div PAGE_SIZE div 512 ^ j) mod 512"
proof -
  have "(2::nat) ^ (12 + 9 * j) = PAGE_SIZE * 512 ^ j" by (simp add: power_add power_mult)
  then show ?thesis by (simp add: level_idx_def div_mult2_eq)
qed

lemma same_page_iff: "va' \<in> same_page k va \<longleftrightarrow> (va' div PAGE_SIZE) mod 512 ^ Suc k = (va div PAGE_SIZE) mod 512 ^ Suc k"
  unfolding same_page_def level_idx_page level_digits [symmetric] by (simp add: less_Suc_eq_le)

lemma map_user_frame_map_at:
  "page_aligned va \<Longrightarrow> page_aligned pa \<Longrightarrow> map_user_frame root va pa flags m = map_at 3 root va (of_nat pa OR flags) m"
  by (simp add: map_user_frame_def idx_level page_aligned_def numeral_3_eq_3 numeral_2_eq_2 case_prod_beta')

lemma read_user_page_leaf:
  assumes "leaf 3 (pages m) root va = (l, e)" "2 \<le> l \<Longrightarrow> \<not> is_valid e"
  shows "read_user_page root va m = (if l = 0 then e else 0)"
  using assms
  by (auto simp: read_user_page_def idx_level entry_def leaf_Suc subleaf_def numeral_3_eq_3 numeral_2_eq_2 Let_def split: if_splits)

lemma write_user_page_map_at:
  assumes "fst (leaf 3 (pages m) root va) = 0"
  shows "map_at 3 root va v m = Some (write_user_page root va v m)"
  using assms
  by (auto simp: write_user_page_def idx_level entry_def ensure_table_def leaf_Suc subleaf_def numeral_3_eq_3 numeral_2_eq_2 Let_def split: if_splits)

section \<open>Splitting a block\<close>

lemma bit_single: "k < 64 \<Longrightarrow> bit (push_bit k 1 :: u64) n \<longleftrightarrow> n = k"
  by (auto simp: push_bit_of_1 bit_exp_iff)

lemma attr_bits: "bit (0xFFF :: u64) n \<longleftrightarrow> n < 12" "bit DESC_UXN n \<longleftrightarrow> n = 54" "bit DESC_PXN n \<longleftrightarrow> n = 53"
    "bit DESC_PAGE n \<longleftrightarrow> n = 1" "bit DESC_TABLE n \<longleftrightarrow> n = 1"
proof -
  have "(0xFFF :: u64) = mask 12" by (simp add: mask_eq_exp_minus_1)
  then show "bit (0xFFF :: u64) n \<longleftrightarrow> n < 12" by (simp only: bit_mask_iff) auto
qed (unfold DESC_UXN_def DESC_PXN_def DESC_PAGE_def DESC_TABLE_def, (rule bit_single, simp)+)

lemma split_pte:
  assumes "page_aligned a" "a < 2 ^ 48" and pte: "pte = of_nat a OR ((e AND ATTR_MASK) OR DESC_PAGE)" and v: "is_valid e"
  shows "desc_addr pte = a" "is_table pte" "(pte AND ATTR_MASK) AND NOT DESC_TABLE = (e AND ATTR_MASK) AND NOT DESC_TABLE"
proof -
  have "((e AND ATTR_MASK) OR DESC_PAGE) AND ADDR_MASK = 0"
    by (rule bit_word_eqI) (auto simp: bit_and_iff bit_or_iff attr_bits addr_mask_bit simp del: bit_numeral_word_iff)
  then show "desc_addr pte = a" unfolding pte by (rule desc_addr_or [OF assms(1,2)])
  show "is_table pte" using v or_bit_low [OF assms(1)]
    by (simp add: pte is_valid_bit has_table_bit_bit bit_or_iff bit_and_iff attr_bits del: bit_numeral_word_iff)
  show "(pte AND ATTR_MASK) AND NOT DESC_TABLE = (e AND ATTR_MASK) AND NOT DESC_TABLE"
  proof (rule bit_word_eqI)
    fix n assume "n < LENGTH(64)"
    moreover have "bit (of_nat a :: u64) n \<Longrightarrow> 12 \<le> n \<and> n < 48"
      using page_aligned_bit [OF assms(1)] nat_bit_lt [OF assms(2)] by (auto simp: bit_of_nat_iff)
    ultimately show "bit ((pte AND ATTR_MASK) AND NOT DESC_TABLE) n = bit ((e AND ATTR_MASK) AND NOT DESC_TABLE) n"
      by (auto simp: pte bit_and_iff bit_or_iff bit_not_iff attr_bits simp del: bit_numeral_word_iff)
  qed
qed

lemma split_fill:
  assumes "taken {c} m m1" "pages m1 = pages m" "b + 512 * PAGE_SIZE < USIZE_LIMIT"
  shows "\<exists>m2. foldm (\<lambda>i m. do { a \<leftarrow> uadd b (i * PAGE_SIZE); Some (set_entry c i (of_nat a OR f) m) }) [0..<512] m1 = Some m2 \<and>
     taken {c} m m2 \<and> (\<forall>p. p \<noteq> c \<longrightarrow> pages m2 p = pages m p) \<and> (\<forall>i < 512. pages m2 c i = of_nat (b + i * PAGE_SIZE) OR f)"
    (is "\<exists>m2. foldm ?f _ _ = _ \<and> _")
proof (rule foldm_upt [where P = "\<lambda>n m2. taken {c} m m2 \<and> (\<forall>p. p \<noteq> c \<longrightarrow> pages m2 p = pages m p) \<and>
    (\<forall>i < n. pages m2 c i = of_nat (b + i * PAGE_SIZE) OR f)"])
  fix n m2 assume n: "n < 512" and P: "taken {c} m m2 \<and> (\<forall>p. p \<noteq> c \<longrightarrow> pages m2 p = pages m p) \<and>
    (\<forall>i < n. pages m2 c i = of_nat (b + i * PAGE_SIZE) OR f)"
  from n assms(3) have "?f n m2 = Some (set_entry c n (of_nat (b + n * PAGE_SIZE) OR f) m2)" by (simp add: uadd_def)
  with P show "\<exists>m3. ?f n m2 = Some m3 \<and> taken {c} m m3 \<and> (\<forall>p. p \<noteq> c \<longrightarrow> pages m3 p = pages m p) \<and>
    (\<forall>i < Suc n. pages m3 c i = of_nat (b + i * PAGE_SIZE) OR f)" by (auto simp: less_Suc_eq)
qed (use assms in auto)

lemma block_offset: "va mod 2 ^ 21 = level_idx 0 va * PAGE_SIZE + va mod PAGE_SIZE"
proof -
  have "(2::nat) ^ 21 = PAGE_SIZE * 512" by simp
  then have "va mod 2 ^ 21 = PAGE_SIZE * (va div PAGE_SIZE mod 512) + va mod PAGE_SIZE" by (simp only: mod_mult2_eq)
  then show ?thesis by (simp add: level_idx_def)
qed

lemma block_page_bound: "b = BLOCK_SIZE * q \<Longrightarrow> b < 2 ^ 48 \<Longrightarrow> j < 512 \<Longrightarrow> b + j * PAGE_SIZE < 2 ^ 48"
proof -
  assume b: "b = BLOCK_SIZE * q" "b < 2 ^ 48" and j: "j < 512"
  from b have "q < 2 ^ 27" by simp
  with b(1) j show ?thesis by simp
qed

lemma split_block_ok:
  assumes ok: "tree_ok (Suc 0) t m" and i: "i = level_idx (Suc 0) cur" and e: "e = pages m t i"
    and blk: "is_valid e" "\<not> has_table_bit e" and id: "desc_addr e = BLOCK_SIZE * (cur div BLOCK_SIZE)" and fr: "avail m \<noteq> {}"
  shows "\<exists>m'. split_block t cur m = Some m' \<and> tree_upd (Suc 0) t 1 {} m m' \<and> is_table (pages m' t i) \<and>
              (\<forall>j. j \<noteq> i \<longrightarrow> pages m' t j = pages m t j)"
proof -
  let ?b = "BLOCK_SIZE * (cur div BLOCK_SIZE)" and ?f = "(e AND ATTR_MASK) OR DESC_PAGE"
  have okm: "kmem_ok m" using ok by (simp add: tree_ok_def)
  from alloc_table_frame_ok [OF okm fr] obtain c m1 where c: "alloc_table_frame m = Some (c, m1)" "taken {c} m m1"
      "pages m1 = pages m" by blast
  have b48: "?b < 2 ^ 48" using id desc_addr_lt [of e] by simp
  then have "?b + 512 * PAGE_SIZE < USIZE_LIMIT" by simp
  from split_fill [OF c(2,3) this, of ?f] obtain m2 where m2:
      "foldm (\<lambda>i m. do { a \<leftarrow> uadd ?b (i * PAGE_SIZE); Some (set_entry c i (of_nat a OR ?f) m) }) [0..<512] m1 = Some m2"
      "taken {c} m m2" "\<forall>p. p \<noteq> c \<longrightarrow> pages m2 p = pages m p" "\<forall>i < 512. pages m2 c i = of_nat (?b + i * PAGE_SIZE) OR ?f" by blast
  let ?m' = "set_entry t i (of_nat c OR DESC_VALID OR DESC_TABLE) m2"
  have ca: "c \<in> avail m" using c(2) by (simp add: taken_def)
  then have ct: "c \<noteq> t" using ok by (auto simp: tree_ok_def tables_Suc)
  have pg: "pages ?m' = (pages m)(c := pages m2 c, t := (pages m t)(i := of_nat c OR DESC_VALID OR DESC_TABLE))"
    using m2(3) ct by (auto simp: fun_eq_iff)
  have "xlate 0 (pages ?m') c va = xlate (Suc 0) (pages m) t va" if va: "level_idx (Suc 0) va = i" for va
  proof -
    let ?a = "?b + level_idx 0 va * PAGE_SIZE"
    have "page_aligned ?a" by (simp add: page_aligned_def)
    moreover have "?a < 2 ^ 48" by (rule block_page_bound [OF refl b48 level_idx_lt])
    ultimately have "desc_addr (pages m2 c (level_idx 0 va)) = ?a" "is_table (pages m2 c (level_idx 0 va))"
        "(pages m2 c (level_idx 0 va) AND ATTR_MASK) AND NOT DESC_TABLE = (e AND ATTR_MASK) AND NOT DESC_TABLE"
      using split_pte [of ?a _ e] m2(4) blk(1) by auto
    moreover have "desc_addr e + va mod 2 ^ 21 = ?a + va mod 2 ^ 12" unfolding id block_offset by simp
    ultimately show ?thesis using ct va blk e by (simp add: xlate_def leaf_Suc subleaf_def)
  qed
  then have "tree_upd (Suc 0) t 1 {} m ?m'" using ok i blk e m2(2) by (intro attach_child [OF ok _ _ _ pg]) auto
  moreover have "is_table (pages ?m' t i)" using table_desc [OF avail_props(1,2) [OF okm ca]] by simp
  moreover have "split_block t cur m = Some ?m'"
    using c(1) m2(1) blk by (simp add: split_block_def entry_def idx_level i e Let_def)
  ultimately show ?thesis using pg by auto
qed

section \<open>Mapping the pages of a region\<close>

definition region :: "nat \<Rightarrow> virt_addr \<Rightarrow> virt_addr set" where
  "region k va = {va'. level_idx (Suc (Suc k)) va' = level_idx (Suc (Suc k)) va \<and> level_idx (Suc k) va' = level_idx (Suc k) va}"

lemma descend2:
  assumes ok: "tree_ok (Suc (Suc k)) root m" and e1: "is_table (pages m root (level_idx (Suc (Suc k)) va))"
    and l1: "l1 = desc_addr (pages m root (level_idx (Suc (Suc k)) va))"
    and e2: "is_table (pages m l1 (level_idx (Suc k) va))" and l2: "l2 = desc_addr (pages m l1 (level_idx (Suc k) va))"
    and upd: "tree_upd k l2 n A m m'"
  shows "tree_upd (Suc (Suc k)) root n (region k va \<inter> A) m m'"
    "va' \<in> region k va \<Longrightarrow> leaf (Suc (Suc k)) (pages m') root va' = leaf k (pages m') l2 va'"
proof -
  have ok1: "tree_ok (Suc k) l1 m" using tree_child(1) [OF ok level_idx_lt e1] l1 by simp
  note d1 = tree_descend [OF ok1 level_idx_lt e2 l2 upd]
  note d2 = tree_descend [OF ok level_idx_lt e1 l1 d1(1)]
  show "tree_upd (Suc (Suc k)) root n (region k va \<inter> A) m m'"
    by (rule tree_upd_mono [OF d2(1)]) (auto simp: region_def)
  show "va' \<in> region k va \<Longrightarrow> leaf (Suc (Suc k)) (pages m') root va' = leaf k (pages m') l2 va'"
    using d1(2) d2(2) e1 e2 l1 l2 by (auto simp: region_def leaf_Suc subleaf_def)
qed

lemma ensure_path2:
  assumes ok: "tree_ok (Suc (Suc k)) root m" and fr: "2 \<le> card (avail m)"
    and nb: "\<And>l e. leaf (Suc (Suc k)) (pages m) root va = (l, e) \<Longrightarrow> k < l \<Longrightarrow> \<not> is_valid e"
  obtains l1 m1 l2 m2 where "ensure_table root (level_idx (Suc (Suc k)) va) m = Some (l1, m1)"
    "ensure_table l1 (level_idx (Suc k) va) m1 = Some (l2, m2)" "tree_upd (Suc (Suc k)) root 2 {} m m2" "tree_ok k l2 m2"
    "\<forall>n A m'. tree_upd k l2 n A m2 m' \<longrightarrow> tree_upd (Suc (Suc k)) root n (region k va \<inter> A) m2 m' \<and>
        (\<forall>va' \<in> region k va. leaf (Suc (Suc k)) (pages m') root va' = leaf k (pages m') l2 va')"
    "m2 = m \<or> (\<forall>j < 512. pages m2 l2 j = 0)"
proof -
  let ?i = "level_idx (Suc (Suc k)) va" and ?j = "level_idx (Suc k) va"
  have "is_valid (pages m root ?i) \<Longrightarrow> has_table_bit (pages m root ?i)"
    using nb [OF leaf_block] by fastforce
  moreover have "is_valid (pages m root ?i) \<or> avail m \<noteq> {}" using fr by auto
  ultimately obtain l1 m1 where e1: "ensure_table root ?i m = Some (l1, m1)" "tree_upd (Suc (Suc k)) root 1 {} m m1"
      "is_table (pages m1 root ?i)" "desc_addr (pages m1 root ?i) = l1" "tree_ok (Suc k) l1 m1"
      "if is_valid (pages m root ?i) then m1 = m else \<forall>j < 512. pages m1 l1 j = 0"
      "\<forall>j. j \<noteq> ?i \<longrightarrow> pages m1 root j = pages m root j"
    by (rule ensure_ok [OF ok level_idx_lt])
  have "is_valid (pages m1 l1 ?j) \<Longrightarrow> has_table_bit (pages m1 l1 ?j)"
  proof (rule ccontr)
    assume v: "is_valid (pages m1 l1 ?j)" "\<not> has_table_bit (pages m1 l1 ?j)"
    then have m1: "m1 = m" using e1(6) not_valid_0 level_idx_lt by metis
    have "leaf (Suc (Suc k)) (pages m) root va = (Suc k, pages m l1 ?j)"
      using e1(3,4) v leaf_block [of "pages m" l1 k va] unfolding m1 by (simp add: leaf_table)
    with nb v(1) m1 show False by fastforce
  qed
  moreover have "is_valid (pages m1 l1 ?j) \<or> avail m1 \<noteq> {}" using tree_upd_card [OF e1(2)] fr by auto
  ultimately obtain l2 m2 where e2: "ensure_table l1 ?j m1 = Some (l2, m2)" "tree_upd (Suc k) l1 1 {} m1 m2"
      "is_table (pages m2 l1 ?j)" "desc_addr (pages m2 l1 ?j) = l2" "tree_ok k l2 m2"
      "if is_valid (pages m1 l1 ?j) then m2 = m1 else \<forall>j < 512. pages m2 l2 j = 0"
      "\<forall>j. j \<noteq> ?j \<longrightarrow> pages m2 l1 j = pages m1 l1 j"
    by (rule ensure_ok [OF e1(5) level_idx_lt])
  have ok1: "tree_ok (Suc (Suc k)) root m1" by (rule tree_upd_ok [OF ok e1(2)])
  note d = tree_descend [OF ok1 level_idx_lt e1(3) e1(4) [symmetric] e2(2)]
  have u2: "tree_upd (Suc (Suc k)) root 2 {} m m2"
    by (rule tree_upd_mono [OF tree_upd_trans [OF e1(2) d(1)]]) auto
  have t1: "is_table (pages m2 root ?i)" "l1 = desc_addr (pages m2 root ?i)" using d(2) e1(3,4) by simp_all
  note D = descend2 [OF tree_upd_ok [OF ok u2] t1 e2(3) e2(4) [symmetric]]
  have z: "m2 = m \<or> (\<forall>j < 512. pages m2 l2 j = 0)"
    using e1(6) e2(6) not_valid_0 level_idx_lt by metis
  show ?thesis by (rule that [OF e1(1) e2(1) u2 e2(5) _ z]) (use D in blast)
qed

definition user_page :: "phys_addr \<Rightarrow> u64 \<Rightarrow> virt_addr \<Rightarrow> kmem \<Rightarrow> kmem option" where
  "user_page l2 flags cur m = do { m \<leftarrow> split_block l2 cur m;
                                   (l3, m) \<leftarrow> ensure_table l2 (l2_idx cur) m;
                                   Some (set_entry l3 (l3_idx cur) (of_nat cur OR flags) m) }"

definition page_flags :: "u64 \<Rightarrow> bool" where
  "page_flags f \<longleftrightarrow> is_valid f \<and> has_table_bit f \<and> f AND ADDR_MASK = 0"

lemma user_page_ok:
  assumes ok: "tree_ok (Suc 0) l2 m" and fr: "avail m \<noteq> {}"
    and id: "is_valid (pages m l2 (level_idx (Suc 0) cur)) \<Longrightarrow> \<not> has_table_bit (pages m l2 (level_idx (Suc 0) cur)) \<Longrightarrow>
       desc_addr (pages m l2 (level_idx (Suc 0) cur)) = BLOCK_SIZE * (cur div BLOCK_SIZE)"
  shows "\<exists>m'. user_page l2 flags cur m = Some m' \<and> tree_upd (Suc 0) l2 1 (same_page (Suc 0) cur) m m' \<and>
     leaf (Suc 0) (pages m') l2 cur = (0, of_nat cur OR flags) \<and>
     (\<forall>j. pages m' l2 j = pages m l2 j \<or> is_table (pages m' l2 j))"
proof -
  let ?i = "level_idx (Suc 0) cur" and ?v = "of_nat cur OR flags"
  have op: "user_page l2 flags cur m = do { m \<leftarrow> split_block l2 cur m; map_at (Suc 0) l2 cur ?v m }" for m
    by (simp add: user_page_def idx_level)
  obtain m1 n where m1: "split_block l2 cur m = Some m1" "tree_upd (Suc 0) l2 n {} m m1"
      "is_valid (pages m1 l2 ?i) \<Longrightarrow> is_table (pages m1 l2 ?i)" "\<forall>j. j \<noteq> ?i \<longrightarrow> pages m1 l2 j = pages m l2 j"
      "n + fst (leaf (Suc 0) (pages m1) l2 cur) \<le> 1"
  proof (cases "is_valid (pages m l2 ?i) \<and> \<not> has_table_bit (pages m l2 ?i)")
    case True
    then show ?thesis using split_block_ok [OF ok refl refl _ _ id fr] that [of _ 1]
      by (auto simp: leaf_Suc subleaf_def)
  next
    case False
    then have "split_block l2 cur m = Some m" by (auto simp: split_block_def entry_def idx_level)
    with False show ?thesis using that [of m 0] tree_upd_refl [OF ok] by (auto simp: leaf_Suc subleaf_def)
  qed
  have ok1: "tree_ok (Suc 0) l2 m1" by (rule tree_upd_ok [OF ok m1(2)])
  have op1: "open_at (Suc 0) (pages m1) l2 cur" using m1(3) by (auto simp: open_at_def leaf_Suc subleaf_def)
  have fr1: "fst (leaf (Suc 0) (pages m1) l2 cur) \<le> card (avail m1)"
  proof -
    have "0 < card (avail m)" using fr km.finite_avail by (simp add: card_gt_0_iff)
    then show ?thesis using tree_upd_card [OF m1(2)] m1(5) by linarith
  qed
  with op1 obtain m' where m': "map_at (Suc 0) l2 cur ?v m1 = Some m'"
      "tree_upd (Suc 0) l2 (fst (leaf (Suc 0) (pages m1) l2 cur)) (same_page (Suc 0) cur) m1 m'"
      "leaf (Suc 0) (pages m') l2 cur = (0, ?v)" using map_at_ok [OF ok1] by blast
  have "tree_upd (Suc 0) l2 1 (same_page (Suc 0) cur) m m'"
    by (rule tree_upd_mono [OF tree_upd_trans [OF m1(2) m'(2)]]) (use m1(5) in auto)
  moreover have "pages m' l2 j = pages m l2 j \<or> is_table (pages m' l2 j)" for j
  proof (cases "j = ?i")
    case True
    then show ?thesis using m'(3) by (auto simp: leaf_Suc subleaf_def split: if_splits)
  next
    case False
    have "avail m1 \<noteq> {} \<or> is_valid (pages m1 l2 ?i)" using fr1 by (auto simp: leaf_Suc subleaf_def split: if_splits)
    then show ?thesis using map_at_entries [OF ok1 op1 _ refl m'(1) False] m1(4) False by simp
  qed
  ultimately show ?thesis using m1(1) m'(1,3) by (auto simp: op)
qed

lemma leaf_same_page: "va' \<in> same_page k va \<Longrightarrow> leaf k pg t va' = leaf k pg t va"
proof (induction k arbitrary: t)
  case (Suc k)
  then have "level_idx (Suc k) va' = level_idx (Suc k) va" "va' \<in> same_page k va" by (auto simp: same_page_def)
  then show ?case using Suc.IH by (simp add: leaf_Suc subleaf_def)
qed (simp add: same_page_def)

lemma page_xlate:
  assumes "leaf k pg t va = (0, of_nat pa OR flags)" "page_flags flags" "page_aligned pa" "pa < 2 ^ 48" "va' \<in> same_page k va"
  shows "xlate k pg t va' = Some (pa + va' mod PAGE_SIZE, (flags AND ATTR_MASK) AND NOT DESC_TABLE)"
proof -
  let ?v = "of_nat pa OR flags :: u64"
  have "desc_addr ?v = pa" using assms by (intro desc_addr_or) (auto simp: page_flags_def)
  moreover have "is_valid ?v" "has_table_bit ?v"
    using assms(2) or_bit_low [OF assms(3), of _ flags] by (simp_all add: page_flags_def is_valid_bit has_table_bit_bit)
  moreover have "(?v AND ATTR_MASK) AND NOT DESC_TABLE = (flags AND ATTR_MASK) AND NOT DESC_TABLE"
  proof (rule bit_word_eqI)
    fix n assume "n < LENGTH(64)"
    moreover have "bit (of_nat pa :: u64) n \<Longrightarrow> 12 \<le> n \<and> n < 48"
      using page_aligned_bit [OF assms(3)] nat_bit_lt [OF assms(4)] by (auto simp: bit_of_nat_iff)
    ultimately show "bit ((?v AND ATTR_MASK) AND NOT DESC_TABLE) n = bit ((flags AND ATTR_MASK) AND NOT DESC_TABLE) n"
      by (auto simp: bit_and_iff bit_or_iff bit_not_iff attr_bits simp del: bit_numeral_word_iff)
  qed
  moreover have "leaf k pg t va' = (0, ?v)" using assms(1) leaf_same_page [OF assms(5)] by simp
  ultimately show ?thesis by (simp add: xlate_def)
qed

lemma same_page_apart:
  assumes "va' \<in> same_page (Suc 0) (va + j * PAGE_SIZE)" "va' \<in> same_page (Suc 0) (va + n * PAGE_SIZE)" "j < n" "n < 2 ^ 18"
  shows False
proof -
  have e: "(512::nat) ^ Suc (Suc 0) = 2 ^ 18" by simp
  have "(va div PAGE_SIZE + j) mod 2 ^ 18 = (va div PAGE_SIZE + n) mod 2 ^ 18"
    using assms(1,2) unfolding same_page_iff e by (simp add: add.commute)
  then have "(2::nat) ^ 18 dvd (va div PAGE_SIZE + n) - (va div PAGE_SIZE + j)"
    using assms(3) by (subst mod_eq_dvd_iff_nat [symmetric]) auto
  then have "(2::nat) ^ 18 dvd n - j" by simp
  with assms(3,4) dvd_imp_le [of "2 ^ 18" "n - j"] show False by simp
qed

definition pages_done :: "phys_addr \<Rightarrow> virt_addr \<Rightarrow> u64 \<Rightarrow> kmem \<Rightarrow> nat \<Rightarrow> kmem \<Rightarrow> bool" where
  "pages_done l2 va flags m n m' \<longleftrightarrow>
     tree_upd (Suc 0) l2 n (\<Union>j < n. same_page (Suc 0) (va + j * PAGE_SIZE)) m m' \<and>
     (\<forall>j < n. \<forall>va' \<in> same_page (Suc 0) (va + j * PAGE_SIZE).
        xlate (Suc 0) (pages m') l2 va' = Some (va + j * PAGE_SIZE + va' mod PAGE_SIZE, (flags AND ATTR_MASK) AND NOT DESC_TABLE)) \<and>
     (\<forall>j. pages m' l2 j = pages m l2 j \<or> is_table (pages m' l2 j))"

lemma pages_done_step:
  assumes ok: "tree_ok (Suc 0) l2 m" and n: "n < N" "N \<le> 2 ^ 18" "N \<le> card (avail m)" and va: "page_aligned va" "va + N * PAGE_SIZE \<le> 2 ^ 48"
    and fl: "page_flags flags" and P: "pages_done l2 va flags m n m'"
    and id: "\<And>j. j < N \<Longrightarrow> is_valid (pages m l2 (level_idx (Suc 0) (va + j * PAGE_SIZE))) \<Longrightarrow>
       \<not> has_table_bit (pages m l2 (level_idx (Suc 0) (va + j * PAGE_SIZE))) \<Longrightarrow>
       desc_addr (pages m l2 (level_idx (Suc 0) (va + j * PAGE_SIZE))) = BLOCK_SIZE * ((va + j * PAGE_SIZE) div BLOCK_SIZE)"
  shows "\<exists>m3. user_page l2 flags (va + n * PAGE_SIZE) m' = Some m3 \<and> pages_done l2 va flags m (Suc n) m3"
proof -
  let ?cur = "va + n * PAGE_SIZE" and ?S = "\<lambda>j. same_page (Suc 0) (va + j * PAGE_SIZE)"
  let ?at = "(flags AND ATTR_MASK) AND NOT DESC_TABLE"
  from P have u: "tree_upd (Suc 0) l2 n (\<Union>j < n. ?S j) m m'"
    and x: "\<forall>j < n. \<forall>va' \<in> ?S j. xlate (Suc 0) (pages m') l2 va' = Some (va + j * PAGE_SIZE + va' mod PAGE_SIZE, ?at)"
    and e: "\<And>j. pages m' l2 j = pages m l2 j \<or> is_table (pages m' l2 j)"
    unfolding pages_done_def by auto
  have ok': "tree_ok (Suc 0) l2 m'" by (rule tree_upd_ok [OF ok u])
  have "0 < card (avail m')" using tree_upd_card [OF u] n by linarith
  then have fr: "avail m' \<noteq> {}" by auto
  have "is_valid (pages m' l2 (level_idx (Suc 0) ?cur)) \<Longrightarrow> \<not> has_table_bit (pages m' l2 (level_idx (Suc 0) ?cur)) \<Longrightarrow>
      desc_addr (pages m' l2 (level_idx (Suc 0) ?cur)) = BLOCK_SIZE * (?cur div BLOCK_SIZE)"
    using e [of "level_idx (Suc 0) ?cur"] id [OF n(1)] by metis
  from user_page_ok [OF ok' fr this, of flags] obtain m3 where m3: "user_page l2 flags ?cur m' = Some m3"
      "tree_upd (Suc 0) l2 1 (?S n) m' m3" "leaf (Suc 0) (pages m3) l2 ?cur = (0, of_nat ?cur OR flags)"
      "\<forall>j. pages m3 l2 j = pages m' l2 j \<or> is_table (pages m3 l2 j)" by blast
  have al: "page_aligned ?cur" using page_aligned_add [OF va(1), of n] by (simp add: mult.commute)
  have "n * PAGE_SIZE < N * PAGE_SIZE" using n(1) by simp
  then have lt: "?cur < 2 ^ 48" using va(2) by linarith
  have "xlate (Suc 0) (pages m3) l2 va' = Some (va + j * PAGE_SIZE + va' mod PAGE_SIZE, ?at)"
    if "j < Suc n" "va' \<in> ?S j" for j va'
  proof (cases "j = n")
    case True
    then show ?thesis using page_xlate [OF m3(3) fl al lt] that(2) by simp
  next
    case False
    then have "j < n" using that(1) by simp
    moreover from this have "va' \<notin> ?S n" using same_page_apart [OF that(2)] n by fastforce
    ultimately show ?thesis using m3(2) x that(2) unfolding tree_upd_def by metis
  qed
  moreover have "tree_upd (Suc 0) l2 (Suc n) (\<Union>j < Suc n. ?S j) m m3"
    by (rule tree_upd_mono [OF tree_upd_trans [OF u m3(2)]]) (auto simp: less_Suc_eq)
  moreover have "\<forall>j. pages m3 l2 j = pages m l2 j \<or> is_table (pages m3 l2 j)" using m3(4) e by metis
  ultimately show ?thesis using m3(1) unfolding pages_done_def by blast
qed

lemma region_range:
  assumes "va div 2 ^ 30 = va' div 2 ^ 30"
  shows "va' \<in> region (Suc 0) va"
proof -
  have "x div 2 ^ 39 = x div 2 ^ 30 div 2 ^ 9" for x :: nat by (simp flip: div_mult2_eq)
  with assms show ?thesis by (simp add: region_def level_idx_def)
qed

lemma region_same_page:
  assumes "va' \<in> region (Suc 0) va" "va' \<in> same_page (Suc 0) cur" "va div 2 ^ 30 = cur div 2 ^ 30" "va' < 2 ^ 48" "cur < 2 ^ 48"
  shows "va' div PAGE_SIZE = cur div PAGE_SIZE"
proof -
  have "level_idx j va' = level_idx j cur" if "j \<le> 3" for j
    using that assms(1,2) region_range [OF assms(3)]
    by (auto simp: region_def same_page_def numeral_3_eq_3 numeral_2_eq_2 le_Suc_eq)
  then have "va' \<in> same_page 3 cur" by (simp add: same_page_def)
  then have "va' div PAGE_SIZE mod 2 ^ 36 = cur div PAGE_SIZE mod 2 ^ 36" unfolding same_page_iff by simp
  moreover have "x div PAGE_SIZE < 2 ^ 36" if "x < 2 ^ 48" for x :: nat using that by (simp add: div_less_iff_less_mult)
  ultimately show ?thesis using assms(4,5) by simp
qed

lemma map_user_pages_unfold:
  "page_aligned va \<Longrightarrow> page_aligned sz \<Longrightarrow>
   ensure_table root (level_idx (Suc (Suc (Suc 0))) va) m = Some (l1, m1) \<Longrightarrow>
   ensure_table l1 (level_idx (Suc (Suc 0)) va) m1 = Some (l2, m2) \<Longrightarrow>
   map_user_pages root va sz flags m =
     foldm (\<lambda>j m. do { cur \<leftarrow> uadd va (j * PAGE_SIZE); user_page l2 flags cur m }) [0..<sz div PAGE_SIZE] m2"
  by (simp add: map_user_pages_def user_page_def page_aligned_def idx_level numeral_3_eq_3 numeral_2_eq_2)

lemma same_gib:
  fixes va sz :: nat
  assumes "va div 2 ^ 30 = (va + sz - 1) div 2 ^ 30" "0 < sz"
  shows "sz \<le> 2 ^ 30" "va \<le> x \<Longrightarrow> x < va + sz \<Longrightarrow> va div 2 ^ 30 = x div 2 ^ 30"
proof -
  have "va + sz - 1 < 2 ^ 30 + (va div 2 ^ 30) * 2 ^ 30"
    using dividend_less_div_times [of "2 ^ 30" "va + sz - 1"] unfolding assms(1) by simp
  moreover have "(va div 2 ^ 30) * 2 ^ 30 \<le> va" by (rule div_times_less_eq_dividend)
  ultimately show "sz \<le> 2 ^ 30" by linarith
  show "va \<le> x \<Longrightarrow> x < va + sz \<Longrightarrow> va div 2 ^ 30 = x div 2 ^ 30"
    using div_le_mono [of va x "2 ^ 30"] div_le_mono [of x "va + sz - 1" "2 ^ 30"] assms(1) by linarith
qed

lemma user_pages_loop:
  assumes ok: "tree_ok (Suc 0) l2 m" and N: "N \<le> 2 ^ 18" "N \<le> card (avail m)" and va: "page_aligned va" "va + N * PAGE_SIZE \<le> 2 ^ 48"
    and fl: "page_flags flags"
    and id: "\<And>j. j < N \<Longrightarrow> is_valid (pages m l2 (level_idx (Suc 0) (va + j * PAGE_SIZE))) \<Longrightarrow>
       \<not> has_table_bit (pages m l2 (level_idx (Suc 0) (va + j * PAGE_SIZE))) \<Longrightarrow>
       desc_addr (pages m l2 (level_idx (Suc 0) (va + j * PAGE_SIZE))) = BLOCK_SIZE * ((va + j * PAGE_SIZE) div BLOCK_SIZE)"
  shows "\<exists>m'. foldm (\<lambda>j m. do { cur \<leftarrow> uadd va (j * PAGE_SIZE); user_page l2 flags cur m }) [0..<N] m = Some m' \<and>
              pages_done l2 va flags m N m'"
proof (rule foldm_upt)
  fix n m' assume n: "n < N" and P: "pages_done l2 va flags m n m'"
  have "n * PAGE_SIZE < N * PAGE_SIZE" using n by simp
  then have "va + n * PAGE_SIZE < USIZE_LIMIT" using va(2) by simp
  then have "do { cur \<leftarrow> uadd va (n * PAGE_SIZE); user_page l2 flags cur m' } = user_page l2 flags (va + n * PAGE_SIZE) m'"
    by (simp add: uadd_def)
  then show "\<exists>m3. do { cur \<leftarrow> uadd va (n * PAGE_SIZE); user_page l2 flags cur m' } = Some m3 \<and> pages_done l2 va flags m (Suc n) m3"
    using pages_done_step [OF ok n N va fl P id] by simp
next
  show "pages_done l2 va flags m 0 m" using tree_upd_refl [OF ok] by (simp add: pages_done_def)
qed

lemma identity_block_l2:
  assumes "leaf (Suc (Suc (Suc 0))) (pages m) root c = leaf (Suc 0) (pages m) l2 c"
    and "is_valid (pages m l2 (level_idx (Suc 0) c))" "\<not> has_table_bit (pages m l2 (level_idx (Suc 0) c))"
    and "\<And>l e. leaf 3 (pages m) root c = (l, e) \<Longrightarrow> is_valid e \<Longrightarrow> l = 0 \<or> l = 1 \<and> desc_addr e = BLOCK_SIZE * (c div BLOCK_SIZE)"
  shows "desc_addr (pages m l2 (level_idx (Suc 0) c)) = BLOCK_SIZE * (c div BLOCK_SIZE)"
proof -
  have "leaf (Suc 0) (pages m) l2 c = (Suc 0, pages m l2 (level_idx (Suc 0) c))" using assms(3) by (intro leaf_block) simp
  with assms show ?thesis by (metis One_nat_def Suc_neq_Zero numeral_3_eq_3)
qed

lemma map_user_pages_run:
  assumes ok: "tree_ok 3 root m" and va: "page_aligned va" "page_aligned sz" "0 < sz" "va + sz \<le> 2 ^ 48"
    and gib: "va div 2 ^ 30 = (va + sz - 1) div 2 ^ 30" and fl: "page_flags flags" and fr: "sz div PAGE_SIZE + 2 \<le> card (avail m)"
    and blk: "\<And>va' l e. va \<le> va' \<Longrightarrow> va' < va + sz \<Longrightarrow> leaf 3 (pages m) root va' = (l, e) \<Longrightarrow> is_valid e \<Longrightarrow>
       l = 0 \<or> l = 1 \<and> desc_addr e = BLOCK_SIZE * (va' div BLOCK_SIZE)"
  obtains l2 m2 m' where "map_user_pages root va sz flags m = Some m'" "pages_done l2 va flags m2 (sz div PAGE_SIZE) m'"
    "tree_upd 3 root 2 {} m m2"
    "\<forall>n A m'. tree_upd (Suc 0) l2 n A m2 m' \<longrightarrow> tree_upd 3 root n (region (Suc 0) va \<inter> A) m2 m' \<and>
        (\<forall>va' \<in> region (Suc 0) va. leaf 3 (pages m') root va' = leaf (Suc 0) (pages m') l2 va')"
proof -
  let ?N = "sz div PAGE_SIZE"
  have N: "sz = ?N * PAGE_SIZE" using va(2) by (auto simp: page_aligned_def)
  have three: "(3 :: nat) = Suc (Suc (Suc 0))" by simp
  have nb: "\<not> is_valid e" if "leaf (Suc (Suc (Suc 0))) (pages m) root va = (l, e)" "Suc 0 < l" for l e
    using blk [of va l e] that va(3) by (auto simp: three)
  have ok3: "tree_ok (Suc (Suc (Suc 0))) root m" and fr2: "2 \<le> card (avail m)" using ok fr by (simp_all add: three)
  obtain l1 m1 l2 m2 where e: "ensure_table root (level_idx (Suc (Suc (Suc 0))) va) m = Some (l1, m1)"
      "ensure_table l1 (level_idx (Suc (Suc 0)) va) m1 = Some (l2, m2)" "tree_upd (Suc (Suc (Suc 0))) root 2 {} m m2"
      "tree_ok (Suc 0) l2 m2"
      "\<forall>n A m'. tree_upd (Suc 0) l2 n A m2 m' \<longrightarrow> tree_upd (Suc (Suc (Suc 0))) root n (region (Suc 0) va \<inter> A) m2 m' \<and>
        (\<forall>va' \<in> region (Suc 0) va. leaf (Suc (Suc (Suc 0))) (pages m') root va' = leaf (Suc 0) (pages m') l2 va')"
      "m2 = m \<or> (\<forall>j < 512. pages m2 l2 j = 0)"
    by (rule ensure_path2 [OF ok3 fr2 nb])
  have id: "desc_addr (pages m2 l2 (level_idx (Suc 0) (va + j * PAGE_SIZE))) = BLOCK_SIZE * ((va + j * PAGE_SIZE) div BLOCK_SIZE)"
    if j: "j < ?N" and b: "is_valid (pages m2 l2 (level_idx (Suc 0) (va + j * PAGE_SIZE)))"
       "\<not> has_table_bit (pages m2 l2 (level_idx (Suc 0) (va + j * PAGE_SIZE)))" for j
  proof -
    let ?c = "va + j * PAGE_SIZE"
    from e(6) b(1) have m2: "m2 = m" using not_valid_0 level_idx_lt by metis
    have "j * PAGE_SIZE < sz" using j by (subst N) simp
    then have c: "va \<le> ?c" "?c < va + sz" by auto
    have "leaf (Suc (Suc (Suc 0))) (pages m) root ?c = leaf (Suc 0) (pages m) l2 ?c"
      using e(5) tree_upd_refl [OF e(4)] region_range [OF same_gib(2) [OF gib va(3) c]] unfolding m2 by blast
    then show ?thesis using b blk [OF c] unfolding m2 by (rule identity_block_l2)
  qed
  have "?N \<le> 2 ^ 18" using same_gib(1) [OF gib va(3)] by simp
  moreover have "?N \<le> card (avail m2)" using tree_upd_card [OF e(3)] fr by simp
  moreover have "va + ?N * PAGE_SIZE \<le> 2 ^ 48" using va(4) N by simp
  ultimately obtain m' where m': "foldm (\<lambda>j m. do { cur \<leftarrow> uadd va (j * PAGE_SIZE); user_page l2 flags cur m }) [0..<?N] m2 = Some m'"
      "pages_done l2 va flags m2 ?N m'" using user_pages_loop [OF e(4) _ _ va(1) _ fl id] by blast
  then have "map_user_pages root va sz flags m = Some m'" by (simp only: map_user_pages_unfold [OF va(1,2) e(1,2)])
  with that m'(2) e(3,5) show ?thesis unfolding three by blast
qed

lemma page_in_range:
  assumes "page_aligned va" "page_aligned sz" "va \<le> va'" "va' < va + sz"
  obtains j where "j < sz div PAGE_SIZE" "va' \<in> same_page (Suc 0) (va + j * PAGE_SIZE)" "va + j * PAGE_SIZE + va' mod PAGE_SIZE = va'"
proof -
  obtain a where a: "va = a * PAGE_SIZE" using assms(1) by (auto simp: page_aligned_def mult.commute)
  obtain b where b: "sz = b * PAGE_SIZE" using assms(2) by (auto simp: page_aligned_def mult.commute)
  let ?j = "va' div PAGE_SIZE - a"
  have le: "a \<le> va' div PAGE_SIZE" using div_le_mono [OF assms(3), of PAGE_SIZE] by (simp add: a)
  have lt: "va' div PAGE_SIZE < a + b" using assms(4) a b by (simp add: div_less_iff_less_mult algebra_simps)
  have "(va + ?j * PAGE_SIZE) = va' div PAGE_SIZE * PAGE_SIZE" using le by (simp add: a diff_mult_distrib)
  then have "va + ?j * PAGE_SIZE + va' mod PAGE_SIZE = va'" "va' \<in> same_page (Suc 0) (va + ?j * PAGE_SIZE)"
    by (simp_all add: same_page_iff)
  moreover have "?j < sz div PAGE_SIZE" using le lt b by simp
  ultimately show ?thesis using that by blast
qed

lemma same_page_div:
  assumes "va' div PAGE_SIZE = (va + j * PAGE_SIZE) div PAGE_SIZE" "page_aligned va" "page_aligned sz" "j < sz div PAGE_SIZE"
  shows "va \<le> va' \<and> va' < va + sz"
proof -
  obtain a where a: "va = a * PAGE_SIZE" using assms(2) by (auto simp: page_aligned_def mult.commute)
  obtain b where b: "sz = b * PAGE_SIZE" using assms(3) by (auto simp: page_aligned_def mult.commute)
  have "va' div PAGE_SIZE = a + j" using assms(1) by (simp add: a)
  then have "va' = (a + j) * PAGE_SIZE + va' mod PAGE_SIZE" by (metis div_mult_mod_eq)
  moreover have "j < b" using assms(4) b by simp
  moreover have "va' mod PAGE_SIZE < PAGE_SIZE" by simp
  ultimately show ?thesis by (simp add: a b)
qed

lemma map_user_pages_ok:
  assumes ok: "tree_ok 3 root m" and va: "page_aligned va" "page_aligned sz" "0 < sz" "va + sz \<le> 2 ^ 48"
    and gib: "va div 2 ^ 30 = (va + sz - 1) div 2 ^ 30" and fl: "page_flags flags" and fr: "sz div PAGE_SIZE + 2 \<le> card (avail m)"
    and blk: "\<And>va' l e. va \<le> va' \<Longrightarrow> va' < va + sz \<Longrightarrow> leaf 3 (pages m) root va' = (l, e) \<Longrightarrow> is_valid e \<Longrightarrow>
       l = 0 \<or> l = 1 \<and> desc_addr e = BLOCK_SIZE * (va' div BLOCK_SIZE)"
  shows "\<exists>m' A. map_user_pages root va sz flags m = Some m' \<and> tree_upd 3 root (2 + sz div PAGE_SIZE) A m m' \<and>
     (\<forall>va' < 2 ^ 48. xlate 3 (pages m') root va' =
        (if va \<le> va' \<and> va' < va + sz then Some (va', (flags AND ATTR_MASK) AND NOT DESC_TABLE)
         else xlate 3 (pages m) root va'))"
proof -
  let ?N = "sz div PAGE_SIZE" and ?S = "\<lambda>j. same_page (Suc 0) (va + j * PAGE_SIZE)"
  obtain l2 m2 m' where r: "map_user_pages root va sz flags m = Some m'" "pages_done l2 va flags m2 ?N m'"
      "tree_upd 3 root 2 {} m m2"
      "\<forall>n A m'. tree_upd (Suc 0) l2 n A m2 m' \<longrightarrow> tree_upd 3 root n (region (Suc 0) va \<inter> A) m2 m' \<and>
        (\<forall>va' \<in> region (Suc 0) va. leaf 3 (pages m') root va' = leaf (Suc 0) (pages m') l2 va')"
    by (rule map_user_pages_run [OF ok va gib fl fr blk])
  let ?A = "region (Suc 0) va \<inter> (\<Union>j < ?N. ?S j)"
  have lift: "tree_upd 3 root ?N ?A m2 m'" "\<And>va'. va' \<in> region (Suc 0) va \<Longrightarrow> leaf 3 (pages m') root va' = leaf (Suc 0) (pages m') l2 va'"
    using r(2,4) unfolding pages_done_def by blast+
  have upd: "tree_upd 3 root (2 + ?N) ?A m m'" using tree_upd_trans [OF r(3) lift(1)] by simp
  have "xlate 3 (pages m') root va' = Some (va', (flags AND ATTR_MASK) AND NOT DESC_TABLE)"
    if in_range: "va \<le> va'" "va' < va + sz" for va'
  proof -
    obtain j where j: "j < ?N" "va' \<in> ?S j" "va + j * PAGE_SIZE + va' mod PAGE_SIZE = va'"
      by (rule page_in_range [OF va(1,2) in_range])
    have "xlate 3 (pages m') root va' = xlate (Suc 0) (pages m') l2 va'"
      by (rule xlate_leaf) (rule lift(2) [OF region_range [OF same_gib(2) [OF gib va(3) in_range]]])
    then show ?thesis using r(2) j unfolding pages_done_def by metis
  qed
  moreover have "xlate 3 (pages m') root va' = xlate 3 (pages m) root va'"
    if lt: "va' < 2 ^ 48" and out: "\<not> (va \<le> va' \<and> va' < va + sz)" for va'
  proof -
    have "va' \<notin> ?A"
    proof
      assume "va' \<in> ?A"
      then obtain j where j: "va' \<in> region (Suc 0) va" "j < ?N" "va' \<in> ?S j" by blast
      have "va \<le> va + j * PAGE_SIZE \<and> va + j * PAGE_SIZE < va + sz" by (rule same_page_div [OF refl va(1,2) j(2)])
      then have "va' div PAGE_SIZE = (va + j * PAGE_SIZE) div PAGE_SIZE"
        using region_same_page [OF j(1,3) same_gib(2) [OF gib va(3)] lt] va(4) by auto
      from same_page_div [OF this va(1,2) j(2)] out show False by blast
    qed
    then show ?thesis using upd unfolding tree_upd_def by metis
  qed
  ultimately show ?thesis using r(1) upd by auto
qed

lemma map_user_frame_ok:
  assumes "tree_ok 3 root m" "page_aligned va" "page_aligned pa" "open_at 3 (pages m) root va" "3 \<le> card (avail m)"
  shows "\<exists>m'. map_user_frame root va pa flags m = Some m' \<and> tree_upd 3 root 3 (same_page 3 va) m m' \<and>
              leaf 3 (pages m') root va = (0, of_nat pa OR flags)"
proof -
  have "fst (leaf k pg t va) \<le> k" for k pg t
    by (induction k arbitrary: t) (auto simp: leaf_Suc subleaf_def le_Suc_eq)
  then have l: "fst (leaf 3 (pages m) root va) \<le> 3" .
  then obtain m' where "map_at 3 root va (of_nat pa OR flags) m = Some m'"
      "tree_upd 3 root (fst (leaf 3 (pages m) root va)) (same_page 3 va) m m'" "leaf 3 (pages m') root va = (0, of_nat pa OR flags)"
    using map_at_ok [OF assms(1,4), of "of_nat pa OR flags"] assms(5) by force
  then show ?thesis using tree_upd_mono [of 3 root _ _ m m' 3] l
    unfolding map_user_frame_map_at [OF assms(2,3)] by blast
qed

lemma map_user_frame_block:
  assumes "page_aligned va" "page_aligned pa" "leaf 3 (pages m) root va = (1, e)" "is_valid e"
  shows "map_user_frame root va pa flags m = Some (set_entry (desc_addr e) (l3_idx va) (of_nat pa OR flags) m)"
  unfolding map_user_frame_map_at [OF assms(1,2)] using assms(3,4)
  by (auto simp: idx_level leaf_Suc subleaf_def numeral_3_eq_3 numeral_2_eq_2 ensure_table_def entry_def Let_def split: if_splits)

section \<open>A boot state\<close>

lemma subtables_upto_none: "(\<And>j. j < n \<Longrightarrow> \<not> is_table (pg t j)) \<Longrightarrow> subtables_upto k pg t n = []"
  by (auto simp: subtables_upto_def subtables_def)

lemma subtables_upto_single:
  "i < n \<Longrightarrow> (\<And>j. j < n \<Longrightarrow> j \<noteq> i \<Longrightarrow> \<not> is_table (pg t j)) \<Longrightarrow> subtables_upto k pg t n = subtables k pg (pg t i)"
proof (induction n)
  case (Suc n)
  show ?case
  proof (cases "i = n")
    case True
    have "subtables_upto k pg t n = []" using Suc.prems True by (intro subtables_upto_none) auto
    with True show ?thesis by simp
  next
    case False
    then have "subtables k pg (pg t n) = []" using Suc.prems(2) [of n] by (auto simp: subtables_def)
    with False Suc show ?thesis by simp
  qed
qed simp

lemma boot_table_desc:
  "is_table (of_nat 0x40101000 OR DESC_VALID OR DESC_TABLE)" "desc_addr (of_nat 0x40101000 OR DESC_VALID OR DESC_TABLE) = 0x40101000"
  "is_table (of_nat 0x40102000 OR DESC_VALID OR DESC_TABLE)" "desc_addr (of_nat 0x40102000 OR DESC_VALID OR DESC_TABLE) = 0x40102000"
  by (intro conjI table_desc; simp add: page_aligned_def)+

lemma block_flags: "\<not> has_table_bit FLAGS_BLOCK_NORMAL" "is_valid FLAGS_BLOCK_NORMAL" "FLAGS_BLOCK_NORMAL AND ADDR_MASK = 0"
  by (simp_all add: flags_defs desc_defs has_table_bit_def is_valid_def)

lemma boot_block:
  assumes "i < 256"
  shows "is_valid (of_nat (0x40000000 + i * BLOCK_SIZE) OR FLAGS_BLOCK_NORMAL)"
    "\<not> has_table_bit (of_nat (0x40000000 + i * BLOCK_SIZE) OR FLAGS_BLOCK_NORMAL)"
    "desc_addr (of_nat (0x40000000 + i * BLOCK_SIZE) OR FLAGS_BLOCK_NORMAL) = 0x40000000 + i * BLOCK_SIZE"
proof -
  have al: "page_aligned (0x40000000 + i * BLOCK_SIZE)" by (simp add: page_aligned_def)
  show "is_valid (of_nat (0x40000000 + i * BLOCK_SIZE) OR FLAGS_BLOCK_NORMAL)"
    "\<not> has_table_bit (of_nat (0x40000000 + i * BLOCK_SIZE) OR FLAGS_BLOCK_NORMAL)"
    using block_flags or_bit_low [OF al] unfolding is_valid_bit has_table_bit_bit by simp_all
  show "desc_addr (of_nat (0x40000000 + i * BLOCK_SIZE) OR FLAGS_BLOCK_NORMAL) = 0x40000000 + i * BLOCK_SIZE"
    using assms by (intro desc_addr_or [OF al _ block_flags(3)]) simp
qed

lemma boot_tables: "tables 3 boot_pages 0x40100000 = [0x40100000, 0x40101000, 0x40102000]"
proof -
  have l2: "tables (Suc 0) boot_pages 0x40102000 = [0x40102000]"
  proof -
    have "\<not> is_table (boot_pages 0x40102000 j)" for j using boot_block(2) [of j] by (simp add: boot_pages_def)
    then show ?thesis unfolding tables_Suc by (subst subtables_upto_none) auto
  qed
  have l1: "tables (Suc (Suc 0)) boot_pages 0x40101000 = [0x40101000, 0x40102000]"
    using boot_table_desc l2 subtables_upto_single [of 1 512 boot_pages "0x40101000" "Suc 0"]
    by (simp add: tables_Suc subtables_def boot_pages_def del: of_nat_numeral)
  then show ?thesis
    using boot_table_desc subtables_upto_single [of 0 512 boot_pages "0x40100000" "Suc (Suc 0)"]
    by (simp add: numeral_3_eq_3 tables_Suc subtables_def boot_pages_def del: of_nat_numeral)
qed

lemma boot_leaf:
  assumes "0x40000000 \<le> va" "va < 0x60000000"
  shows "leaf 3 boot_pages 0x40100000 va = (1, of_nat (BLOCK_SIZE * (va div BLOCK_SIZE)) OR FLAGS_BLOCK_NORMAL)"
proof -
  have "512 \<le> va div 2 ^ 21" "va div 2 ^ 21 < 768"
    using assms by (simp_all add: less_eq_div_iff_mult_less_eq div_less_iff_less_mult)
  then obtain r where r: "va div 2 ^ 21 = 512 + r" "r < 256" by (auto simp: le_iff_add)
  then have l1: "level_idx 1 va = r" by (simp add: level_idx_def)
  have "va div 2 ^ 30 = va div 2 ^ 21 div 2 ^ 9" by (simp flip: div_mult2_eq)
  then have "va div 2 ^ 30 = 1" using r by simp
  moreover have "va div 2 ^ 39 = 0" using assms by simp
  ultimately have "level_idx 2 va = 1" "level_idx 3 va = 0" by (simp_all add: level_idx_def)
  moreover have "0x40000000 + r * BLOCK_SIZE = BLOCK_SIZE * (va div BLOCK_SIZE)" using r by simp
  ultimately have i: "level_idx 3 va = 0" "level_idx 2 va = 1" "level_idx 1 va < 256"
      "0x40000000 + level_idx 1 va * BLOCK_SIZE = BLOCK_SIZE * (va div BLOCK_SIZE)" using l1 r(2) by simp_all
  show ?thesis using i boot_table_desc boot_block [OF i(3)]
    by (simp add: numeral_3_eq_3 numeral_2_eq_2 leaf_Suc subleaf_def boot_pages_def del: of_nat_numeral)
qed

lemma boot_kmem_ok:
  "\<exists>fa. init 0x40300000 0x40000000 0x20000000 new_zeroed = Some fa \<and> tree_ok 3 0x40100000 (boot_kmem fa) \<and>
        card (avail (boot_kmem fa)) = 130304 \<and> (\<forall>a \<in> avail (boot_kmem fa). 0x40300000 \<le> a \<and> a < 0x60000000)"
proof -
  obtain fa where fa: "init 0x40300000 0x40000000 0x20000000 new_zeroed = Some fa" "frame_inv fa"
      "ram_start fa = 0x40000000" "ram_size fa = 0x20000000" "free_set fa = {768..<131072}"
    using boot_frames by blast
  have av: "avail (boot_kmem fa) = frame_addr fa ` {768..<131072}" by (simp add: avail_def boot_kmem_def free_addrs_def fa)
  then have lo: "\<forall>a \<in> avail (boot_kmem fa). 0x40300000 \<le> a \<and> a < 0x60000000" by (auto simp: frame_addr_def fa(3))
  have "card (avail (boot_kmem fa)) = 130304" unfolding av by (subst card_image) (auto simp: inj_on_def)
  moreover have "kmem_ok (boot_kmem fa)"
    using fa frame_addrs_aligned [OF fa(2)] by (fastforce simp: kmem_ok_def managed_def boot_kmem_def)
  then have "tree_ok 3 0x40100000 (boot_kmem fa)" using lo by (auto simp: tree_ok_def boot_kmem_def boot_tables)
  ultimately show ?thesis using fa(1) lo by blast
qed

lemma boot_identity:
  assumes "0x40000000 \<le> va" "va < 0x60000000" "leaf 3 boot_pages 0x40100000 va = (l, e)"
  shows "l = 1" "is_valid e" "desc_addr e = BLOCK_SIZE * (va div BLOCK_SIZE)"
proof -
  let ?b = "BLOCK_SIZE * (va div BLOCK_SIZE)"
  have al: "page_aligned ?b" by (simp add: page_aligned_def flip: mod_mult_mult1)
  have "?b \<le> va" by simp
  then have "?b < 2 ^ 48" by (rule le_less_trans) (use assms(2) in simp)
  from desc_addr_or [OF al this block_flags(3)] or_bit_low [OF al, of 0 FLAGS_BLOCK_NORMAL] block_flags(2)
  show "l = 1" "is_valid e" "desc_addr e = ?b"
    using boot_leaf [OF assms(1,2)] assms(3) by (simp_all add: is_valid_bit del: of_nat_mult of_nat_numeral)
qed

lemma user_flags: "page_flags FLAGS_USER_RWX" "page_flags FLAGS_USER_DEVICE" "page_flags FLAGS_USER_COW"
  by (simp_all add: page_flags_def flags_defs desc_defs has_table_bit_def is_valid_def)

section \<open>Properties\<close>

text \<open>
  C7.  A new task's address space is the kernel's.  With enough free frames \<open>clone_kernel_table\<close>
  returns a root whose walk ends, for every virtual address, in the very descriptor the kernel's
  walk ends in; its tables are pairwise distinct frames taken from the pool, no other page of
  memory changes, and exactly those frames left the pool.
\<close>

theorem clone_kernel_table_same:
  assumes "tree_ok 3 (kernel_l0 m) m" "length (tables 3 (pages m) (kernel_l0 m)) \<le> card (avail m)"
  shows "\<exists>root m'. clone_kernel_table m = Some (root, m') \<and> tree_ok 3 root m' \<and>
     (\<forall>va. leaf 3 (pages m') root va = leaf 3 (pages m) (kernel_l0 m) va) \<and>
     set (tables 3 (pages m') root) \<subseteq> avail m \<and> avail m' = avail m - set (tables 3 (pages m') root) \<and>
     (\<forall>p. p \<notin> set (tables 3 (pages m') root) \<longrightarrow> pages m' p = pages m p)"
proof -
  from assms obtain root m' where "clone_level 3 (kernel_l0 m) m = Some (root, m')" "cloned 3 (kernel_l0 m) m root m'"
    using clone_ok [of m 3 "kernel_l0 m"] by (auto simp: tree_ok_def)
  then show ?thesis by (auto simp: clone_kernel_table_def cloned_def tree_ok_def taken_def)
qed

theorem clone_kernel_table_same_witness:
  "\<exists>fa root m'. init 0x40300000 0x40000000 0x20000000 new_zeroed = Some fa \<and>
     clone_kernel_table (boot_kmem fa) = Some (root, m') \<and>
     leaf 3 (pages m') root 0x40200123 = (1, of_nat 0x40200000 OR FLAGS_BLOCK_NORMAL)"
proof -
  obtain fa where fa: "init 0x40300000 0x40000000 0x20000000 new_zeroed = Some fa" "tree_ok 3 0x40100000 (boot_kmem fa)"
      "card (avail (boot_kmem fa)) = 130304" using boot_kmem_ok by blast
  then have "tree_ok 3 (kernel_l0 (boot_kmem fa)) (boot_kmem fa)"
      "length (tables 3 (pages (boot_kmem fa)) (kernel_l0 (boot_kmem fa))) \<le> card (avail (boot_kmem fa))"
    by (simp_all add: boot_kmem_def boot_tables)
  from clone_kernel_table_same [OF this] fa(1) boot_leaf [of "0x40200123"] show ?thesis
    by (auto simp: boot_kmem_def)
qed



text \<open>
  C25.  Mapping one frame.  Where no block covers the address, \<open>map_user_frame\<close> makes the walk of every
  address of that page end in the given descriptor, leaves the translation of every other page alone,
  and does not touch any other task's tree.
\<close>

theorem map_user_frame_exact:
  assumes "tree_ok 3 root m" "page_aligned va" "page_aligned pa" "open_at 3 (pages m) root va" "3 \<le> card (avail m)"
  shows "\<exists>m'. map_user_frame root va pa flags m = Some m' \<and> tree_ok 3 root m' \<and>
     (\<forall>va'. if va' div PAGE_SIZE mod 2 ^ 36 = va div PAGE_SIZE mod 2 ^ 36
            then leaf 3 (pages m') root va' = (0, of_nat pa OR flags)
            else xlate 3 (pages m') root va' = xlate 3 (pages m) root va') \<and>
     (\<forall>other va'. set (tables 3 (pages m) other) \<inter> (set (tables 3 (pages m) root) \<union> avail m) = {} \<longrightarrow>
        leaf 3 (pages m') other va' = leaf 3 (pages m) other va')"
proof -
  obtain m' where m': "map_user_frame root va pa flags m = Some m'" "tree_upd 3 root 3 (same_page 3 va) m m'"
      "leaf 3 (pages m') root va = (0, of_nat pa OR flags)"
    using map_user_frame_ok [OF assms] by blast
  have sp: "va' \<in> same_page 3 va \<longleftrightarrow> va' div PAGE_SIZE mod 2 ^ 36 = va div PAGE_SIZE mod 2 ^ 36" for va'
    unfolding same_page_iff by simp
  have "if va' \<in> same_page 3 va then leaf 3 (pages m') root va' = (0, of_nat pa OR flags)
        else xlate 3 (pages m') root va' = xlate 3 (pages m) root va'" for va'
    using m'(2,3) leaf_same_page [of va' 3 va "pages m'" root] unfolding tree_upd_def by auto
  then show ?thesis using m'(1) tree_upd_ok [OF assms(1) m'(2)] tree_upd_frame(1) [OF m'(2)] unfolding sp by blast
qed

theorem map_user_frame_exact_witness:
  "\<exists>fa m'. init 0x40300000 0x40000000 0x20000000 new_zeroed = Some fa \<and>
     map_user_frame 0x40100000 0x200000000 0x40103000 FLAGS_USER_COW (boot_kmem fa) = Some m' \<and>
     leaf 3 (pages m') 0x40100000 0x200000abc = (0, of_nat 0x40103000 OR FLAGS_USER_COW)"
proof -
  obtain fa where fa: "init 0x40300000 0x40000000 0x20000000 new_zeroed = Some fa" "tree_ok 3 0x40100000 (boot_kmem fa)"
      "card (avail (boot_kmem fa)) = 130304" using boot_kmem_ok by blast
  have "open_at 3 (pages (boot_kmem fa)) 0x40100000 0x200000000"
    using boot_table_desc
    by (simp add: open_at_def numeral_3_eq_3 leaf_Suc subleaf_def boot_kmem_def boot_pages_def level_idx_def del: of_nat_numeral)
  from map_user_frame_exact [OF fa(2) _ _ this, of "0x40103000" FLAGS_USER_COW] fa obtain m' where m':
      "map_user_frame 0x40100000 0x200000000 0x40103000 FLAGS_USER_COW (boot_kmem fa) = Some m'"
      "\<forall>va'. if va' div PAGE_SIZE mod 2 ^ 36 = 0x200000000 div PAGE_SIZE mod 2 ^ 36
            then leaf 3 (pages m') 0x40100000 va' = (0, of_nat 0x40103000 OR FLAGS_USER_COW)
            else xlate 3 (pages m') 0x40100000 va' = xlate 3 (pages (boot_kmem fa)) 0x40100000 va'"
    by (auto simp: page_aligned_def)
  have "leaf 3 (pages m') 0x40100000 0x200000abc = (0, of_nat 0x40103000 OR FLAGS_USER_COW)"
    using spec [OF m'(2), of "0x200000abc"] by simp
  with fa(1) m'(1) show ?thesis by blast
qed

text \<open>
  C29.  Where a 2 MiB block covers the address, \<open>map_user_frame\<close> does not map the page: it takes the
  block's first page for a table and writes the descriptor into the memory there, and the walk of the
  address still ends in the block.
\<close>

theorem map_user_frame_hits_block:
  assumes "tree_ok 3 root m" "page_aligned va" "page_aligned pa" "leaf 3 (pages m) root va = (1, e)" "is_valid e"
    and "desc_addr e \<notin> set (tables 3 (pages m) root)"
  shows "\<exists>m'. map_user_frame root va pa flags m = Some m' \<and> leaf 3 (pages m') root va = (1, e) \<and>
              pages m' (desc_addr e) (l3_idx va) = of_nat pa OR flags"
proof -
  let ?m' = "set_entry (desc_addr e) (l3_idx va) (of_nat pa OR flags) m"
  have "leaf 3 (pages ?m') root va = leaf 3 (pages m) root va" by (rule leaf_cong) (use assms(6) in auto)
  then show ?thesis using map_user_frame_block [OF assms(2-5), of flags] assms(4) by simp
qed

theorem map_user_frame_hits_block_witness:
  "\<exists>fa m'. init 0x40300000 0x40000000 0x20000000 new_zeroed = Some fa \<and>
     map_user_frame 0x40100000 0x50001000 0x40103000 FLAGS_USER_COW (boot_kmem fa) = Some m' \<and>
     pages m' 0x50000000 1 = of_nat 0x40103000 OR FLAGS_USER_COW \<and>
     leaf 3 (pages m') 0x40100000 0x50001000 = leaf 3 boot_pages 0x40100000 0x50001000"
proof -
  obtain fa where fa: "init 0x40300000 0x40000000 0x20000000 new_zeroed = Some fa" "tree_ok 3 0x40100000 (boot_kmem fa)"
    using boot_kmem_ok by blast
  obtain e where e: "leaf 3 boot_pages 0x40100000 0x50001000 = (1, e)" "is_valid e" "desc_addr e = 0x50000000"
    using boot_identity [of "0x50001000"] by (cases "leaf 3 boot_pages 0x40100000 0x50001000") auto
  have "\<exists>m'. map_user_frame 0x40100000 0x50001000 0x40103000 FLAGS_USER_COW (boot_kmem fa) = Some m' \<and>
      leaf 3 (pages m') 0x40100000 0x50001000 = (1, e) \<and> pages m' (desc_addr e) (l3_idx 0x50001000) = of_nat 0x40103000 OR FLAGS_USER_COW"
    by (rule map_user_frame_hits_block [OF fa(2)]) (simp_all add: e boot_kmem_def boot_tables page_aligned_def)
  then show ?thesis using fa(1) e(1,3) by (auto simp: l3_idx_def)
qed

text \<open>
  C8.  No table frame leaks over a task's life: cloning the kernel table, opening a user region in the
  clone and releasing the clone's tables returns the pool to exactly what it was.
\<close>

theorem task_tables_released:
  assumes "tree_ok 3 (kernel_l0 m) m" "length (tables 3 (pages m) (kernel_l0 m)) \<le> card (avail m)"
    and "clone_kernel_table m = Some (root, m1)" "page_aligned va" "page_aligned sz" "0 < sz" "va + sz \<le> 2 ^ 48"
    and "va div 2 ^ 30 = (va + sz - 1) div 2 ^ 30" "page_flags flags" "sz div PAGE_SIZE + 2 \<le> card (avail m1)"
    and "\<And>va' l e. va \<le> va' \<Longrightarrow> va' < va + sz \<Longrightarrow> leaf 3 (pages m) (kernel_l0 m) va' = (l, e) \<Longrightarrow> is_valid e \<Longrightarrow>
       l = 0 \<or> l = 1 \<and> desc_addr e = BLOCK_SIZE * (va' div BLOCK_SIZE)"
  shows "\<exists>m2 m3. map_user_pages root va sz flags m1 = Some m2 \<and> free_task_tables root m2 = Some m3 \<and>
                 kmem_ok m3 \<and> avail m3 = avail m"
proof -
  from assms(1-3) have c: "cloned 3 (kernel_l0 m) m root m1"
    using clone_ok [of m 3 "kernel_l0 m"] by (auto simp: tree_ok_def clone_kernel_table_def)
  then have t1: "tree_ok 3 root m1" "set (tables 3 (pages m1) root) \<subseteq> avail m" "avail m1 = avail m - set (tables 3 (pages m1) root)"
      "managed m1 = managed m" "kernel_l0 m1 = kernel_l0 m" "\<And>va. leaf 3 (pages m1) root va = leaf 3 (pages m) (kernel_l0 m) va"
    by (auto simp: cloned_def tree_ok_def taken_def)
  obtain m2 A where m2: "map_user_pages root va sz flags m1 = Some m2" "tree_upd 3 root (2 + sz div PAGE_SIZE) A m1 m2"
    using map_user_pages_ok [OF t1(1) assms(4-10)] assms(11) unfolding t1(6) by blast
  then obtain X where X: "taken X m1 m2" "set (tables 3 (pages m2) root) = set (tables 3 (pages m1) root) \<union> X"
    by (auto simp: tree_upd_def)
  have "set (tables 3 (pages m2) root) \<subseteq> managed m2"
    using X t1(2-4) km.avail_managed [of m] by (auto simp: taken_def)
  moreover have "kmem_ok m2" using X(1) by (simp add: taken_def)
  ultimately obtain m3 where m3: "free_walk 3 root m2 = Some m3" "kmem_ok m3" "avail m3 = avail m2 \<union> set (tables 3 (pages m2) root)"
    using free_walk_ok [of m2 3 root] by blast
  have "root \<in> avail m" using t1(2) tables_root by blast
  then have "root \<noteq> kernel_l0 m2" using assms(1) tables_root t1(5) X(1) unfolding tree_ok_def taken_def by (metis IntI empty_iff)
  then have "free_task_tables root m2 = Some m3" using m3(1) by (simp add: free_task_tables_def)
  moreover have "avail m3 = avail m" using m3(3) X t1(2,3) by (auto simp: taken_def)
  ultimately show ?thesis using m2(1) m3(2) by blast
qed

theorem task_tables_released_witness:
  "\<exists>fa root m1 m2 m3. init 0x40300000 0x40000000 0x20000000 new_zeroed = Some fa \<and>
     clone_kernel_table (boot_kmem fa) = Some (root, m1) \<and>
     map_user_pages root 0x50000000 0x10000 FLAGS_USER_RWX m1 = Some m2 \<and> free_task_tables root m2 = Some m3 \<and>
     avail m3 = avail (boot_kmem fa)"
proof -
  obtain fa where fa: "init 0x40300000 0x40000000 0x20000000 new_zeroed = Some fa" "tree_ok 3 0x40100000 (boot_kmem fa)"
      "card (avail (boot_kmem fa)) = 130304" using boot_kmem_ok by blast
  then have pre: "tree_ok 3 (kernel_l0 (boot_kmem fa)) (boot_kmem fa)"
      "length (tables 3 (pages (boot_kmem fa)) (kernel_l0 (boot_kmem fa))) \<le> card (avail (boot_kmem fa))"
    by (simp_all add: boot_kmem_def boot_tables)
  then obtain root m1 where c: "clone_level 3 (kernel_l0 (boot_kmem fa)) (boot_kmem fa) = Some (root, m1)"
      "cloned 3 (kernel_l0 (boot_kmem fa)) (boot_kmem fa) root m1"
    using clone_ok [of "boot_kmem fa" 3 "kernel_l0 (boot_kmem fa)"] by (auto simp: tree_ok_def)
  from c(2) have "card (set (tables 3 (pages m1) root)) = 3" "avail m1 = avail (boot_kmem fa) - set (tables 3 (pages m1) root)"
      "set (tables 3 (pages m1) root) \<subseteq> avail (boot_kmem fa)"
    by (auto simp: cloned_def taken_def distinct_card boot_kmem_def boot_tables)
  then have "card (avail m1) = 130301" using fa(3) by (simp add: card_Diff_subset)
  moreover have blk: "l = 0 \<or> l = 1 \<and> desc_addr e = BLOCK_SIZE * (va' div BLOCK_SIZE)"
    if "0x50000000 \<le> va'" "va' < 0x50000000 + 0x10000" "leaf 3 (pages (boot_kmem fa)) (kernel_l0 (boot_kmem fa)) va' = (l, e)" for va' l e
    using that boot_identity [of va' l e] by (simp add: boot_kmem_def)
  ultimately have "\<exists>m2 m3. map_user_pages root 0x50000000 0x10000 FLAGS_USER_RWX m1 = Some m2 \<and> free_task_tables root m2 = Some m3 \<and>
                 kmem_ok m3 \<and> avail m3 = avail (boot_kmem fa)"
    using c(1) by (intro task_tables_released [OF pre _ _ _ _ _ _ user_flags(1) _ blk]) (simp_all add: clone_kernel_table_def page_aligned_def)
  then show ?thesis using fa(1) c(1) unfolding clone_kernel_table_def by blast
qed

end
