(* ===== verification/User_Mem.thy ===== *)
theory User_Mem
  imports Page_Table
begin

text \<open>
  Loads and stores of the kernel.  A pointer the kernel made itself is a physical address (the
  kernel's tables map every page to itself); a pointer a task handed over is a virtual address of the
  active table, so the access is translated and checked as the MMU does at EL1: the descriptor must
  be valid, its access flag set, and a store needs it writable (bit 7 clear).  An access that is
  refused traps to the current-EL synchronous vector, whose handler
  (\<^verbatim>\<open>kernel/src/arch/aarch64/exception.rs\<close>, \<^verbatim>\<open>exception_handler\<close>) panics: it is \<open>None\<close>.

  Memory is the page-indexed function of \<^theory_text>\<open>Page_Table\<close>; the accesses of 8 and 32 bits are fields of
  its words, little endian.  The last part is the \<^verbatim>\<open>Message\<close> of \<^verbatim>\<open>kernel/src/sched/mod.rs\<close> in memory.
\<close>

section \<open>Physical accesses\<close>

definition get_field :: "nat \<Rightarrow> nat \<Rightarrow> u64 \<Rightarrow> u64" where
  "get_field off n w = take_bit n (drop_bit off w)"

definition put_field :: "nat \<Rightarrow> nat \<Rightarrow> u64 \<Rightarrow> u64 \<Rightarrow> u64" where
  "put_field off n v w = (w AND NOT (push_bit off (mask n))) OR push_bit off (take_bit n v)"

definition word_idx :: "phys_addr \<Rightarrow> nat" where
  "word_idx pa = pa mod PAGE_SIZE div 8"

definition pload64 :: "phys_addr \<Rightarrow> kmem \<Rightarrow> u64" where
  "pload64 pa m = entry (page_down pa) (word_idx pa) m"

definition pstore64 :: "phys_addr \<Rightarrow> u64 \<Rightarrow> kmem \<Rightarrow> kmem" where
  "pstore64 pa v m = set_entry (page_down pa) (word_idx pa) v m"

definition pload8 :: "phys_addr \<Rightarrow> kmem \<Rightarrow> u8" where
  "pload8 pa m = ucast (get_field (8 * (pa mod 8)) 8 (pload64 pa m))"

definition pstore8 :: "phys_addr \<Rightarrow> u8 \<Rightarrow> kmem \<Rightarrow> kmem" where
  "pstore8 pa v m = pstore64 pa (put_field (8 * (pa mod 8)) 8 (ucast v) (pload64 pa m)) m"

definition pload32 :: "phys_addr \<Rightarrow> kmem \<Rightarrow> u32" where
  "pload32 pa m = ucast (get_field (32 * (pa div 4 mod 2)) 32 (pload64 pa m))"

definition pstore32 :: "phys_addr \<Rightarrow> u32 \<Rightarrow> kmem \<Rightarrow> kmem" where
  "pstore32 pa v m = pstore64 pa (put_field (32 * (pa div 4 mod 2)) 32 (ucast v) (pload64 pa m)) m"

text \<open>\<^verbatim>\<open>ptr::write_bytes\<close>, a slice copied to memory, and a run of bytes read back.\<close>

definition pstore_bytes :: "phys_addr \<Rightarrow> u8 list \<Rightarrow> kmem \<Rightarrow> kmem" where
  "pstore_bytes pa bs m = fold (\<lambda>i. pstore8 (pa + i) (bs ! i)) [0..<length bs] m"

definition pload_bytes :: "phys_addr \<Rightarrow> nat \<Rightarrow> kmem \<Rightarrow> u8 list" where
  "pload_bytes pa n m = map (\<lambda>i. pload8 (pa + i) m) [0..<n]"

text \<open>A run of frames from the pool.\<close>

definition alloc_frames :: "nat \<Rightarrow> kmem \<Rightarrow> (phys_addr option \<times> kmem) option" where
  "alloc_frames n m = do { (r, fa) \<leftarrow> alloc_contiguous n (frames m); Some (r, m\<lparr>frames := fa\<rparr>) }"

section \<open>Accesses through a table at EL1\<close>

definition el1_pa :: "bool \<Rightarrow> phys_addr \<Rightarrow> virt_addr \<Rightarrow> kmem \<Rightarrow> phys_addr option" where
  "el1_pa store root va m =
     (case xlate 3 (pages m) root va of
        Some (pa, attr) \<Rightarrow> if bit attr 10 \<and> (store \<longrightarrow> \<not> bit attr 7) then Some pa else None
      | None \<Rightarrow> None)"

definition load8 :: "phys_addr \<Rightarrow> virt_addr \<Rightarrow> kmem \<Rightarrow> u8 option" where
  "load8 root va m = do { pa \<leftarrow> el1_pa False root va m; Some (pload8 pa m) }"

definition store8 :: "phys_addr \<Rightarrow> virt_addr \<Rightarrow> u8 \<Rightarrow> kmem \<Rightarrow> kmem option" where
  "store8 root va v m = do { pa \<leftarrow> el1_pa True root va m; Some (pstore8 pa v m) }"

definition load32 :: "phys_addr \<Rightarrow> virt_addr \<Rightarrow> kmem \<Rightarrow> u32 option" where
  "load32 root va m = do { pa \<leftarrow> el1_pa False root va m; Some (pload32 pa m) }"

definition store32 :: "phys_addr \<Rightarrow> virt_addr \<Rightarrow> u32 \<Rightarrow> kmem \<Rightarrow> kmem option" where
  "store32 root va v m = do { pa \<leftarrow> el1_pa True root va m; Some (pstore32 pa v m) }"

section \<open>Messages\<close>

record message =
  msg_src :: u32
  mtype :: u32
  msg_data :: "u32 list"

definition message_new :: "u32 \<Rightarrow> message" where
  "message_new t = \<lparr>msg_src = 0, mtype = t, msg_data = replicate 8 0\<rparr>"

definition message_words :: "message \<Rightarrow> u32 list" where
  "message_words m = msg_src m # mtype m # msg_data m"

definition words_message :: "u32 list \<Rightarrow> message" where
  "words_message ws = \<lparr>msg_src = ws ! 0, mtype = ws ! 1, msg_data = take 8 (drop 2 ws)\<rparr>"

definition message_wf :: "message \<Rightarrow> bool" where
  "message_wf m \<longleftrightarrow> length (msg_data m) = 8"

text \<open>
  \<^verbatim>\<open>*msg\<close> and \<^verbatim>\<open>write_volatile(out, m)\<close>: ten 32-bit fields in order.  A misaligned or null pointer
  fails the checks of a debug build; a run past the end of the address space does not translate.
\<close>

definition msg_ptr_ok :: "virt_addr \<Rightarrow> bool" where
  "msg_ptr_ok p \<longleftrightarrow> p \<noteq> 0 \<and> p mod 4 = 0 \<and> p + 40 \<le> USIZE_LIMIT"

definition read_message :: "phys_addr \<Rightarrow> virt_addr \<Rightarrow> kmem \<Rightarrow> message option" where
  "read_message root p m =
     (if msg_ptr_ok p
      then do { ws \<leftarrow> those (map (\<lambda>i. load32 root (p + 4 * i) m) [0..<10]); Some (words_message ws) }
      else None)"

definition write_message :: "phys_addr \<Rightarrow> virt_addr \<Rightarrow> message \<Rightarrow> kmem \<Rightarrow> kmem option" where
  "write_message root p msg m =
     (if msg_ptr_ok p
      then foldm (\<lambda>i. store32 root (p + 4 * i) (message_words msg ! i)) [0..<10] m
      else None)"

section \<open>Fields of a word\<close>

lemma bit_get_field: "bit (get_field off n w) k \<longleftrightarrow> k < n \<and> bit w (off + k)"
  by (auto simp: get_field_def bit_take_bit_iff bit_drop_bit_eq)

lemma bit_put_field:
  "bit (put_field off n v w) k \<longleftrightarrow> k < 64 \<and> (if off \<le> k \<and> k < off + n then bit v (k - off) else bit w k)"
  using bit_imp_le_length [of w k]
  by (auto simp: put_field_def bit_simps bit_push_bit_iff bit_mask_iff)

lemma get_put_same: "off + n \<le> 64 \<Longrightarrow> get_field off n (put_field off n v w) = take_bit n v"
  by (rule bit_word_eqI) (auto simp: bit_get_field bit_put_field bit_take_bit_iff)

lemma get_put_other:
  "off + n \<le> off' \<or> off' + n' \<le> off \<Longrightarrow> get_field off' n' (put_field off n v w) = get_field off' n' w"
  by (rule bit_word_eqI) (auto simp: bit_get_field bit_put_field dest: bit_imp_le_length)

section \<open>Physical accesses: read back, and disjoint accesses\<close>

lemma pload64_pstore64: "pload64 pa (pstore64 pa v m) = v"
  by (simp add: pload64_def pstore64_def entry_def set_entry_def)

lemma word_idx_div: "word_idx x = x div 8 mod 512"
  using mod_mult2_eq [of x 8 512] by (simp add: word_idx_def)

lemma page_div: "x div PAGE_SIZE = x div 8 div 512" for x :: nat
  by (simp add: div_mult2_eq [of x 8 512, simplified])

lemma same_word: "page_down a = page_down b \<and> word_idx a = word_idx b \<longleftrightarrow> a div 8 = b div 8"
proof
  assume l: "page_down a = page_down b \<and> word_idx a = word_idx b"
  then have "a div 8 div 512 = b div 8 div 512" by (simp add: page_down_def page_div)
  moreover from l have "a div 8 mod 512 = b div 8 mod 512" by (simp add: word_idx_div)
  ultimately show "a div 8 = b div 8" by (metis div_mult_mod_eq)
qed (simp add: page_down_def page_div word_idx_div)

lemma pload64_pstore64_other: "a div 8 \<noteq> b div 8 \<Longrightarrow> pload64 b (pstore64 a v m) = pload64 b m"
  using same_word [of a b] by (auto simp: pload64_def pstore64_def entry_def set_entry_def)

lemma pload64_word: "a div 8 = b div 8 \<Longrightarrow> pload64 a m = pload64 b m"
  using same_word [of a b] by (simp add: pload64_def)

lemma pload32_pstore32: "pload32 pa (pstore32 pa v m) = v"
proof -
  have "pload32 pa (pstore32 pa v m) = ucast (take_bit 32 (ucast v :: u64))"
    unfolding pload32_def pstore32_def pload64_pstore64
    by (subst get_put_same) auto
  also have "\<dots> = v"
    by (rule bit_word_eqI) (auto simp: bit_ucast_iff bit_take_bit_iff dest: bit_imp_le_length)
  finally show ?thesis .
qed

lemma pload32_pstore32_other:
  assumes "a div 4 \<noteq> b div 4"
  shows "pload32 b (pstore32 a v m) = pload32 b m"
proof (cases "a div 8 = b div 8")
  case True
  have d: "x div 4 = x div 8 * 2 + x div 4 mod 2" for x :: nat
    using div_mult2_eq [of x 4 2] by simp
  have "a div 4 mod 2 \<noteq> b div 4 mod 2" using assms True d [of a] d [of b] by linarith
  then have o: "32 * (a div 4 mod 2) + 32 \<le> 32 * (b div 4 mod 2) \<or> 32 * (b div 4 mod 2) + 32 \<le> 32 * (a div 4 mod 2)"
    by linarith
  have "pload64 b (pstore32 a v m) = put_field (32 * (a div 4 mod 2)) 32 (ucast v) (pload64 b m)"
    by (simp add: pload64_word [OF True [symmetric]] pstore32_def pload64_pstore64)
  then show ?thesis by (simp only: pload32_def get_put_other [OF o])
qed (simp add: pload32_def pstore32_def pload64_pstore64_other)

lemma pload8_pstore8: "pload8 pa (pstore8 pa v m) = v"
proof -
  have "pload8 pa (pstore8 pa v m) = ucast (take_bit 8 (ucast v :: u64))"
    unfolding pload8_def pstore8_def pload64_pstore64
    by (subst get_put_same) auto
  also have "\<dots> = v"
    by (rule bit_word_eqI) (auto simp: bit_ucast_iff bit_take_bit_iff dest: bit_imp_le_length)
  finally show ?thesis .
qed

lemma pload8_pstore8_other:
  assumes "a \<noteq> b"
  shows "pload8 b (pstore8 a v m) = pload8 b m"
proof (cases "a div 8 = b div 8")
  case True
  then have "a mod 8 \<noteq> b mod 8" using assms by (metis div_mult_mod_eq)
  then have o: "8 * (a mod 8) + 8 \<le> 8 * (b mod 8) \<or> 8 * (b mod 8) + 8 \<le> 8 * (a mod 8)" by linarith
  have "pload64 b (pstore8 a v m) = put_field (8 * (a mod 8)) 8 (ucast v) (pload64 b m)"
    by (simp add: pload64_word [OF True [symmetric]] pstore8_def pload64_pstore64)
  then show ?thesis by (simp only: pload8_def get_put_other [OF o])
qed (simp add: pload8_def pstore8_def pload64_pstore64_other)

lemma pload8_pstore_bytes:
  "pload8 a (pstore_bytes pa bs m) = (if pa \<le> a \<and> a < pa + length bs then bs ! (a - pa) else pload8 a m)"
proof -
  have "pload8 a (fold (\<lambda>i. pstore8 (pa + i) (bs ! i)) [0..<n] m) =
      (if pa \<le> a \<and> a < pa + n then bs ! (a - pa) else pload8 a m)" for n
    by (induction n) (auto simp: pload8_pstore8 pload8_pstore8_other less_Suc_eq)
  then show ?thesis by (simp only: pstore_bytes_def)
qed

lemma pload_pstore_bytes: "pload_bytes pa (length bs) (pstore_bytes pa bs m) = bs"
  by (rule nth_equalityI) (auto simp: pload_bytes_def pload8_pstore_bytes)

lemma length_pload_bytes [simp]: "length (pload_bytes pa n m) = n"
  by (simp add: pload_bytes_def)

lemma pstore_frame [simp]:
  "frames (pstore64 pa v m) = frames m" "kernel_l0 (pstore64 pa v m) = kernel_l0 m"
  "zero_page (pstore64 pa v m) = zero_page m"
  "frames (pstore32 pa w m) = frames m" "kernel_l0 (pstore32 pa w m) = kernel_l0 m"
  "zero_page (pstore32 pa w m) = zero_page m"
  "frames (pstore8 pa b m) = frames m" "kernel_l0 (pstore8 pa b m) = kernel_l0 m"
  "zero_page (pstore8 pa b m) = zero_page m"
  by (simp_all add: pstore64_def pstore32_def pstore8_def)

lemma pstore_bytes_frame [simp]:
  "frames (pstore_bytes pa bs m) = frames m" "kernel_l0 (pstore_bytes pa bs m) = kernel_l0 m"
  "zero_page (pstore_bytes pa bs m) = zero_page m"
proof -
  have "frames (fold (\<lambda>i. pstore8 (pa + i) (bs ! i)) xs m) = frames m \<and>
      kernel_l0 (fold (\<lambda>i. pstore8 (pa + i) (bs ! i)) xs m) = kernel_l0 m \<and>
      zero_page (fold (\<lambda>i. pstore8 (pa + i) (bs ! i)) xs m) = zero_page m" for xs
    by (induction xs arbitrary: m) auto
  then show "frames (pstore_bytes pa bs m) = frames m" "kernel_l0 (pstore_bytes pa bs m) = kernel_l0 m"
    "zero_page (pstore_bytes pa bs m) = zero_page m" by (auto simp: pstore_bytes_def)
qed

lemma pstore_pages:
  "p \<noteq> page_down pa \<Longrightarrow> pages (pstore64 pa v m) p = pages m p"
  "p \<noteq> page_down pa \<Longrightarrow> pages (pstore32 pa w m) p = pages m p"
  "p \<noteq> page_down pa \<Longrightarrow> pages (pstore8 pa b m) p = pages m p"
  by (simp_all add: pstore64_def pstore32_def pstore8_def set_entry_def)

section \<open>Translated accesses\<close>

lemma el1_pa_cong:
  assumes "\<And>p. p \<in> set (tables 3 (pages m) root) \<Longrightarrow> pages m' p = pages m p"
  shows "el1_pa st root va m' = el1_pa st root va m"
proof -
  have "leaf 3 (pages m') root va = leaf 3 (pages m) root va" by (rule leaf_cong) (rule assms)
  from xlate_leaf [OF this] show ?thesis unfolding el1_pa_def by simp
qed

lemma el1_pa_load: "el1_pa True root va m = Some pa \<Longrightarrow> el1_pa False root va m = Some pa"
  by (auto simp: el1_pa_def split: option.splits if_splits)

lemma desc_addr_mod: "desc_addr e mod PAGE_SIZE = 0"
proof -
  have "take_bit 12 (e AND ADDR_MASK) = 0"
    by (rule bit_word_eqI) (auto simp: bit_take_bit_iff bit_and_iff addr_mask_bit)
  then have "unat (take_bit 12 (e AND ADDR_MASK)) = 0" by (simp only: unat_0)
  then have "take_bit 12 (desc_addr e) = 0" by (simp only: desc_addr_def unsigned_take_bit_eq)
  then show ?thesis by (simp add: take_bit_eq_mod)
qed

lemma el1_pa_offset: "el1_pa st root va m = Some pa \<Longrightarrow> pa mod PAGE_SIZE = va mod PAGE_SIZE"
proof -
  assume "el1_pa st root va m = Some pa"
  then obtain l e where "pa = desc_addr e + va mod 2 ^ (12 + 9 * l)"
    by (auto simp: el1_pa_def xlate_def split: option.splits prod.splits if_splits)
  moreover have "va mod 2 ^ (12 + 9 * l) mod PAGE_SIZE = va mod PAGE_SIZE"
    by (rule mod_mod_cancel) (simp add: power_add)
  ultimately show ?thesis using mod_add_left_eq [of "desc_addr e" PAGE_SIZE] desc_addr_mod [of e] by simp
qed

lemma those_map: "(\<And>x. x \<in> set xs \<Longrightarrow> g x = Some (h x)) \<Longrightarrow> those (map g xs) = Some (map h xs)"
  by (induction xs) auto

lemma words_message_words: "message_wf m \<Longrightarrow> words_message (message_words m) = m"
  by (simp add: words_message_def message_words_def message_wf_def)

lemma mod_small_eq: "(a + i) mod 1024 = (a + j) mod 1024 \<Longrightarrow> i < 10 \<Longrightarrow> j < 10 \<Longrightarrow> i = j" for a i j :: nat
proof (induction i j rule: linorder_wlog)
  case (le i j)
  then have "1024 dvd j - i" using mod_eq_dvd_iff_nat [of "a + i" "a + j" 1024] by simp
  then have "j - i = 0" using dvd_imp_le [of 1024 "j - i"] le(4) by (cases "0 < j - i") auto
  then show ?case using le(1) by simp
next
  case (sym i j)
  then show ?case by metis
qed

text \<open>The ten words of a message lie in ten different words of memory, also across a page boundary.\<close>

lemma msg_words_apart:
  assumes "p mod 4 = 0" "i < 10" "j < 10" "i \<noteq> j"
    and "el1_pa st root (p + 4 * i) m = Some a" "el1_pa st root (p + 4 * j) m = Some b"
  shows "a div 4 \<noteq> b div 4"
proof
  assume e: "a div 4 = b div 4"
  have "x mod PAGE_SIZE div 4 = x div 4 mod 1024" for x :: nat using mod_mult2_eq [of x 4 1024] by simp
  then have "(p + 4 * i) div 4 mod 1024 = (p + 4 * j) div 4 mod 1024"
    using el1_pa_offset [OF assms(5)] el1_pa_offset [OF assms(6)] e by metis
  moreover have "(p + 4 * k) div 4 = p div 4 + k" for k using assms(1) by auto
  ultimately have "(p div 4 + i) mod 1024 = (p div 4 + j) mod 1024" by metis
  from mod_small_eq [OF this assms(2,3)] assms(4) show False by contradiction
qed

text \<open>
  A message written through a table is read back through it, provided its buffer does not overlap
  the table itself, and no other page changes.
\<close>

lemma write_message_ok:
  assumes p: "msg_ptr_ok p" and w: "message_wf msg"
    and f: "\<And>i. i < 10 \<Longrightarrow> el1_pa True root (p + 4 * i) m = Some (f i)"
    and t: "\<And>i. i < 10 \<Longrightarrow> page_down (f i) \<notin> set (tables 3 (pages m) root)"
  shows "\<exists>m'. write_message root p msg m = Some m' \<and> read_message root p m' = Some msg \<and>
    frames m' = frames m \<and> kernel_l0 m' = kernel_l0 m \<and> zero_page m' = zero_page m \<and>
    (\<forall>q. q \<notin> page_down ` f ` {..<10} \<longrightarrow> pages m' q = pages m q)"
proof -
  define st where "st = (\<lambda>i. store32 root (p + 4 * i) (message_words msg ! i))"
  define W where "W = page_down ` f ` {..<10}"
  define P where "P = (\<lambda>k m'. frames m' = frames m \<and> kernel_l0 m' = kernel_l0 m \<and> zero_page m' = zero_page m \<and>
    (\<forall>q. q \<notin> W \<longrightarrow> pages m' q = pages m q) \<and> (\<forall>i < k. pload32 (f i) m' = message_words msg ! i))"
  have same: "el1_pa s root va m' = el1_pa s root va m" if "P k m'" for k m' s va
  proof (rule el1_pa_cong)
    fix q assume "q \<in> set (tables 3 (pages m) root)"
    then have "q \<notin> W" using t by (fastforce simp: W_def)
    then show "pages m' q = pages m q" using that by (simp add: P_def)
  qed
  have "\<exists>m'. foldm st [0..<10] m = Some m' \<and> P 10 m'"
  proof (rule foldm_upt)
    fix i m1 assume i: "i < 10" and 1: "P i m1"
    have "f i div 4 \<noteq> f j div 4" if "j < i" for j
      using msg_words_apart [OF _ _ _ _ f f, of j i] p i that by (auto simp: msg_ptr_ok_def)
    moreover have "q \<noteq> page_down (f i)" if "q \<notin> W" for q using that i by (auto simp: W_def)
    ultimately have "P (Suc i) (pstore32 (f i) (message_words msg ! i) m1)"
      using 1 unfolding P_def by (simp add: less_Suc_eq pload32_pstore32 pload32_pstore32_other pstore_pages all_conj_distrib imp_conjL)
    then show "\<exists>s'. st i m1 = Some s' \<and> P (Suc i) s'"
      using same [OF 1] f [OF i] by (auto simp: st_def store32_def)
  qed (simp add: P_def)
  then obtain m' where m': "foldm st [0..<10] m = Some m'" and 2: "P 10 m'" by blast
  have "load32 root (p + 4 * i) m' = Some (message_words msg ! i)" if "i < 10" for i
    using same [OF 2] f [OF that, THEN el1_pa_load] 2 that by (simp add: load32_def P_def)
  then have "those (map (\<lambda>i. load32 root (p + 4 * i) m') [0..<10]) = Some (map ((!) (message_words msg)) [0..<10])"
    by (intro those_map) simp
  moreover have "map ((!) (message_words msg)) [0..<10] = message_words msg"
    using w map_nth [of "message_words msg"] by (simp add: message_words_def message_wf_def)
  ultimately have "read_message root p m' = Some msg"
    using p w by (simp add: read_message_def words_message_words)
  then show ?thesis using p m' 2 by (intro exI [of _ m']) (simp add: write_message_def st_def P_def W_def)
qed

end
