(* ===== verification/Monitor.thy ===== *)
theory Monitor
  imports User_Mem
begin

text \<open>
  The EL3 monitor's services, \<^verbatim>\<open>kernel/src/arch/aarch64/monitor.rs\<close>: measurement, the secure store, the
  keybox and attestation, and the SMC dispatcher.  The monitor runs with the MMU off, so its pointers are
  physical.  Its own data (the slots of the secure store, the keybox, the counters) are the fields the
  source reads and writes at fixed offsets of the secure blob; \<open>installed\<close> is a non-zero
  \<^verbatim>\<open>__sec_runtime_base\<close>.  The generic counter \<^verbatim>\<open>CNTPCT_EL0\<close>, the source of entropy, is an argument.
\<close>

section \<open>State\<close>

abbreviation STORE_SLOTS :: nat where "STORE_SLOTS \<equiv> 32"
abbreviation STORE_MAGIC :: u64 where "STORE_MAGIC \<equiv> 0x53544F52"
abbreviation STORE_DATA_MAX :: nat where "STORE_DATA_MAX \<equiv> 232"
abbreviation SEAL_MAX :: nat where "SEAL_MAX \<equiv> 256"
abbreviation KEYBOX_KEYS :: nat where "KEYBOX_KEYS \<equiv> 16"
abbreviation ATTEST_OUT_WORDS :: nat where "ATTEST_OUT_WORDS \<equiv> 2"
abbreviation ATTEST_REGION_MAX :: nat where "ATTEST_REGION_MAX \<equiv> 16 * 1024 * 1024"
abbreviation CMD_MAGIC :: u64 where "CMD_MAGIC \<equiv> 0x434D4454"
abbreviation PSCI_SUCCESS :: u64 where "PSCI_SUCCESS \<equiv> 0"
abbreviation PSCI_NOT_SUPPORTED :: u64 where "PSCI_NOT_SUPPORTED \<equiv> 0xFFFFFFFF"
abbreviation PSCI_INVALID_PARAMS :: u64 where "PSCI_INVALID_PARAMS \<equiv> 0xFFFFFFFE"

record store_slot =
  st_magic :: u64
  st_name :: u64
  st_len :: nat
  st_data :: "u8 list"

record key_slot =
  k_valid :: u64
  k_0 :: u64
  k_1 :: u64
  k_ctr :: u64

record sec_world =
  installed :: bool
  sec_store :: "store_slot list"
  sec_keybox :: "key_slot list"
  sec_secret :: u64
  sec_ticks :: u64
  sec_counter :: u64
  sec_measured :: u64
  psci_cmd :: "nat \<Rightarrow> u64 \<times> u64"
  monitor_cpus :: nat

definition sec_init :: "bool \<Rightarrow> u64 \<Rightarrow> nat \<Rightarrow> sec_world" where
  "sec_init inst secret ncpus =
     \<lparr>installed = inst,
      sec_store = replicate STORE_SLOTS \<lparr>st_magic = 0, st_name = 0, st_len = 0, st_data = replicate STORE_DATA_MAX 0\<rparr>,
      sec_keybox = replicate KEYBOX_KEYS \<lparr>k_valid = 0, k_0 = 0, k_1 = 0, k_ctr = 0\<rparr>,
      sec_secret = secret, sec_ticks = 0, sec_counter = 0, sec_measured = 0,
      psci_cmd = (\<lambda>c. (0, 0)), monitor_cpus = (if ncpus \<noteq> 0 then ncpus else 1)\<rparr>"

section \<open>Digests and ciphers\<close>

definition to_le :: "u64 \<Rightarrow> u8 list" where
  "to_le w = map (\<lambda>i. ucast (drop_bit (8 * i) w)) [0..<8]"

definition from_le :: "u8 list \<Rightarrow> u64" where
  "from_le bs = foldr (\<lambda>b acc. ucast b OR push_bit 8 acc) bs 0"

definition from_le32 :: "u8 list \<Rightarrow> u32" where
  "from_le32 bs = foldr (\<lambda>b acc. ucast b OR push_bit 8 acc) bs 0"

abbreviation FNV_OFFSET :: u64 where "FNV_OFFSET \<equiv> 0xCBF29CE484222325"
abbreviation FNV_PRIME :: u64 where "FNV_PRIME \<equiv> 0x100000001B3"

definition fnv1a64 :: "nat \<Rightarrow> nat \<Rightarrow> kmem \<Rightarrow> u64" where
  "fnv1a64 base n m = fold (\<lambda>i hash. (hash XOR ucast (pload8 ((base + i) mod 2 ^ 64) m)) * FNV_PRIME) [0..<n] FNV_OFFSET"

definition fnv1a_extend :: "u64 \<Rightarrow> u64 \<Rightarrow> u64" where
  "fnv1a_extend hash w = fold (\<lambda>b h. (h XOR ucast b) * FNV_PRIME) (to_le w) hash"

definition splitmix64 :: "u64 \<Rightarrow> u64" where
  "splitmix64 x =
     (let z = x + 0x9E3779B97F4A7C15;
          z = (z XOR drop_bit 30 z) * 0xBF58476D1CE4E5B9;
          z = (z XOR drop_bit 27 z) * 0x94D049BB133111EB
      in z XOR drop_bit 31 z)"

definition xtea_mix :: "u32 \<Rightarrow> u32" where
  "xtea_mix v = (push_bit 4 v XOR drop_bit 5 v) + v"

definition xtea_round :: "u32 list \<Rightarrow> u32 \<times> u32 \<times> u32 \<Rightarrow> u32 \<times> u32 \<times> u32" where
  "xtea_round key = (\<lambda>(v0, v1, sm).
     let v0 = v0 + (xtea_mix v1 XOR (sm + key ! unat (sm AND 3)));
         sm = sm + 0x9E3779B9;
         v1 = v1 + (xtea_mix v0 XOR (sm + key ! unat (drop_bit 11 sm AND 3)))
     in (v0, v1, sm))"

definition le32_bytes :: "u32 \<Rightarrow> u8 list" where
  "le32_bytes v = map (\<lambda>i. ucast (drop_bit (8 * i) v)) [0..<4]"

definition xtea_enc_block :: "u32 list \<Rightarrow> u8 list \<Rightarrow> u8 list" where
  "xtea_enc_block key block =
     (case (xtea_round key ^^ 32) (from_le32 (take 4 block), from_le32 (take 4 (drop 4 block)), 0) of
        (v0, v1, _) \<Rightarrow> le32_bytes v0 @ le32_bytes v1)"

function xtea_cfb :: "u32 list \<Rightarrow> u64 \<Rightarrow> u8 list \<Rightarrow> bool \<Rightarrow> u8 list" where
  "xtea_cfb key st buf encrypt =
     (if buf = [] then []
      else let e = xtea_enc_block key (to_le st);
               avail = min 8 (length buf);
               chunk = take avail buf;
               out = map2 (XOR) chunk e;
               cbytes = (if encrypt then out else chunk) @ drop avail (to_le st)
           in out @ xtea_cfb key (from_le cbytes) (drop avail buf) encrypt)"
  by auto
termination by (relation "measure (\<lambda>(_, _, buf, _). length buf)") auto

declare xtea_cfb.simps [simp del]

section \<open>Services\<close>

definition read_name64 :: "nat \<Rightarrow> kmem \<Rightarrow> u64" where
  "read_name64 p m = from_le (pload_bytes p 8 m)"

definition store_find :: "u64 \<Rightarrow> store_slot list \<Rightarrow> nat option" where
  "store_find name = find_idx (\<lambda>sl. st_magic sl = STORE_MAGIC \<and> st_name sl = name)"

definition sec_svc_storage_put :: "nat \<Rightarrow> nat \<Rightarrow> nat \<Rightarrow> kmem \<Rightarrow> sec_world \<Rightarrow> u64 \<times> sec_world" where
  "sec_svc_storage_put name_ptr data_ptr len m w =
     (if \<not> installed w \<or> len > STORE_DATA_MAX then (- 1, w)
      else let name = read_name64 name_ptr m;
               target = store_find name (sec_store w);
               free = find_idx (\<lambda>sl. st_magic sl \<noteq> STORE_MAGIC) (sec_store w)
           in case (if target \<noteq> None then target else free) of
                None \<Rightarrow> (- 1, w)
              | Some idx \<Rightarrow>
                  (0, w\<lparr>sec_store := (sec_store w)[idx :=
                       \<lparr>st_magic = STORE_MAGIC, st_name = name, st_len = len,
                        st_data = pload_bytes data_ptr len m @ drop len (st_data (sec_store w ! idx))\<rparr>]\<rparr>))"

definition sec_svc_storage_get :: "nat \<Rightarrow> nat \<Rightarrow> nat \<Rightarrow> kmem \<Rightarrow> sec_world \<Rightarrow> u64 \<times> kmem" where
  "sec_svc_storage_get name_ptr out_ptr cap m w =
     (if \<not> installed w then (- 1, m)
      else case store_find (read_name64 name_ptr m) (sec_store w) of
             None \<Rightarrow> (- 1, m)
           | Some i \<Rightarrow>
               (let sl = sec_store w ! i in
                if st_len sl > cap then (0xFFFFFFFFFFFFFFFE, m)
                else (of_nat (st_len sl), pstore_bytes out_ptr (take (st_len sl) (st_data sl)) m)))"

definition secure_secret :: "sec_world \<Rightarrow> u64" where
  "secure_secret w = (if installed w then sec_secret w else 0)"

definition secure_keybox_gen :: "u64 \<Rightarrow> nat \<Rightarrow> sec_world \<Rightarrow> u64 \<times> sec_world" where
  "secure_keybox_gen entropy kid w =
     (if \<not> installed w \<or> kid \<ge> KEYBOX_KEYS then (- 1, w)
      else let rng = splitmix64 entropy XOR secure_secret w;
               k0 = splitmix64 rng;
               rng = splitmix64 rng;
               k1 = splitmix64 rng
           in (0, w\<lparr>sec_keybox := (sec_keybox w)[kid := \<lparr>k_valid = 1, k_0 = k0, k_1 = k1, k_ctr = 0\<rparr>]\<rparr>))"

definition keybox_slot :: "nat \<Rightarrow> sec_world \<Rightarrow> key_slot option" where
  "keybox_slot kid w =
     (if \<not> installed w \<or> kid \<ge> KEYBOX_KEYS then None
      else if k_valid (sec_keybox w ! kid) \<noteq> 1 then None else Some (sec_keybox w ! kid))"

definition keybox_key :: "key_slot \<Rightarrow> u32 list" where
  "keybox_key ks = [ucast (k_0 ks), ucast (drop_bit 32 (k_0 ks)), ucast (k_1 ks), ucast (drop_bit 32 (k_1 ks))]"

definition keybox_cipher :: "nat \<Rightarrow> nat \<Rightarrow> nat \<Rightarrow> bool \<Rightarrow> kmem \<Rightarrow> sec_world \<Rightarrow> u64 \<times> kmem \<times> sec_world" where
  "keybox_cipher kid buf len encrypt m w =
     (if len > SEAL_MAX then (- 1, m, w)
      else case keybox_slot kid w of
             None \<Rightarrow> (- 1, m, w)
           | Some ks \<Rightarrow>
               if k_ctr ks = - 1 then (- 1, m, w)
               else let data = xtea_cfb (keybox_key ks) (k_ctr ks) (pload_bytes buf len m) encrypt
                    in (0, pstore_bytes buf data m,
                        w\<lparr>sec_keybox := (sec_keybox w)[kid := ks\<lparr>k_ctr := k_ctr ks + 1\<rparr>]\<rparr>))"

definition secure_attest :: "nat \<Rightarrow> nat \<Rightarrow> u64 \<Rightarrow> nat \<Rightarrow> nat \<Rightarrow> kmem \<Rightarrow> sec_world \<Rightarrow> u64 \<times> kmem" where
  "secure_attest base n nonce out_ptr cap m w =
     (if cap < ATTEST_OUT_WORDS * 8 \<or> n > ATTEST_REGION_MAX then (- 1, m)
      else let digest = fnv1a64 base n m;
               mac = fnv1a64 0 0 m;
               mac = fnv1a_extend mac (secure_secret w);
               mac = fnv1a_extend mac nonce;
               mac = fnv1a_extend mac digest
           in (0, pstore64 (out_ptr + 8) mac (pstore64 out_ptr digest m)))"

definition psci_cpu_on :: "u64 \<Rightarrow> u64 \<Rightarrow> sec_world \<Rightarrow> u64 \<times> sec_world" where
  "psci_cpu_on target_aff0 entry_pt w =
     (let cpu = unat (target_aff0 AND 0xff) in
      if cpu \<ge> 8 \<or> cpu \<ge> monitor_cpus w \<or> cpu = 0 then (PSCI_INVALID_PARAMS, w)
      else (PSCI_SUCCESS, w\<lparr>psci_cmd := (psci_cmd w)(cpu := (CMD_MAGIC, entry_pt))\<rparr>))"

definition secure_measure :: "nat \<Rightarrow> nat \<Rightarrow> kmem \<Rightarrow> sec_world \<Rightarrow> u64 \<times> sec_world" where
  "secure_measure base n m w =
     (let hash = fnv1a64 base n m in (hash, if installed w then w\<lparr>sec_measured := hash\<rparr> else w))"

text \<open>
  The dispatcher.  Arming the secure timer and printing only touch devices.
\<close>

definition monitor_smc_dispatch ::
  "u64 \<Rightarrow> u64 \<Rightarrow> u64 \<Rightarrow> u64 \<Rightarrow> u64 \<Rightarrow> u64 \<Rightarrow> u64 \<Rightarrow> kmem \<Rightarrow> sec_world \<Rightarrow> u64 \<times> kmem \<times> sec_world" where
  "monitor_smc_dispatch entropy fn_id a1 a2 a3 a4 a5 m w =
     (if fn_id = 0x80000000 then (0x00010001, m, w)
      else if fn_id = 0xC4000000 then (0x00010001, m, w)
      else if fn_id = 0xC4000002 then (PSCI_NOT_SUPPORTED, m, w)
      else if fn_id = 0xC4000003 then (let (r, w) = psci_cpu_on a1 a2 w in (r, m, w))
      else if fn_id = 0xC400000A then (0, m, w)
      else if fn_id = 0x84000008 \<or> fn_id = 0x84000009 then (PSCI_NOT_SUPPORTED, m, w)
      else if fn_id = 0x83000001 then (let (r, w) = secure_measure (unat a1) (unat a2) m w in (r, m, w))
      else if fn_id = 0x83000002 then (if installed w then sec_ticks w else 0, m, w)
      else if fn_id = 0x83000003 then (0, m, w)
      else if fn_id = 0x83000005 then (0, m, w)
      else if fn_id = 0x83000006 then
        (let v = (if installed w then sec_counter w else 0) + 1
         in (v, m, if installed w then w\<lparr>sec_counter := v\<rparr> else w))
      else if fn_id = 0x83000007 then
        (let (r, w) = sec_svc_storage_put (unat a1) (unat a2) (unat a3) m w in (r, m, w))
      else if fn_id = 0x83000008 then
        (let (r, m) = sec_svc_storage_get (unat a1) (unat a2) (unat a3) m w in (r, m, w))
      else if fn_id = 0x83000009 then
        (let (r, w) = secure_keybox_gen entropy (unat a1) w in (r, m, w))
      else if fn_id = 0x8300000A then keybox_cipher (unat a1) (unat a2) (unat a3) True m w
      else if fn_id = 0x8300000B then keybox_cipher (unat a1) (unat a2) (unat a3) False m w
      else if fn_id = 0x8300000C then
        (let (r, m) = secure_attest (unat a1) (unat a2) a3 (unat a4) (unat a5) m w in (r, m, w))
      else (PSCI_NOT_SUPPORTED, m, w))"

section \<open>The block cipher is a permutation\<close>

lemma xtea_round_inj: "xtea_round key (a, b, sm) = xtea_round key (a', b', sm) \<Longrightarrow> a = a' \<and> b = b'"
  by (auto simp: xtea_round_def Let_def)

lemma xtea_round_sum: "\<exists>v0 v1. xtea_round key (a, b, sm) = (v0, v1, sm + 0x9E3779B9)"
  by (simp add: xtea_round_def Let_def)

lemma xtea_rounds_inj:
  "(xtea_round key ^^ n) (a, b, sm) = (xtea_round key ^^ n) (a', b', sm) \<Longrightarrow> a = a' \<and> b = b'"
proof (induction n arbitrary: a b a' b' sm)
  case (Suc n)
  obtain c d where cd: "xtea_round key (a, b, sm) = (c, d, sm + 0x9E3779B9)" using xtea_round_sum by blast
  obtain c' d' where cd': "xtea_round key (a', b', sm) = (c', d', sm + 0x9E3779B9)" using xtea_round_sum by blast
  from Suc.prems have "(xtea_round key ^^ n) (c, d, sm + 0x9E3779B9) = (xtea_round key ^^ n) (c', d', sm + 0x9E3779B9)"
    unfolding funpow_Suc_right o_apply cd cd' .
  from Suc.IH [OF this] cd cd' have "xtea_round key (a, b, sm) = xtea_round key (a', b', sm)" by simp
  then show ?case by (rule xtea_round_inj)
qed simp

lemma xtea_rounds_sum: "snd (snd ((xtea_round key ^^ n) (a, b, sm))) = sm + of_nat n * 0x9E3779B9"
proof (induction n arbitrary: a b sm)
  case (Suc n)
  obtain c d where cd: "xtea_round key (a, b, sm) = (c, d, sm + 0x9E3779B9)" using xtea_round_sum by blast
  show ?case unfolding funpow_Suc_right o_apply cd Suc by (simp add: algebra_simps)
qed simp

lemma list8: "[0..<8] = [0, 1, 2, 3, 4, 5, 6, 7 :: nat]"
  by (simp add: upt_rec numeral_eq_Suc)

lemma list4: "[0..<4] = [0, 1, 2, 3 :: nat]"
  by (simp add: upt_rec numeral_eq_Suc)

lemma length_to_le [simp]: "length (to_le w) = 8"
  by (simp add: to_le_def)

lemma length_le32 [simp]: "length (le32_bytes v) = 4"
  by (simp add: le32_bytes_def)

lemma le32_bytes_inj: "le32_bytes v = le32_bytes v' \<Longrightarrow> v = v'"
proof (rule bit_word_eqI)
  fix n assume e: "le32_bytes v = le32_bytes v'" and n: "n < LENGTH(32)"
  have "n div 8 < 4" using n by auto
  then have b: "bit (le32_bytes x ! (n div 8)) (n mod 8) = bit x n" for x
    by (simp add: le32_bytes_def bit_ucast_iff bit_drop_bit_eq)
  show "bit v n = bit v' n" using b [of v] b [of v'] e by simp
qed

lemma from_le32_low: "from_le32 (take 4 (to_le w)) = ucast w"
  apply (rule bit_word_eqI)
  apply (auto simp: from_le32_def to_le_def list8 bit_simps bit_push_bit_iff)
  subgoal for n by (cases "n < 24") auto
  done

lemma from_le32_high: "from_le32 (take 4 (drop 4 (to_le w))) = ucast (drop_bit 32 w)"
  apply (rule bit_word_eqI)
  apply (auto simp: from_le32_def to_le_def list8 bit_simps bit_push_bit_iff)
  subgoal for n by (cases "n < 24") auto
  done

lemma halves_inj: "ucast w = (ucast w' :: u32) \<Longrightarrow> ucast (drop_bit 32 w) = (ucast (drop_bit 32 w') :: u32) \<Longrightarrow> w = w'" for w w' :: u64
proof (rule bit_word_eqI)
  fix n assume h: "ucast w = (ucast w' :: u32)" "ucast (drop_bit 32 w) = (ucast (drop_bit 32 w') :: u32)" and n: "n < LENGTH(64)"
  show "bit w n = bit w' n"
  proof (cases "n < 32")
    case True
    have "bit (ucast w :: u32) n = bit (ucast w' :: u32) n" using h(1) by simp
    then show ?thesis using True by (simp add: bit_ucast_iff)
  next
    case False
    have "bit (ucast (drop_bit 32 w) :: u32) (n - 32) = bit (ucast (drop_bit 32 w') :: u32) (n - 32)" using h(2) by simp
    moreover have "n - 32 < 32" using n by simp
    ultimately show ?thesis using False by (simp add: bit_ucast_iff bit_drop_bit_eq)
  qed
qed

lemma length_xtea [simp]: "length (xtea_enc_block key b) = 8"
  by (simp add: xtea_enc_block_def split: prod.splits)

lemma xtea_enc_inj: "xtea_enc_block key (to_le w) = xtea_enc_block key (to_le w') \<Longrightarrow> w = w'"
proof -
  assume e: "xtea_enc_block key (to_le w) = xtea_enc_block key (to_le w')"
  let ?r = "\<lambda>w. (xtea_round key ^^ 32) (ucast w, ucast (drop_bit 32 w), 0)"
  obtain a b s where r: "?r w = (a, b, s)" by (cases "?r w") auto
  obtain a' b' s' where r': "?r w' = (a', b', s')" by (cases "?r w'") auto
  have B: "xtea_enc_block key (to_le x) = (case ?r x of (v0, v1, _) \<Rightarrow> le32_bytes v0 @ le32_bytes v1)" for x
    by (simp only: xtea_enc_block_def from_le32_low from_le32_high)
  have "le32_bytes a @ le32_bytes b = le32_bytes a' @ le32_bytes b'"
    using e unfolding B r r' by simp
  then have "a = a'" "b = b'" using le32_bytes_inj by simp_all
  moreover have "s = s'"
    using arg_cong [OF r, of "\<lambda>x. snd (snd x)"] arg_cong [OF r', of "\<lambda>x. snd (snd x)"]
    unfolding xtea_rounds_sum by simp
  ultimately have "?r w = ?r w'" using r r' by simp
  then show ?thesis using xtea_rounds_inj halves_inj by blast
qed

section \<open>The stream mode inverts itself\<close>

lemma xor_left_cancel: "x XOR y = x XOR z \<longleftrightarrow> y = z" for x y z :: "'a::len word"
  by (metis xor.assoc xor.left_neutral xor_self_eq)

lemma map2_xor_cancel: "length a \<le> length e \<Longrightarrow> map2 (XOR) (map2 (XOR) a e) e = a" for a e :: "u8 list"
  by (rule nth_equalityI) (auto simp: xor.assoc)

lemma length_xtea_cfb [simp]: "length (xtea_cfb key st buf enc) = length buf"
proof (induction key st buf enc rule: xtea_cfb.induct)
  case (1 key st buf enc)
  then show ?case by (subst xtea_cfb.simps) (auto simp: Let_def min_def)
qed

lemma xtea_cfb_inverse: "xtea_cfb key st (xtea_cfb key st buf True) False = buf"
proof (induction "length buf" arbitrary: buf st rule: less_induct)
  case less
  show ?case
  proof (cases "buf = []")
    case False
    define n where "n = min 8 (length buf)"
    define e where "e = xtea_enc_block key (to_le st)"
    define out where "out = map2 (XOR) (take n buf) e"
    define st' where "st' = from_le (out @ drop n (to_le st))"
    define r where "r = xtea_cfb key st' (drop n buf) True"
    have E: "xtea_cfb key st buf True = out @ r"
      using xtea_cfb.simps [of key st buf True] False by (simp add: Let_def n_def e_def out_def st'_def r_def)
    have len: "length out = n" "length e = 8" "n \<le> 8" by (simp_all add: out_def e_def n_def)
    have lr: "length r = length buf - n" by (simp add: r_def)
    have n: "min 8 (length (out @ r)) = n" using lr len by (auto simp: n_def)
    have "0 < n" using False by (simp add: n_def)
    then have ne: "out @ r \<noteq> []" using len by auto
    have "xtea_cfb key st (out @ r) False = map2 (XOR) out e @ xtea_cfb key st' r False"
      using xtea_cfb.simps [of key st "out @ r" False] len ne n
      by (simp only: Let_def e_def [symmetric] st'_def if_False n) simp
    also have "\<dots> = take n buf @ drop n buf"
      using less [of "drop n buf" st'] False len by (simp add: map2_xor_cancel out_def r_def n_def)
    finally show ?thesis unfolding E by simp
  qed (simp add: xtea_cfb.simps)
qed

text \<open>With another starting state the first block does not come back.\<close>

lemma xtea_cfb_head:
  "8 \<le> length buf \<Longrightarrow> take 8 (xtea_cfb key st buf enc) = map2 (XOR) (take 8 buf) (xtea_enc_block key (to_le st))"
  by (subst xtea_cfb.simps) (auto simp: Let_def)

lemma xtea_cfb_other_iv:
  assumes "8 \<le> length buf" "iv \<noteq> st"
  shows "xtea_cfb key iv (xtea_cfb key st buf True) False \<noteq> buf"
proof
  let ?E = "\<lambda>w. xtea_enc_block key (to_le w)"
  define a where "a = map2 (XOR) (take 8 buf) (?E st)"
  have la: "length a = 8" using assms(1) by (simp add: a_def)
  assume "xtea_cfb key iv (xtea_cfb key st buf True) False = buf"
  then have "map2 (XOR) a (?E iv) = take 8 buf"
    using xtea_cfb_head [of "xtea_cfb key st buf True" key iv False] xtea_cfb_head [OF assms(1), of key st True] assms(1)
    by (simp add: a_def)
  also have "\<dots> = map2 (XOR) a (?E st)" using assms(1) by (simp add: a_def map2_xor_cancel)
  finally have e: "map2 (XOR) a (?E iv) = map2 (XOR) a (?E st)" .
  have "?E iv ! i = ?E st ! i" if "i < 8" for i
    using arg_cong [OF e, of "\<lambda>l. l ! i"] that la by (simp add: xor_left_cancel)
  then have "?E iv = ?E st" by (intro nth_equalityI) auto
  then show False using xtea_enc_inj assms(2) by blast
qed

section \<open>Facts on the services\<close>

definition sec_ok :: "sec_world \<Rightarrow> bool" where
  "sec_ok w \<longleftrightarrow> length (sec_store w) = STORE_SLOTS \<and> length (sec_keybox w) = KEYBOX_KEYS \<and>
     (\<forall>sl \<in> set (sec_store w). length (st_data sl) = STORE_DATA_MAX \<and> st_len sl \<le> STORE_DATA_MAX)"

lemma sec_init_ok: "sec_ok (sec_init i x n)"
  by (simp add: sec_ok_def sec_init_def)

definition put_slot :: "u64 \<Rightarrow> sec_world \<Rightarrow> nat option" where
  "put_slot name w =
     (let target = store_find name (sec_store w)
      in if target \<noteq> None then target else find_idx (\<lambda>sl. st_magic sl \<noteq> STORE_MAGIC) (sec_store w))"

lemma put_slot_cases:
  assumes "put_slot name w = Some i"
  shows "i < length (sec_store w)"
    and "st_magic (sec_store w ! i) = STORE_MAGIC \<Longrightarrow> st_name (sec_store w ! i) = name"
    and "j < i \<Longrightarrow> \<not> (st_magic (sec_store w ! j) = STORE_MAGIC \<and> st_name (sec_store w ! j) = name)"
proof -
  consider "store_find name (sec_store w) = Some i"
    | "store_find name (sec_store w) = None" "find_idx (\<lambda>sl. st_magic sl \<noteq> STORE_MAGIC) (sec_store w) = Some i"
    using assms by (auto simp: put_slot_def Let_def split: if_splits)
  then have "i < length (sec_store w) \<and> (st_magic (sec_store w ! i) = STORE_MAGIC \<longrightarrow> st_name (sec_store w ! i) = name) \<and>
      (j < i \<longrightarrow> \<not> (st_magic (sec_store w ! j) = STORE_MAGIC \<and> st_name (sec_store w ! j) = name))"
    by cases (auto simp: store_find_def find_idx_Some find_idx_None)
  then show "i < length (sec_store w)"
    "st_magic (sec_store w ! i) = STORE_MAGIC \<Longrightarrow> st_name (sec_store w ! i) = name"
    "j < i \<Longrightarrow> \<not> (st_magic (sec_store w ! j) = STORE_MAGIC \<and> st_name (sec_store w ! j) = name)" by auto
qed

lemma storage_put_ok:
  assumes "sec_svc_storage_put np dp len m w = (0, w')" "sec_ok w"
  shows "\<exists>i sl. put_slot (read_name64 np m) w = Some i \<and> installed w \<and> len \<le> STORE_DATA_MAX \<and>
    st_magic sl = STORE_MAGIC \<and> st_name sl = read_name64 np m \<and> st_len sl = len \<and>
    length (st_data sl) = STORE_DATA_MAX \<and> take len (st_data sl) = pload_bytes dp len m \<and>
    w' = w\<lparr>sec_store := (sec_store w)[i := sl]\<rparr>"
proof -
  define sl where "sl = (\<lambda>i. \<lparr>st_magic = STORE_MAGIC, st_name = read_name64 np m, st_len = len,
      st_data = pload_bytes dp len m @ drop len (st_data (sec_store w ! i))\<rparr>)"
  from assms(1) obtain i where i: "put_slot (read_name64 np m) w = Some i" "installed w" "len \<le> STORE_DATA_MAX"
      "w' = w\<lparr>sec_store := (sec_store w)[i := sl i]\<rparr>"
    by (auto simp: sec_svc_storage_put_def put_slot_def Let_def sl_def split: if_splits option.splits)
  moreover have "length (st_data (sec_store w ! i)) = STORE_DATA_MAX"
    using put_slot_cases(1) [OF i(1)] assms(2) by (auto simp: sec_ok_def)
  moreover have "st_magic (sl i) = STORE_MAGIC" "st_name (sl i) = read_name64 np m" "st_len (sl i) = len"
      "st_data (sl i) = pload_bytes dp len m @ drop len (st_data (sec_store w ! i))" by (simp_all add: sl_def)
  ultimately show ?thesis by (intro exI [of _ i] exI [of _ "sl i"]) simp
qed

lemma store_find_put:
  assumes "put_slot name w = Some i" "st_magic sl = STORE_MAGIC" "st_name sl = name"
  shows "store_find name ((sec_store w)[i := sl]) = Some i"
    and "n \<noteq> name \<Longrightarrow> store_find n ((sec_store w)[i := sl]) = store_find n (sec_store w)"
    and "n \<noteq> name \<Longrightarrow> store_find n (sec_store w) = Some j \<Longrightarrow> (sec_store w)[i := sl] ! j = sec_store w ! j"
proof -
  note p = put_slot_cases [OF assms(1)]
  show "store_find name ((sec_store w)[i := sl]) = Some i"
    using p assms(2,3) by (auto simp: store_find_def find_idx_Some nth_list_update)
  show "store_find n ((sec_store w)[i := sl]) = store_find n (sec_store w)" if "n \<noteq> name"
    unfolding store_find_def by (rule find_idx_update) (use p(2) assms that in auto)
  show "(sec_store w)[i := sl] ! j = sec_store w ! j" if "n \<noteq> name" "store_find n (sec_store w) = Some j"
    using that p(2) by (cases "i = j") (auto simp: store_find_def find_idx_Some)
qed

section \<open>Properties\<close>

text \<open>
  C16.  What is put into the secure store under a name is what a later get of that name returns: the call
  reports the stored length, and exactly those bytes are in the caller's buffer.  Every other name
  still answers as before the put.
\<close>

theorem storage_roundtrip:
  assumes "sec_ok w" "sec_svc_storage_put np dp len m w = (0, w')"
    and "read_name64 np' m' = read_name64 np m" "len \<le> cap"
  shows "fst (sec_svc_storage_get np' out cap m' w') = of_nat len \<and>
    pload_bytes out len (snd (sec_svc_storage_get np' out cap m' w')) = pload_bytes dp len m \<and>
    (\<forall>p o' c. read_name64 p m' \<noteq> read_name64 np m \<longrightarrow>
       sec_svc_storage_get p o' c m' w' = sec_svc_storage_get p o' c m' w)"
proof -
  obtain i sl where s: "put_slot (read_name64 np m) w = Some i" "installed w" "len \<le> STORE_DATA_MAX"
      "st_magic sl = STORE_MAGIC" "st_name sl = read_name64 np m" "st_len sl = len"
      "length (st_data sl) = STORE_DATA_MAX" "take len (st_data sl) = pload_bytes dp len m"
      "w' = w\<lparr>sec_store := (sec_store w)[i := sl]\<rparr>"
    using storage_put_ok [OF assms(2,1)] by blast
  note f = store_find_put [OF s(1,4,5)]
  have i: "i < length (sec_store w)" by (rule put_slot_cases(1) [OF s(1)])
  have g: "sec_svc_storage_get np' out cap m' w' = (of_nat len, pstore_bytes out (pload_bytes dp len m) m')"
    using s i assms(3,4) f(1) by (simp add: sec_svc_storage_get_def Let_def)
  have "sec_svc_storage_get p o' c m' w' = sec_svc_storage_get p o' c m' w"
    if "read_name64 p m' \<noteq> read_name64 np m" for p o' c
    using f(2,3) [OF that] s(9) by (auto simp: sec_svc_storage_get_def Let_def split: option.splits)
  then show ?thesis using g pload_pstore_bytes [of out "pload_bytes dp len m" m'] by simp
qed

theorem storage_roundtrip_witness:
  "let m = boot_kmem new_zeroed; w = sec_init True 7 4;
       w' = snd (sec_svc_storage_put 0x40200000 0x40200008 3 m w)
   in fst (sec_svc_storage_get 0x40200000 0x40300000 16 m w') = 3 \<and>
      pload_bytes 0x40300000 3 (snd (sec_svc_storage_get 0x40200000 0x40300000 16 m w')) = pload_bytes 0x40200008 3 m"
proof -
  let ?m = "boot_kmem new_zeroed" and ?w = "sec_init True 7 4"
  let ?p = "sec_svc_storage_put 0x40200000 0x40200008 3 ?m ?w"
  have "store_find n (sec_store ?w) = None" for n by (auto simp: store_find_def find_idx_None sec_init_def)
  moreover have "find_idx (\<lambda>sl. st_magic sl \<noteq> STORE_MAGIC) (sec_store ?w) = Some 0"
    by (simp add: find_idx_Some sec_init_def)
  moreover have "installed ?w" by (simp add: sec_init_def)
  ultimately have "fst ?p = 0" unfolding sec_svc_storage_put_def Let_def by simp
  then have p: "?p = (0, snd ?p)" by (metis prod.collapse)
  show ?thesis
    using storage_roundtrip [OF sec_init_ok p refl, of 16 "0x40300000"] by (simp add: Let_def)
qed

text \<open>
  C17.  Enciphering a buffer and deciphering the result with the same key and starting state gives the
  buffer back, for every length.
\<close>

theorem keybox_stream_roundtrip: "xtea_cfb key iv (xtea_cfb key iv buf True) False = buf"
  by (rule xtea_cfb_inverse)

text \<open>
  C30.  Unsealing does not undo sealing: the two calls succeed, but each uses the key's counter as the
  starting state and advances it, so a buffer of at least eight bytes that is sealed and then unsealed with
  the same key never holds its original contents again.
\<close>

theorem keybox_unseal_not_inverse:
  assumes "sec_ok w" "keybox_slot kid w = Some ks" "k_ctr ks \<noteq> - 1" "k_ctr ks + 1 \<noteq> - 1" "8 \<le> len" "len \<le> SEAL_MAX"
    and "keybox_cipher kid buf len True m w = (r1, m1, w1)" "keybox_cipher kid buf len False m1 w1 = (r2, m2, w2)"
  shows "r1 = 0 \<and> r2 = 0 \<and> pload_bytes buf len m2 \<noteq> pload_bytes buf len m"
proof -
  let ?p = "pload_bytes buf len m" and ?k = "keybox_key ks" and ?ks = "ks\<lparr>k_ctr := k_ctr ks + 1\<rparr>"
  have k: "kid < KEYBOX_KEYS" "installed w" "k_valid ks = 1"
    using assms(2) by (auto simp: keybox_slot_def split: if_splits)
  have 1: "r1 = 0" "m1 = pstore_bytes buf (xtea_cfb ?k (k_ctr ks) ?p True) m"
      "w1 = w\<lparr>sec_keybox := (sec_keybox w)[kid := ?ks]\<rparr>"
    using assms(2,3,6,7) by (auto simp: keybox_cipher_def Let_def)
  have c: "pload_bytes buf len m1 = xtea_cfb ?k (k_ctr ks) ?p True"
    using pload_pstore_bytes [of buf "xtea_cfb ?k (k_ctr ks) ?p True" m] by (simp add: 1)
  have "keybox_slot kid w1 = Some ?ks" using k assms(1) by (simp add: keybox_slot_def 1 sec_ok_def)
  moreover have "keybox_key ?ks = ?k" by (simp add: keybox_key_def)
  ultimately have 2: "r2 = 0" "m2 = pstore_bytes buf (xtea_cfb ?k (k_ctr ks + 1) (pload_bytes buf len m1) False) m1"
    using assms(4,6,8) by (auto simp: keybox_cipher_def Let_def)
  have "pload_bytes buf len m2 = xtea_cfb ?k (k_ctr ks + 1) (xtea_cfb ?k (k_ctr ks) ?p True) False"
    using pload_pstore_bytes [of buf "xtea_cfb ?k (k_ctr ks + 1) (xtea_cfb ?k (k_ctr ks) ?p True) False" m1]
    by (simp add: 2 c)
  moreover have "xtea_cfb ?k (k_ctr ks + 1) (xtea_cfb ?k (k_ctr ks) ?p True) False \<noteq> ?p"
    by (rule xtea_cfb_other_iv) (use assms(5) in auto)
  ultimately show ?thesis using 1(1) 2(1) by simp
qed

theorem keybox_unseal_not_inverse_witness:
  "let m = boot_kmem new_zeroed; w = snd (secure_keybox_gen 99 3 (sec_init True 7 4));
       (r1, m1, w1) = keybox_cipher 3 0x40200000 16 True m w;
       (r2, m2, w2) = keybox_cipher 3 0x40200000 16 False m1 w1
   in r1 = 0 \<and> r2 = 0 \<and> pload_bytes 0x40200000 16 m2 \<noteq> pload_bytes 0x40200000 16 m"
proof -
  let ?m = "boot_kmem new_zeroed" and ?w = "snd (secure_keybox_gen 99 3 (sec_init True 7 4))"
  obtain r1 m1 w1 where 1: "keybox_cipher 3 0x40200000 16 True ?m ?w = (r1, m1, w1)" by (metis prod_cases3)
  obtain r2 m2 w2 where 2: "keybox_cipher 3 0x40200000 16 False m1 w1 = (r2, m2, w2)" by (metis prod_cases3)
  have ok: "sec_ok ?w" by (simp add: sec_ok_def secure_keybox_gen_def sec_init_def Let_def)
  define k0 where "k0 = splitmix64 (splitmix64 99 XOR 7)"
  define k1 where "k1 = splitmix64 (splitmix64 (splitmix64 99 XOR 7))"
  have s: "keybox_slot 3 ?w = Some \<lparr>k_valid = 1, k_0 = k0, k_1 = k1, k_ctr = 0\<rparr>"
    by (simp add: keybox_slot_def secure_keybox_gen_def sec_init_def secure_secret_def Let_def k0_def k1_def)
  show ?thesis using keybox_unseal_not_inverse [OF ok s _ _ _ _ 1 2] by (simp add: Let_def 1 2)
qed

end
