(* ===== verification/Irq_Pending.thy ===== *)
theory Irq_Pending
  imports Tanix_Prelude
begin

text \<open>
  The bitmap of delivered device interrupts, \<^verbatim>\<open>kernel/src/irq.rs\<close>: one flag per INTID below
  \<open>IRQ_MAX\<close>.  Every access of the source is one atomic operation, so the functions below are the
  atomic steps of it.
\<close>

section \<open>Model\<close>

abbreviation IRQ_MAX :: nat where
  "IRQ_MAX \<equiv> 96"

definition irq_none :: "bool list" where
  "irq_none = replicate IRQ_MAX False"

definition note_pending :: "u32 \<Rightarrow> bool list \<Rightarrow> bool list" where
  "note_pending intid b = (if unat intid < IRQ_MAX then b[unat intid := True] else b)"

definition irq_pending :: "u32 \<Rightarrow> bool list \<Rightarrow> bool" where
  "irq_pending intid b = (if unat intid < IRQ_MAX then b ! unat intid else False)"

definition take_pending :: "u32 \<Rightarrow> bool list \<Rightarrow> bool \<times> bool list" where
  "take_pending intid b =
     (if unat intid < IRQ_MAX then (b ! unat intid, b[unat intid := False]) else (False, b))"

definition clear_pending :: "u32 \<Rightarrow> bool list \<Rightarrow> bool list" where
  "clear_pending intid b = (if unat intid < IRQ_MAX then b[unat intid := False] else b)"

section \<open>Facts\<close>

lemma irq_length [simp]:
  "length irq_none = IRQ_MAX" "length (note_pending i b) = length b"
  "length (snd (take_pending i b)) = length b" "length (clear_pending i b) = length b"
  by (simp_all add: irq_none_def note_pending_def take_pending_def clear_pending_def)

lemma irq_pending_note:
  "length b = IRQ_MAX \<Longrightarrow> irq_pending j (note_pending i b) = (irq_pending j b \<or> (j = i \<and> unat i < IRQ_MAX))"
  by (auto simp: irq_pending_def note_pending_def nth_list_update word_unat_eq_iff)

lemma irq_pending_clear:
  "length b = IRQ_MAX \<Longrightarrow> irq_pending j (clear_pending i b) = (irq_pending j b \<and> j \<noteq> i)"
  by (auto simp: irq_pending_def clear_pending_def nth_list_update word_unat_eq_iff)

lemma take_pending_split: "take_pending i b = (irq_pending i b, clear_pending i b)"
  by (simp add: take_pending_def irq_pending_def clear_pending_def)

end
