(* ===== verification/Task_Sched.thy ===== *)
theory Task_Sched
  imports Monitor Irq_Pending
begin

text \<open>
  Tasks and the scheduler: \<^verbatim>\<open>kernel/src/sched/mod.rs\<close>, \<^verbatim>\<open>sched/task.rs\<close>, \<^verbatim>\<open>sched/switch.s\<close> and the
  per-CPU data of \<^verbatim>\<open>kernel/src/smp.rs\<close>.

  \<open>kstate\<close> is the state the scheduler lock guards, with the CPUs' own data: the task table, the
  register files, memory, the tick counter, the interrupt bitmap and the log of the software
  interrupts sent.  Each entry point of the source takes the lock, runs, and releases it (in the
  switch stub, or explicitly), so it is one function of the state, with the executing CPU as its
  argument; what the source does after a switch, when the task is resumed, is a function of its own.
  \<^verbatim>\<open>context_switch_unlock\<close> saves the register file of the CPU into the context of the task it leaves
  and loads that of the task it enters; the executing code is otherwise not modelled, so the other
  registers of a CPU are whatever its code made of them.
\<close>

section \<open>Strings\<close>

type_synonym rstr = "u8 list"

definition bytes :: "string \<Rightarrow> rstr" where
  "bytes s = map of_char s"

definition utf8_cont :: "u8 \<Rightarrow> bool" where
  "utf8_cont b \<longleftrightarrow> 0x80 \<le> b \<and> b \<le> 0xBF"

text \<open>\<^verbatim>\<open>core::str::from_utf8\<close> accepts exactly the well-formed sequences.\<close>

fun utf8_ok :: "rstr \<Rightarrow> bool" where
  "utf8_ok [] = True"
| "utf8_ok (b # bs) =
     (if b < 0x80 then utf8_ok bs
      else if 0xC2 \<le> b \<and> b \<le> 0xDF then
        (case bs of c # r \<Rightarrow> utf8_cont c \<and> utf8_ok r | _ \<Rightarrow> False)
      else if 0xE0 \<le> b \<and> b \<le> 0xEF then
        (case bs of c # d # r \<Rightarrow> utf8_cont c \<and> utf8_cont d \<and> (b = 0xE0 \<longrightarrow> 0xA0 \<le> c) \<and> (b = 0xED \<longrightarrow> c \<le> 0x9F) \<and> utf8_ok r
         | _ \<Rightarrow> False)
      else if 0xF0 \<le> b \<and> b \<le> 0xF4 then
        (case bs of c # d # e # r \<Rightarrow> utf8_cont c \<and> utf8_cont d \<and> utf8_cont e \<and> (b = 0xF0 \<longrightarrow> 0x90 \<le> c) \<and>
            (b = 0xF4 \<longrightarrow> c \<le> 0x8F) \<and> utf8_ok r
         | _ \<Rightarrow> False)
      else False)"

section \<open>Data\<close>

datatype task_state = Ready | Running | Blocked | Zombie

abbreviation PRIO_IDLE :: u8 where "PRIO_IDLE \<equiv> 255"
abbreviation PRIO_NORMAL :: u8 where "PRIO_NORMAL \<equiv> 128"
abbreviation M_ANY :: u32 where "M_ANY \<equiv> - 1"

record boot_info =
  boot_task_id :: u32
  boot_machine :: u32

record pending_send =
  ps_src :: u32
  ps_msg :: message

record staged_send =
  ss_dst :: u32
  ss_src :: u32
  ss_msg :: message

abbreviation SPSR_KERNEL :: u64 where "SPSR_KERNEL \<equiv> 0x3C5"
abbreviation SPSR_USER :: u64 where "SPSR_USER \<equiv> 0"

record cpu_context =
  x19_to_x28 :: "u64 list"
  ctx_fp :: u64
  ctx_lr :: u64
  ctx_sp :: u64
  ctx_sp_el0 :: u64
  ctx_spsr :: u64
  ctx_ttbr0 :: u64

definition context_zeroed :: cpu_context where
  "context_zeroed = \<lparr>x19_to_x28 = replicate 10 0, ctx_fp = 0, ctx_lr = 0, ctx_sp = 0, ctx_sp_el0 = 0,
     ctx_spsr = 0, ctx_ttbr0 = 0\<rparr>"

definition context_new :: "nat \<Rightarrow> nat \<Rightarrow> kmem \<Rightarrow> cpu_context" where
  "context_new entry_fn stack_top m =
     context_zeroed\<lparr>ctx_lr := of_nat entry_fn, ctx_sp := of_nat stack_top, ctx_spsr := SPSR_KERNEL,
       ctx_ttbr0 := of_nat (kernel_l0 m)\<rparr>"

definition context_with_boot :: "nat \<Rightarrow> nat \<Rightarrow> nat \<Rightarrow> kmem \<Rightarrow> cpu_context" where
  "context_with_boot entry_fn stack_top binfo m =
     (let c = context_new entry_fn stack_top m in c\<lparr>x19_to_x28 := (x19_to_x28 c)[0 := of_nat binfo]\<rparr>)"

definition context_new_user :: "nat \<Rightarrow> nat \<Rightarrow> u64 \<Rightarrow> nat \<Rightarrow> nat \<Rightarrow> cpu_context" where
  "context_new_user entry_fn sp0 ttbr kernel_stack_top binfo =
     context_zeroed\<lparr>ctx_lr := of_nat entry_fn, ctx_sp := of_nat kernel_stack_top, ctx_sp_el0 := of_nat sp0,
       ctx_spsr := SPSR_USER, ctx_ttbr0 := ttbr, x19_to_x28 := (x19_to_x28 context_zeroed)[0 := of_nat binfo]\<rparr>"

abbreviation TASK_NAME_LEN :: nat where "TASK_NAME_LEN \<equiv> 16"
abbreviation MAX_PENDING_SENDERS :: nat where "MAX_PENDING_SENDERS \<equiv> 2"
abbreviation REGION_NONE :: u8 where "REGION_NONE \<equiv> 0"
abbreviation REGION_STACK :: u8 where "REGION_STACK \<equiv> 1"
abbreviation REGION_DEMAND :: u8 where "REGION_DEMAND \<equiv> 2"
abbreviation TASK_REGIONS :: nat where "TASK_REGIONS \<equiv> 6"

record task_region =
  rkind :: u8
  rbase :: nat
  rpages :: nat

definition region_none :: task_region where
  "region_none = \<lparr>rkind = REGION_NONE, rbase = 0, rpages = 0\<rparr>"

record task =
  tid :: u32
  tstate :: task_state
  tctx :: cpu_context
  tname :: rstr
  task_ttbr0 :: u64
  priority :: u8
  cpu_affinity :: "nat option"
  recv_blocked :: bool
  recv_filter :: u32
  recv_buf :: nat
  pending_senders :: "pending_send option list"
  send_full_wait :: "staged_send option"
  boot :: boot_info
  irq_wait :: "u32 option"
  sleep_deadline :: nat
  image_base :: nat
  image_end :: nat
  regions :: "task_region list"

definition task_idle :: task where
  "task_idle = \<lparr>tid = 0, tstate = Running, tctx = context_zeroed, tname = bytes ''idle'' @ replicate 12 0,
     task_ttbr0 = 0, priority = PRIO_IDLE, cpu_affinity = Some 0, recv_blocked = False, recv_filter = M_ANY,
     recv_buf = 0, pending_senders = replicate MAX_PENDING_SENDERS None, send_full_wait = None,
     boot = \<lparr>boot_task_id = 0, boot_machine = 0\<rparr>, irq_wait = None, sleep_deadline = 0, image_base = 0,
     image_end = 0, regions = replicate TASK_REGIONS region_none\<rparr>"

definition task_new :: "u32 \<Rightarrow> rstr \<Rightarrow> nat \<Rightarrow> nat \<Rightarrow> kmem \<Rightarrow> task" where
  "task_new pid name entry_fn stack_top m =
     \<lparr>tid = pid, tstate = Ready, tctx = context_new entry_fn stack_top m,
      tname = take TASK_NAME_LEN name @ replicate (TASK_NAME_LEN - length name) 0,
      task_ttbr0 = 0, priority = PRIO_NORMAL, cpu_affinity = None, recv_blocked = False, recv_filter = M_ANY,
      recv_buf = 0, pending_senders = replicate MAX_PENDING_SENDERS None, send_full_wait = None,
      boot = \<lparr>boot_task_id = 0, boot_machine = 0\<rparr>, irq_wait = None, sleep_deadline = 0, image_base = 0,
      image_end = 0, regions = replicate TASK_REGIONS region_none\<rparr>"

definition name_str :: "task \<Rightarrow> rstr" where
  "name_str t = (let p = takeWhile (\<lambda>b. b \<noteq> 0) (tname t) in if utf8_ok p then p else bytes ''?'')"

abbreviation MAX_TASKS :: nat where "MAX_TASKS \<equiv> 32"
abbreviation IDLE_SLOT_BASE :: nat where "IDLE_SLOT_BASE \<equiv> 16"
abbreviation MAX_CPUS :: nat where "MAX_CPUS \<equiv> 4"

record per_cpu =
  current :: nat
  online :: bool

record kstate =
  mm :: kmem
  tasks :: "task option list"
  next_id :: u32
  woken :: "nat option"
  cpus :: "nat \<Rightarrow> per_cpu"
  live :: "nat \<Rightarrow> cpu_context"
  ticks :: nat
  sgis :: "(nat \<times> nat) list"
  irq_bits :: "bool list"
  gic_on :: "u32 \<Rightarrow> bool"
  cntpct :: u64
  sec :: sec_world

definition scheduler_new :: "task option list" where
  "scheduler_new = Some task_idle # replicate (MAX_TASKS - 1) None"

definition kstate_init :: "kmem \<Rightarrow> (nat \<Rightarrow> cpu_context) \<Rightarrow> sec_world \<Rightarrow> kstate" where
  "kstate_init m regs sw = \<lparr>mm = m, tasks = scheduler_new, next_id = 1, woken = None,
     cpus = (\<lambda>c. \<lparr>current = 0, online = False\<rparr>), live = regs, ticks = 0, sgis = [], irq_bits = irq_none,
     gic_on = (\<lambda>i. False), cntpct = 0, sec = sw\<rparr>"

section \<open>Per-CPU data\<close>

definition current_idx :: "nat \<Rightarrow> kstate \<Rightarrow> nat" where
  "current_idx cpu s = current (cpus s cpu)"

definition set_current :: "nat \<Rightarrow> nat \<Rightarrow> kstate \<Rightarrow> kstate" where
  "set_current cpu i s = s\<lparr>cpus := (cpus s)(cpu := (cpus s cpu)\<lparr>current := i\<rparr>)\<rparr>"

definition set_online :: "nat \<Rightarrow> kstate \<Rightarrow> kstate" where
  "set_online cpu s = s\<lparr>cpus := (cpus s)(cpu := (cpus s cpu)\<lparr>online := True\<rparr>)\<rparr>"

definition is_online :: "nat \<Rightarrow> kstate \<Rightarrow> bool" where
  "is_online cpu s = online (cpus s cpu)"

definition idle_slot :: "nat \<Rightarrow> nat" where
  "idle_slot cpu = (if cpu = 0 then 0 else IDLE_SLOT_BASE + cpu - 1)"

section \<open>The task table\<close>

text \<open>A slot index is below \<open>MAX_TASKS\<close> at every use (\<open>sched_ok\<close> below), so the bounds check never fires.\<close>

definition task_at :: "nat \<Rightarrow> kstate \<Rightarrow> task option" where
  "task_at i s = (if i < length (tasks s) then tasks s ! i else None)"

definition upd_task :: "nat \<Rightarrow> (task \<Rightarrow> task) \<Rightarrow> kstate \<Rightarrow> kstate" where
  "upd_task i f s = s\<lparr>tasks := (tasks s)[i := map_option f (task_at i s)]\<rparr>"

definition set_woken :: "nat \<Rightarrow> kstate \<Rightarrow> kstate" where
  "set_woken slot s = s\<lparr>woken := Some slot\<rparr>"

definition take_woken :: "kstate \<Rightarrow> nat option \<times> kstate" where
  "take_woken s = (woken s, s\<lparr>woken := None\<rparr>)"

definition spawn :: "rstr \<Rightarrow> nat \<Rightarrow> nat \<Rightarrow> kstate \<Rightarrow> (u32 option \<times> kstate) option" where
  "spawn name entry_fn stack_top s =
     (case free_slot (drop 1 (tasks s)) of
        None \<Rightarrow> Some (None, s)
      | Some k \<Rightarrow>
          do { let pid = next_id s;
               nid \<leftarrow> u32_inc (next_id s);
               Some (Some pid, s\<lparr>next_id := nid,
                 tasks := (tasks s)[k + 1 := Some (task_new pid name entry_fn stack_top (mm s))]\<rparr>) })"

text \<open>\<open>boot_addr slot\<close> is the address of the \<^verbatim>\<open>boot\<close> field of a slot of the static table.\<close>

definition spawn_with_boot :: "(nat \<Rightarrow> nat) \<Rightarrow> rstr \<Rightarrow> nat \<Rightarrow> nat \<Rightarrow> boot_info \<Rightarrow> kstate \<Rightarrow> (u32 option \<times> kstate) option" where
  "spawn_with_boot boot_addr name entry_fn stack_top bt s =
     (case free_slot (drop 1 (tasks s)) of
        None \<Rightarrow> Some (None, s)
      | Some k \<Rightarrow>
          do { let pid = next_id s;
               nid \<leftarrow> u32_inc (next_id s);
               let t = task_new pid name entry_fn stack_top (mm s);
               let t = t\<lparr>boot := bt\<lparr>boot_task_id := pid\<rparr>,
                         tctx := context_with_boot entry_fn stack_top (boot_addr (k + 1)) (mm s)\<rparr>;
               Some (Some pid, s\<lparr>next_id := nid, tasks := (tasks s)[k + 1 := Some t]\<rparr>) })"

definition write_boot_info :: "phys_addr \<Rightarrow> boot_info \<Rightarrow> kmem \<Rightarrow> kmem" where
  "write_boot_info p b m = pstore32 (p + 4) (boot_machine b) (pstore32 p (boot_task_id b) m)"

definition spawn_user ::
  "rstr \<Rightarrow> nat \<Rightarrow> u64 \<Rightarrow> nat \<Rightarrow> nat \<Rightarrow> nat \<Rightarrow> boot_info \<Rightarrow> nat \<Rightarrow> nat \<Rightarrow> kstate \<Rightarrow> (u32 option \<times> kstate) option" where
  "spawn_user name entry_fn ttbr sp0 kernel_stack_top binfo bt ibase iend s =
     (case find_idx (\<lambda>i. task_at i s = None) [1..<MAX_TASKS] of
        None \<Rightarrow> Some (None, s)
      | Some k \<Rightarrow>
          do { let slot_idx = [1..<MAX_TASKS] ! k;
               let pid = next_id s;
               nid \<leftarrow> u32_inc (next_id s);
               let b = bt\<lparr>boot_task_id := pid\<rparr>;
               let t = (task_new pid name 0 0 (mm s))
                     \<lparr>boot := b, task_ttbr0 := ttbr, image_base := ibase, image_end := iend,
                      tctx := context_new_user entry_fn sp0 ttbr kernel_stack_top binfo\<rparr>;
               Some (Some pid, s\<lparr>next_id := nid, mm := write_boot_info binfo b (mm s),
                 tasks := (tasks s)[slot_idx := Some t], woken := Some slot_idx\<rparr>) })"

definition task_idx :: "u32 \<Rightarrow> kstate \<Rightarrow> nat option" where
  "task_idx pid s = lookup_slot (\<lambda>t. tid t = pid) (tasks s)"

definition task_by_id :: "u32 \<Rightarrow> kstate \<Rightarrow> task option" where
  "task_by_id pid s = List.find (\<lambda>t. tid t = pid) (List.map_filter (\<lambda>slot. slot) (tasks s))"

definition upd_task_by_id :: "u32 \<Rightarrow> (task \<Rightarrow> task) \<Rightarrow> kstate \<Rightarrow> kstate" where
  "upd_task_by_id pid f s = (case task_idx pid s of None \<Rightarrow> s | Some i \<Rightarrow> upd_task i f s)"

definition current_name :: "nat \<Rightarrow> kstate \<Rightarrow> rstr" where
  "current_name cpu s = (case task_at (current_idx cpu s) s of Some t \<Rightarrow> name_str t | None \<Rightarrow> bytes ''?'')"

definition current_id :: "nat \<Rightarrow> kstate \<Rightarrow> u32" where
  "current_id cpu s = (case task_at (current_idx cpu s) s of Some t \<Rightarrow> tid t | None \<Rightarrow> 0)"

definition add_idle :: "nat \<Rightarrow> kstate \<Rightarrow> (nat \<times> kstate) option" where
  "add_idle cpu s =
     (let idx = IDLE_SLOT_BASE + cpu - 1 in
      if idx < MAX_TASKS \<and> task_at idx s = None \<and> 48 + cpu < 256
      then Some (idx, s\<lparr>tasks := (tasks s)[idx :=
             Some (task_idle\<lparr>tid := 0x40000000 + of_nat cpu, cpu_affinity := Some cpu,
                     tname := bytes ''idle-cpu'' @ [of_nat (48 + cpu)] @ replicate 7 0\<rparr>)]\<rparr>)
      else None)"

section \<open>Picking the next task\<close>

definition runnable :: "nat \<Rightarrow> task \<Rightarrow> bool" where
  "runnable cpu t \<longleftrightarrow> (cpu_affinity t = None \<or> cpu_affinity t = Some cpu) \<and> tstate t = Ready"

definition forward :: "nat \<Rightarrow> nat \<Rightarrow> nat" where
  "forward cur idx = (idx + MAX_TASKS - cur - 1) mod MAX_TASKS"

definition pick_next :: "nat \<Rightarrow> kstate \<Rightarrow> nat" where
  "pick_next cpu s =
     (let cur = current_idx cpu s;
          best = fold (\<lambda>idx best.
            case task_at idx s of
              None \<Rightarrow> best
            | Some t \<Rightarrow>
                if runnable cpu t then
                  (case best of
                     None \<Rightarrow> Some (priority t, idx)
                   | Some (bp, bi) \<Rightarrow>
                       if priority t < bp \<or> (priority t = bp \<and> forward cur idx < forward cur bi)
                       then Some (priority t, idx) else best)
                else best) [1..<MAX_TASKS] None
      in case best of Some (_, idx) \<Rightarrow> idx | None \<Rightarrow> idle_slot cpu)"

definition pick_next_rr :: "nat \<Rightarrow> nat \<Rightarrow> kstate \<Rightarrow> nat" where
  "pick_next_rr cpu excl s =
     (let cur = current_idx cpu s;
          best = fold (\<lambda>idx best.
            if idx = excl then best
            else case task_at idx s of
              None \<Rightarrow> best
            | Some t \<Rightarrow>
                if runnable cpu t then
                  (case best of
                     None \<Rightarrow> Some idx
                   | Some bi \<Rightarrow> if forward cur idx < forward cur bi then Some idx else best)
                else best) [1..<MAX_TASKS] None
      in case best of Some idx \<Rightarrow> idx | None \<Rightarrow> idle_slot cpu)"

definition set_state :: "nat \<Rightarrow> task_state \<Rightarrow> kstate \<Rightarrow> kstate" where
  "set_state i st s = upd_task i (\<lambda>t. t\<lparr>tstate := st\<rparr>) s"

definition set_priority :: "u32 \<Rightarrow> u8 \<Rightarrow> kstate \<Rightarrow> kstate" where
  "set_priority pid p s = upd_task_by_id pid (\<lambda>t. t\<lparr>priority := p\<rparr>) s"

definition priority_and_name :: "nat \<Rightarrow> kstate \<Rightarrow> (u8 \<times> rstr) option" where
  "priority_and_name i s = map_option (\<lambda>t. (priority t, name_str t)) (task_at i s)"

definition prio_or_idle :: "nat \<Rightarrow> kstate \<Rightarrow> u8" where
  "prio_or_idle i s = (case priority_and_name i s of Some (p, _) \<Rightarrow> p | None \<Rightarrow> 255)"

definition in_state :: "nat \<Rightarrow> task_state \<Rightarrow> kstate \<Rightarrow> bool" where
  "in_state i st s = (case task_at i s of Some t \<Rightarrow> tstate t = st | None \<Rightarrow> False)"

section \<open>Regions and queries\<close>

definition current_image_range :: "nat \<Rightarrow> kstate \<Rightarrow> nat \<times> nat" where
  "current_image_range cpu s =
     (case task_at (current_idx cpu s) s of Some t \<Rightarrow> (image_base t, image_end t) | None \<Rightarrow> (0, 0))"

definition current_ttbr0 :: "nat \<Rightarrow> kstate \<Rightarrow> u64" where
  "current_ttbr0 cpu s = (case task_at (current_idx cpu s) s of Some t \<Rightarrow> task_ttbr0 t | None \<Rightarrow> 0)"

definition region_overlap :: "nat \<Rightarrow> nat \<Rightarrow> task_region \<Rightarrow> bool" where
  "region_overlap base pend r \<longleftrightarrow>
     rkind r \<noteq> REGION_NONE \<and> rbase r < pend \<and> rbase r + rpages r * PAGE_SIZE > base"

text \<open>
  The two loops over the region table: refuse an overlap, then take the first empty entry.  The result
  is the new table, or \<open>None\<close> when the region is refused.
\<close>

definition push_region :: "u8 \<Rightarrow> nat \<Rightarrow> nat \<Rightarrow> task_region list \<Rightarrow> task_region list option" where
  "push_region kind base n rs =
     (if list_ex (region_overlap base (base + n * PAGE_SIZE)) rs then None
      else case find_idx (\<lambda>r. rkind r = REGION_NONE) rs of
             None \<Rightarrow> None
           | Some i \<Rightarrow> Some (rs[i := \<lparr>rkind = kind, rbase = base, rpages = n\<rparr>]))"

definition push_region_slot :: "nat \<Rightarrow> u8 \<Rightarrow> nat \<Rightarrow> nat \<Rightarrow> kstate \<Rightarrow> (bool \<times> kstate) option" where
  "push_region_slot i kind base n s =
     (case task_at i s of
        None \<Rightarrow> Some (False, s)
      | Some t \<Rightarrow>
          do { _ \<leftarrow> uadd base (n * PAGE_SIZE);
               Some (case push_region kind base n (regions t) of
                       None \<Rightarrow> (False, s)
                     | Some rs \<Rightarrow> (True, upd_task i (\<lambda>t. t\<lparr>regions := rs\<rparr>) s)) })"

definition push_region_for :: "u32 \<Rightarrow> u8 \<Rightarrow> nat \<Rightarrow> nat \<Rightarrow> kstate \<Rightarrow> (bool \<times> kstate) option" where
  "push_region_for pid kind base n s =
     (if n = 0 \<or> \<not> page_aligned base then Some (False, s)
      else case task_idx pid s of None \<Rightarrow> Some (False, s) | Some i \<Rightarrow> push_region_slot i kind base n s)"

definition push_current_region :: "nat \<Rightarrow> u8 \<Rightarrow> nat \<Rightarrow> nat \<Rightarrow> kstate \<Rightarrow> (bool \<times> kstate) option" where
  "push_current_region cpu kind base n s =
     (if n = 0 \<or> \<not> page_aligned base then Some (False, s)
      else push_region_slot (current_idx cpu s) kind base n s)"

definition current_regions :: "nat \<Rightarrow> kstate \<Rightarrow> task_region list" where
  "current_regions cpu s =
     (case task_at (current_idx cpu s) s of Some t \<Rightarrow> regions t | None \<Rightarrow> replicate TASK_REGIONS region_none)"

section \<open>Switching\<close>

definition saved_context :: "cpu_context \<Rightarrow> cpu_context" where
  "saved_context regs = regs\<lparr>ctx_spsr := 0x3C5\<rparr>"

definition context_switch_unlock :: "nat \<Rightarrow> nat \<Rightarrow> nat \<Rightarrow> kstate \<Rightarrow> kstate option" where
  "context_switch_unlock cpu src dst s =
     do { _ \<leftarrow> task_at src s;
          let s = upd_task src (\<lambda>t. t\<lparr>tctx := saved_context (live s cpu)\<rparr>) s;
          t \<leftarrow> task_at dst s;
          Some (s\<lparr>live := (live s)(cpu := tctx t)\<rparr>) }"

definition send_sgi :: "nat \<Rightarrow> nat \<Rightarrow> kstate \<Rightarrow> kstate" where
  "send_sgi cpu intid s = s\<lparr>sgis := (cpu, intid) # sgis s\<rparr>"

definition poke_idle_secondaries :: "kstate \<Rightarrow> kstate" where
  "poke_idle_secondaries s =
     fold (\<lambda>cpu s. if is_online cpu s \<and> in_state (idle_slot cpu) Running s then send_sgi cpu 3 s else s)
       [1..<MAX_CPUS] s"

definition poke_other_cpus :: "nat \<Rightarrow> kstate \<Rightarrow> kstate" where
  "poke_other_cpus me s =
     fold (\<lambda>cpu s. if cpu \<noteq> me \<and> is_online cpu s then send_sgi cpu 3 s else s) [1..<MAX_CPUS] s"

text \<open>The tail every switching entry point shares: mark, make current, switch.\<close>

definition run_slot :: "nat \<Rightarrow> nat \<Rightarrow> nat \<Rightarrow> kstate \<Rightarrow> kstate option" where
  "run_slot cpu src dst s = context_switch_unlock cpu src dst (set_current cpu dst (set_state dst Running s))"

definition switch_best :: "bool \<Rightarrow> nat \<Rightarrow> kstate \<Rightarrow> (bool \<times> kstate) option" where
  "switch_best strict cpu s =
     (let cur = current_idx cpu s in
      if cur = 0 then Some (False, s)
      else if \<not> in_state cur Running s then Some (False, s)
      else let nxt = (if strict then pick_next cpu s else pick_next_rr cpu cur s) in
        if nxt = cur \<or> nxt = 0 then Some (False, s)
        else if strict \<and> prio_or_idle nxt s \<ge> prio_or_idle cur s then Some (False, s)
        else do { s \<leftarrow> run_slot cpu cur nxt (set_state cur Ready s); Some (True, s) })"

definition wake_one :: "nat \<Rightarrow> bool \<times> kstate \<Rightarrow> bool \<times> kstate" where
  "wake_one idx = (\<lambda>(woke, s).
     case task_at idx s of
       None \<Rightarrow> (woke, s)
     | Some t \<Rightarrow>
         if sleep_deadline t \<noteq> 0 \<and> sleep_deadline t \<le> ticks s
         then (True, upd_task idx (\<lambda>t. t\<lparr>sleep_deadline := 0, tstate := Ready\<rparr>) s)
         else (woke, s))"

definition wake_sleepers :: "kstate \<Rightarrow> bool \<times> kstate" where
  "wake_sleepers s =
     (let (woke, s) = fold wake_one [1..<MAX_TASKS] (False, s)
      in (woke, if woke then poke_idle_secondaries s else s))"

definition tick :: "kstate \<Rightarrow> kstate" where
  "tick s = s\<lparr>ticks := (ticks s + 1) mod 2 ^ 64\<rparr>"

definition tick_preempt :: "bool \<Rightarrow> nat \<Rightarrow> kstate \<Rightarrow> kstate option" where
  "tick_preempt from_el0 cpu s =
     (let cur = current_idx cpu s;
          idle = idle_slot cpu;
          (woke, s) = wake_sleepers s
      in
      if in_state cur Zombie s then
        (let nxt = pick_next cpu s in
         if nxt \<noteq> cur \<and> nxt \<noteq> idle then run_slot cpu cur nxt s else Some s)
      else if cur = idle then
        (if woke then
           (let nxt = pick_next cpu s in if nxt \<noteq> idle then run_slot cpu cur nxt s else Some s)
         else Some s)
      else if \<not> from_el0 then Some s
      else map_option snd (switch_best False cpu s))"

definition yield_cpu :: "nat \<Rightarrow> kstate \<Rightarrow> kstate option" where
  "yield_cpu cpu s = map_option snd (switch_best True cpu s)"

definition reschedule :: "nat \<Rightarrow> kstate \<Rightarrow> (bool \<times> kstate) option" where
  "reschedule cpu s =
     (case take_woken s of
        (None, s) \<Rightarrow> Some (False, s)
      | (Some wslot, s) \<Rightarrow>
          (let cur = current_idx cpu s in
           if cur = idle_slot cpu then Some (False, s)
           else if prio_or_idle wslot s \<ge> prio_or_idle cur s then Some (False, s)
           else do { s \<leftarrow> run_slot cpu cur wslot (set_state cur Ready s); Some (True, s) }))"

section \<open>Ending and entering tasks\<close>

definition kill_task_locked :: "nat \<Rightarrow> u32 \<Rightarrow> kstate \<Rightarrow> (bool \<times> kstate) option" where
  "kill_task_locked cpu pid s =
     (let cur = current_id cpu s in
      case task_idx pid s of
        None \<Rightarrow> Some (False, s)
      | Some i \<Rightarrow>
          do { t \<leftarrow> task_at i s;
               let victim_ttbr0 = task_ttbr0 t;
               let s = upd_task i (\<lambda>t. t\<lparr>tstate := Zombie, recv_blocked := False\<rparr>) s;
               if victim_ttbr0 \<noteq> 0 \<and> pid \<noteq> cur
               then do { m \<leftarrow> free_task_tables (unat victim_ttbr0) (mm s);
                         Some (True, (upd_task i (\<lambda>t. t\<lparr>task_ttbr0 := 0\<rparr>) s)\<lparr>mm := m\<rparr>) }
               else Some (True, s) })"

definition exit_current :: "nat \<Rightarrow> kstate \<Rightarrow> kstate option" where
  "exit_current cpu s =
     (let idx = current_idx cpu s;
          s = set_state idx Zombie s
      in run_slot cpu idx (pick_next cpu s) s)"

definition enter :: "nat \<Rightarrow> kstate \<Rightarrow> kstate option" where
  "enter cpu s =
     (let idle = idle_slot cpu; nxt = pick_next cpu s in
      if nxt = idle then Some s else run_slot cpu idle nxt s)"

definition schedule :: "nat \<Rightarrow> kstate \<Rightarrow> kstate option" where
  "schedule cpu s =
     (let cur = current_idx cpu s; nxt = pick_next cpu s in
      if cur = nxt then Some s
      else if task_at cur s = None \<or> task_at nxt s = None then Some s
      else run_slot cpu cur nxt (if in_state cur Running s then set_state cur Ready s else s))"

text \<open>One round of the secondary's loop: the flag says whether it switched (otherwise it parks in \<^verbatim>\<open>wfi\<close>).\<close>

definition secondary_enter :: "nat \<Rightarrow> kstate \<Rightarrow> (bool \<times> kstate) option" where
  "secondary_enter cpu s =
     (let idle = idle_slot cpu; nxt = pick_next cpu s in
      if nxt \<noteq> idle
      then do { s \<leftarrow> run_slot cpu idle nxt (set_state idle Ready s); Some (True, s) }
      else Some (False, s))"

text \<open>\<open>cpu_on\<close> is the firmware's \<^verbatim>\<open>PSCI CPU_ON\<close>: 0 when the core starts.\<close>

definition bring_up :: "(nat \<Rightarrow> int) \<Rightarrow> kstate \<Rightarrow> kstate option" where
  "bring_up cpu_on s =
     do { let s = set_online 0 s;
          s \<leftarrow> foldm (\<lambda>cpu s. map_option snd (add_idle cpu s)) [1..<MAX_CPUS] s;
          Some (fold (\<lambda>cpu s. if cpu_on cpu = 0 then set_online cpu s else s) [1..<MAX_CPUS] s) }"

section \<open>The task table: basic facts\<close>

lemma task_at_upd: "task_at j (upd_task i f s) = (if j = i then map_option f (task_at i s) else task_at j s)"
  by (auto simp: task_at_def upd_task_def)

lemma upd_task_sel [simp]:
  "length (tasks (upd_task i f s)) = length (tasks s)" "mm (upd_task i f s) = mm s"
  "next_id (upd_task i f s) = next_id s" "woken (upd_task i f s) = woken s" "cpus (upd_task i f s) = cpus s"
  "live (upd_task i f s) = live s" "ticks (upd_task i f s) = ticks s" "sgis (upd_task i f s) = sgis s"
  "irq_bits (upd_task i f s) = irq_bits s" "gic_on (upd_task i f s) = gic_on s"
  by (simp_all add: upd_task_def)

lemma task_at_other [simp]:
  "task_at i (s\<lparr>mm := m\<rparr>) = task_at i s" "task_at i (s\<lparr>woken := w\<rparr>) = task_at i s"
  "task_at i (s\<lparr>cpus := cc\<rparr>) = task_at i s" "task_at i (s\<lparr>live := l\<rparr>) = task_at i s"
  "task_at i (s\<lparr>sgis := g\<rparr>) = task_at i s" "task_at i (s\<lparr>ticks := n\<rparr>) = task_at i s"
  "task_at i (s\<lparr>irq_bits := b\<rparr>) = task_at i s" "task_at i (s\<lparr>gic_on := e\<rparr>) = task_at i s"
  "task_at i (s\<lparr>next_id := x\<rparr>) = task_at i s" "task_at i (s\<lparr>sec := v\<rparr>) = task_at i s"
  "task_at i (s\<lparr>cntpct := y\<rparr>) = task_at i s"
  by (simp_all add: task_at_def)

lemma current_idx_simps [simp]:
  "current_idx c (upd_task i f s) = current_idx c s"
  "current_idx c (set_current cpu i s) = (if c = cpu then i else current_idx c s)"
  "current_idx c (s\<lparr>mm := m\<rparr>) = current_idx c s" "current_idx c (s\<lparr>woken := w\<rparr>) = current_idx c s"
  "current_idx c (s\<lparr>live := l\<rparr>) = current_idx c s" "current_idx c (s\<lparr>sgis := g\<rparr>) = current_idx c s"
  "current_idx c (s\<lparr>ticks := n\<rparr>) = current_idx c s" "current_idx c (s\<lparr>tasks := ts\<rparr>) = current_idx c s"
  "current_idx c (s\<lparr>irq_bits := b\<rparr>) = current_idx c s" "current_idx c (s\<lparr>gic_on := e\<rparr>) = current_idx c s"
  "current_idx c (s\<lparr>next_id := x\<rparr>) = current_idx c s" "current_idx c (s\<lparr>sec := v\<rparr>) = current_idx c s"
  "current_idx c (s\<lparr>cntpct := y\<rparr>) = current_idx c s"
  by (simp_all add: current_idx_def set_current_def)

lemma set_current_sel [simp]:
  "tasks (set_current cpu i s) = tasks s" "task_at j (set_current cpu i s) = task_at j s"
  "mm (set_current cpu i s) = mm s" "next_id (set_current cpu i s) = next_id s"
  "woken (set_current cpu i s) = woken s" "live (set_current cpu i s) = live s"
  "ticks (set_current cpu i s) = ticks s" "sgis (set_current cpu i s) = sgis s"
  by (simp_all add: set_current_def)

lemma task_at_set_state:
  "task_at j (set_state i st s) = (if j = i then map_option (\<lambda>t. t\<lparr>tstate := st\<rparr>) (task_at i s) else task_at j s)"
  by (simp add: set_state_def task_at_upd)

lemma set_state_sel [simp]:
  "length (tasks (set_state i st s)) = length (tasks s)" "mm (set_state i st s) = mm s"
  "next_id (set_state i st s) = next_id s" "woken (set_state i st s) = woken s" "cpus (set_state i st s) = cpus s"
  "live (set_state i st s) = live s" "current_idx c (set_state i st s) = current_idx c s"
  "ticks (set_state i st s) = ticks s" "sgis (set_state i st s) = sgis s"
  by (simp_all add: set_state_def)

lemma task_idx_Some: "task_idx pid s = Some i \<Longrightarrow> \<exists>t. task_at i s = Some t \<and> tid t = pid"
  by (auto simp: task_idx_def task_at_def dest: lookup_slot_Some)

lemma task_idx_None: "task_idx pid s = None \<Longrightarrow> task_at i s = Some t \<Longrightarrow> tid t \<noteq> pid"
  by (auto simp: task_idx_def task_at_def lookup_slot_None split: if_splits) (metis nth_mem)

section \<open>The picks\<close>

text \<open>
  Both loops compute the least element, in the order of the source's comparison, of the runnable slots.
  The order is total on the slots because the forward distance from the current slot is injective.
\<close>

lemma forward_eq:
  assumes "i < MAX_TASKS" "cur < MAX_TASKS"
  shows "forward cur i = (if cur < i then i - cur - 1 else i + 31 - cur)"
proof (cases "cur < i")
  case True
  then have "i + MAX_TASKS - cur - 1 = (i - cur - 1) + MAX_TASKS" by simp
  then have "forward cur i = (i - cur - 1) mod MAX_TASKS" by (simp only: forward_def mod_add_self2)
  then show ?thesis using True assms by simp
qed (use assms in \<open>simp add: forward_def\<close>)

lemma forward_inj:
  "i < MAX_TASKS \<Longrightarrow> j < MAX_TASKS \<Longrightarrow> cur < MAX_TASKS \<Longrightarrow> forward cur i = forward cur j \<Longrightarrow> i = j"
  by (auto simp: forward_eq split: if_splits)

definition better :: "nat \<Rightarrow> u8 \<times> nat \<Rightarrow> u8 \<times> nat \<Rightarrow> bool" where
  "better cur = (\<lambda>(p, i) (q, j). p < q \<or> p = q \<and> forward cur i < forward cur j)"

lemma better_order: "transp (better cur)" "irreflp (better cur)"
  by (auto simp: better_def transp_def irreflp_def)

text \<open>A scan that keeps the best element seen so far, generic in the key and the order.\<close>

definition scan_best :: "('k \<Rightarrow> 'k \<Rightarrow> bool) \<Rightarrow> ('a \<Rightarrow> 'k option) \<Rightarrow> 'a list \<Rightarrow> 'k option \<Rightarrow> 'k option" where
  "scan_best lt key xs b0 =
     fold (\<lambda>x b. case key x of None \<Rightarrow> b
             | Some k \<Rightarrow> (case b of None \<Rightarrow> Some k | Some kb \<Rightarrow> if lt k kb then Some k else b)) xs b0"

lemma scan_best_snoc:
  "scan_best lt key (xs @ [x]) b0 =
     (case key x of None \<Rightarrow> scan_best lt key xs b0
      | Some k \<Rightarrow> (case scan_best lt key xs b0 of None \<Rightarrow> Some k
          | Some kb \<Rightarrow> if lt k kb then Some k else scan_best lt key xs b0))"
  unfolding scan_best_def by simp

lemma scan_best_None: "scan_best lt key xs None = None \<longleftrightarrow> (\<forall>x \<in> set xs. key x = None)"
proof (induction xs rule: rev_induct)
  case (snoc x xs)
  then show ?case unfolding scan_best_snoc by (auto split: option.splits if_splits)
qed (simp add: scan_best_def)

lemma scan_best_Some:
  assumes "transp lt" "irreflp lt"
    and "scan_best lt key xs None = Some k"
  shows "(\<exists>x \<in> set xs. key x = Some k) \<and> (\<forall>x \<in> set xs. \<forall>k'. key x = Some k' \<longrightarrow> \<not> lt k' k)"
  using assms(3)
proof (induction xs arbitrary: k rule: rev_induct)
  case (snoc x xs)
  show ?case
  proof (cases "scan_best lt key xs None")
    case None
    then have "\<forall>y \<in> set xs. key y = None" by (simp add: scan_best_None)
    then show ?thesis using snoc.prems None assms(2) unfolding scan_best_snoc by (auto simp: irreflp_def split: option.splits)
  next
    case (Some kb)
    with snoc.IH have IH: "\<exists>y \<in> set xs. key y = Some kb" "\<forall>y \<in> set xs. \<forall>k'. key y = Some k' \<longrightarrow> \<not> lt k' kb" by auto
    then show ?thesis using snoc.prems Some assms unfolding scan_best_snoc
      by (auto simp: irreflp_def split: option.splits if_splits dest: transpD)
  qed
qed (simp add: scan_best_def)

definition pick_key :: "nat \<Rightarrow> kstate \<Rightarrow> nat \<Rightarrow> (u8 \<times> nat) option" where
  "pick_key cpu s idx =
     (case task_at idx s of Some t \<Rightarrow> if runnable cpu t then Some (priority t, idx) else None | None \<Rightarrow> None)"

lemma pick_next_scan:
  "pick_next cpu s =
     (case scan_best (better (current_idx cpu s)) (pick_key cpu s) [1..<MAX_TASKS] None of
        Some (_, idx) \<Rightarrow> idx | None \<Rightarrow> idle_slot cpu)"
proof -
  have "(case task_at idx s of None \<Rightarrow> best
           | Some t \<Rightarrow> if runnable cpu t then
               (case best of None \<Rightarrow> Some (priority t, idx)
                | Some (bp, bi) \<Rightarrow> if priority t < bp \<or> (priority t = bp \<and> forward cur idx < forward cur bi)
                    then Some (priority t, idx) else best) else best) =
        (case pick_key cpu s idx of None \<Rightarrow> best
           | Some k \<Rightarrow> (case best of None \<Rightarrow> Some k | Some kb \<Rightarrow> if better cur k kb then Some k else best))"
    for idx best cur
    by (auto simp: pick_key_def better_def split: option.splits)
  then show ?thesis unfolding pick_next_def scan_best_def Let_def by presburger
qed

definition rr_key :: "nat \<Rightarrow> nat \<Rightarrow> kstate \<Rightarrow> nat \<Rightarrow> nat option" where
  "rr_key cpu excl s idx =
     (if idx = excl then None
      else case task_at idx s of Some t \<Rightarrow> if runnable cpu t then Some idx else None | None \<Rightarrow> None)"

lemma pick_next_rr_scan:
  "pick_next_rr cpu excl s =
     (case scan_best (\<lambda>i j. forward (current_idx cpu s) i < forward (current_idx cpu s) j) (rr_key cpu excl s)
             [1..<MAX_TASKS] None of
        Some idx \<Rightarrow> idx | None \<Rightarrow> idle_slot cpu)"
proof -
  have "(if idx = excl then best
         else case task_at idx s of None \<Rightarrow> best
           | Some t \<Rightarrow> if runnable cpu t then
               (case best of None \<Rightarrow> Some idx
                | Some bi \<Rightarrow> if forward cur idx < forward cur bi then Some idx else best) else best) =
        (case rr_key cpu excl s idx of None \<Rightarrow> best
           | Some k \<Rightarrow> (case best of None \<Rightarrow> Some k | Some kb \<Rightarrow> if forward cur k < forward cur kb then Some k else best))"
    for idx best cur
    by (auto simp: rr_key_def split: option.splits)
  then show ?thesis unfolding pick_next_rr_def scan_best_def Let_def by presburger
qed

lemma pick_key_Some: "pick_key cpu s i = Some k \<longleftrightarrow> (\<exists>t. task_at i s = Some t \<and> runnable cpu t \<and> k = (priority t, i))"
  by (auto simp: pick_key_def split: option.splits)

lemma rr_key_Some: "rr_key cpu excl s i = Some k \<longleftrightarrow> k = i \<and> i \<noteq> excl \<and> (\<exists>t. task_at i s = Some t \<and> runnable cpu t)"
  by (auto simp: rr_key_def split: option.splits)

definition slots :: "nat list" where "slots = [1..<MAX_TASKS]"

lemma slots_set [simp]: "i \<in> set slots \<longleftrightarrow> 0 < i \<and> i < MAX_TASKS"
  by (auto simp: slots_def)

lemma pick_next_cases:
  "pick_next cpu s = idle_slot cpu \<and> (\<forall>i \<in> set slots. \<forall>t. task_at i s = Some t \<longrightarrow> \<not> runnable cpu t) \<or>
   pick_next cpu s \<in> set slots \<and>
   (\<exists>t. task_at (pick_next cpu s) s = Some t \<and> runnable cpu t \<and>
     (\<forall>j \<in> set slots. \<forall>u. task_at j s = Some u \<longrightarrow> runnable cpu u \<longrightarrow>
        \<not> better (current_idx cpu s) (priority u, j) (priority t, pick_next cpu s)))"
proof (cases "scan_best (better (current_idx cpu s)) (pick_key cpu s) slots None")
  case None
  then have "\<forall>i \<in> set slots. pick_key cpu s i = None" by (simp only: scan_best_None)
  moreover from None have "pick_next cpu s = idle_slot cpu" by (simp add: pick_next_scan slots_def)
  ultimately show ?thesis by (metis option.distinct(1) pick_key_Some)
next
  case (Some k)
  then have i: "pick_next cpu s = snd k" by (simp add: pick_next_scan slots_def split: prod.splits)
  note k = scan_best_Some [OF better_order Some]
  then obtain x where x: "x \<in> set slots" "pick_key cpu s x = Some k" by blast
  then obtain t where t: "task_at x s = Some t" "runnable cpu t" "k = (priority t, x)" by (auto simp: pick_key_Some)
  have "\<not> better (current_idx cpu s) (priority u, j) (priority t, x)"
    if "j \<in> set slots" "task_at j s = Some u" "runnable cpu u" for j u
    using k that t by (auto simp: pick_key_Some)
  then show ?thesis using x t i by auto
qed

lemma pick_next_rr_cases:
  "pick_next_rr cpu excl s = idle_slot cpu \<and>
     (\<forall>i \<in> set slots. \<forall>t. i \<noteq> excl \<longrightarrow> task_at i s = Some t \<longrightarrow> \<not> runnable cpu t) \<or>
   pick_next_rr cpu excl s \<in> set slots \<and> pick_next_rr cpu excl s \<noteq> excl \<and>
   (\<exists>t. task_at (pick_next_rr cpu excl s) s = Some t \<and> runnable cpu t) \<and>
   (\<forall>j \<in> set slots. \<forall>u. j \<noteq> excl \<longrightarrow> task_at j s = Some u \<longrightarrow> runnable cpu u \<longrightarrow>
        forward (current_idx cpu s) (pick_next_rr cpu excl s) \<le> forward (current_idx cpu s) j)"
proof (cases "scan_best (\<lambda>i j. forward (current_idx cpu s) i < forward (current_idx cpu s) j) (rr_key cpu excl s) slots None")
  case None
  then have "\<forall>i \<in> set slots. rr_key cpu excl s i = None" by (simp only: scan_best_None)
  moreover from None have "pick_next_rr cpu excl s = idle_slot cpu" by (simp add: pick_next_rr_scan slots_def)
  ultimately show ?thesis by (metis option.distinct(1) rr_key_Some)
next
  case (Some k)
  then have i: "pick_next_rr cpu excl s = k" by (simp add: pick_next_rr_scan slots_def)
  note k = scan_best_Some [OF _ _ Some, simplified transp_def irreflp_def, simplified]
  then obtain x where "x \<in> set slots" "rr_key cpu excl s x = Some k" by blast
  then have x: "k \<in> set slots" "k \<noteq> excl" "\<exists>t. task_at k s = Some t \<and> runnable cpu t" by (auto simp: rr_key_Some)
  have "forward (current_idx cpu s) k \<le> forward (current_idx cpu s) j"
    if "j \<in> set slots" "j \<noteq> excl" "task_at j s = Some u" "runnable cpu u" for j u
    using k that by (auto simp: rr_key_Some not_less)
  then show ?thesis using x i by auto
qed

end
