(* ===== verification/Vm_Fault.thy ===== *)
theory Vm_Fault
  imports Task_Sched
begin

text \<open>
  Repairing user page faults, \<^verbatim>\<open>kernel/src/mem/vm_fault.rs\<close>: stack growth, demand paging from the shared zero
  page, and the copy-on-write split.

  The resolver runs under the scheduler lock for the task that is current on the CPU.  It answers whether
  the faulting instruction may be executed again; \<open>None\<close> is a kernel panic.  The lemmas show that a split
  gives the task a private copy and touches nothing else, that the two faults of a first write to a demand
  page end with a private zero page, and that a fault outside every region changes nothing.
\<close>

section \<open>Model\<close>

definition DFSC_TT_FIRST :: u64 where "DFSC_TT_FIRST = 0b000100"
definition DFSC_AF_FIRST :: u64 where "DFSC_AF_FIRST = 0b001000"
definition DFSC_PERM_FIRST :: u64 where "DFSC_PERM_FIRST = 0b001100"

definition in_class :: "u64 \<Rightarrow> u64 \<Rightarrow> bool" where
  "in_class dfsc fst_code \<longleftrightarrow> dfsc \<ge> fst_code \<and> dfsc \<le> fst_code + 3"

text \<open>\<^verbatim>\<open>page >= r.base && page < r.base + r.pages * PAGE_SIZE\<close>: the sum is only computed when the first test holds.\<close>

definition covers :: "nat \<Rightarrow> task_region \<Rightarrow> bool option" where
  "covers page r =
     (if page < rbase r then Some False
      else do { e \<leftarrow> uadd (rbase r) (rpages r * PAGE_SIZE); Some (page < e) })"

text \<open>A stack page is opened on its own frame, a demand page aliases the shared zero page.\<close>

definition fill_page :: "phys_addr \<Rightarrow> virt_addr \<Rightarrow> u8 \<Rightarrow> kmem \<Rightarrow> kmem option" where
  "fill_page root page kind m =
     (if kind = REGION_STACK then map_user_frame root page page FLAGS_USER_RWX m
      else map_user_frame root page (zero_page m) FLAGS_USER_COW m)"

definition fillable :: "u8 \<Rightarrow> bool" where
  "fillable kind \<longleftrightarrow> kind = REGION_STACK \<or> kind = REGION_DEMAND"

primrec tt_repair :: "phys_addr \<Rightarrow> virt_addr \<Rightarrow> task_region list \<Rightarrow> kmem \<Rightarrow> (bool \<times> kmem) option" where
  "tt_repair root page [] m = Some (False, m)"
| "tt_repair root page (r # rs) m =
     (if \<not> fillable (rkind r) then tt_repair root page rs m
      else do { c \<leftarrow> covers page r;
                if c then do { m \<leftarrow> fill_page root page (rkind r) m; Some (True, m) }
                else tt_repair root page rs m })"

primrec perm_repair :: "phys_addr \<Rightarrow> virt_addr \<Rightarrow> task_region list \<Rightarrow> kmem \<Rightarrow> (bool \<times> kmem) option" where
  "perm_repair root page [] m = Some (False, m)"
| "perm_repair root page (r # rs) m =
     do { c \<leftarrow> covers page r;
          if \<not> c then perm_repair root page rs m
          else if fillable (rkind r) then do { m \<leftarrow> fill_page root page (rkind r) m; Some (True, m) }
          else Some (False, m) }"

text \<open>
  The copy panics (debug precondition of \<^verbatim>\<open>copy_nonoverlapping\<close>) on a null source and on a source that is the
  fresh frame itself.
\<close>

definition cow_split :: "phys_addr \<Rightarrow> virt_addr \<Rightarrow> u64 \<Rightarrow> kmem \<Rightarrow> (bool \<times> kmem) option" where
  "cow_split root va e m =
     (let shared = desc_addr e in
      do { (r, m) \<leftarrow> alloc_frame m;
           case r of
             None \<Rightarrow> Some (False, m)
           | Some fresh \<Rightarrow>
               if shared = 0 \<or> fresh = 0 \<or> shared = fresh then None
               else let m = m\<lparr>pages := (pages m)(fresh := pages m shared)\<rparr>
                    in Some (True, write_user_page root va (of_nat fresh OR FLAGS_USER_RWX) m) })"

definition is_cow :: "u64 \<Rightarrow> bool" where
  "is_cow e \<longleftrightarrow> e AND DESC_VALID \<noteq> 0 \<and> e AND DESC_COW_TAG \<noteq> 0"

definition perm_fault :: "phys_addr \<Rightarrow> virt_addr \<Rightarrow> task_region list \<Rightarrow> kmem \<Rightarrow> (bool \<times> kmem) option" where
  "perm_fault root page rs m =
     (let e = read_user_page root page m in
      if is_cow e then cow_split root page e m else perm_repair root page rs m)"

definition af_fault :: "phys_addr \<Rightarrow> virt_addr \<Rightarrow> kmem \<Rightarrow> (bool \<times> kmem) option" where
  "af_fault root page m =
     (let e = read_user_page root page m in
      if is_cow e then cow_split root page e m
      else if e AND DESC_VALID \<noteq> 0 \<and> e AND DESC_COW_TAG = 0 \<and> e AND DESC_AF = 0
      then Some (True, write_user_page root page (e OR DESC_AF) m)
      else Some (False, m))"

definition resolve_user_fault :: "nat \<Rightarrow> nat \<Rightarrow> u64 \<Rightarrow> kstate \<Rightarrow> (bool \<times> kstate) option" where
  "resolve_user_fault cpu far esr s =
     (let d = esr AND 0x3F;
          page = page_down far;
          ttbr0 = unat (current_ttbr0 cpu s);
          rs = current_regions cpu s
      in if ttbr0 = 0 then Some (False, s)
         else do { (handled, m) \<leftarrow>
                     (if in_class d DFSC_TT_FIRST then tt_repair ttbr0 page rs (mm s)
                      else if in_class d DFSC_PERM_FIRST then perm_fault ttbr0 page rs (mm s)
                      else if in_class d DFSC_AF_FIRST then af_fault ttbr0 page (mm s)
                      else Some (False, mm s));
                   Some (handled, s\<lparr>mm := m\<rparr>) })"

section \<open>Facts\<close>

lemma resolve_mm: "resolve_user_fault cpu far esr s = Some (b, s') \<Longrightarrow> \<exists>m. s' = s\<lparr>mm := m\<rparr>"
  by (auto simp: resolve_user_fault_def Let_def split: if_splits Option.bind_splits intro: exI [of _ "mm s"])

lemma resolve_class:
  assumes "current_ttbr0 cpu s = ttbr" "ttbr \<noteq> 0"
  shows "esr AND 0x3F = DFSC_TT_FIRST + k \<Longrightarrow> k \<le> 3 \<Longrightarrow> resolve_user_fault cpu far esr s =
      do { (b, m) \<leftarrow> tt_repair (unat ttbr) (page_down far) (current_regions cpu s) (mm s); Some (b, s\<lparr>mm := m\<rparr>) }"
    and "esr AND 0x3F = DFSC_PERM_FIRST + k \<Longrightarrow> k \<le> 3 \<Longrightarrow> resolve_user_fault cpu far esr s =
      do { (b, m) \<leftarrow> perm_fault (unat ttbr) (page_down far) (current_regions cpu s) (mm s); Some (b, s\<lparr>mm := m\<rparr>) }"
proof -
  have k: "k = 0 \<or> k = 1 \<or> k = 2 \<or> k = 3" if "k \<le> 3"
  proof -
    have "unat k \<le> 3" using that by (simp add: word_le_nat_alt)
    then have "unat k = 0 \<or> unat k = 1 \<or> unat k = 2 \<or> unat k = 3" by linarith
    then show ?thesis by (auto simp: word_unat_eq_iff)
  qed
  have t: "unat ttbr \<noteq> 0" using assms(2) by (simp add: unat_eq_zero)
  show "esr AND 0x3F = DFSC_TT_FIRST + k \<Longrightarrow> k \<le> 3 \<Longrightarrow> resolve_user_fault cpu far esr s =
      do { (b, m) \<leftarrow> tt_repair (unat ttbr) (page_down far) (current_regions cpu s) (mm s); Some (b, s\<lparr>mm := m\<rparr>) }"
    using k t assms(1) unfolding resolve_user_fault_def in_class_def DFSC_TT_FIRST_def by auto
  show "esr AND 0x3F = DFSC_PERM_FIRST + k \<Longrightarrow> k \<le> 3 \<Longrightarrow> resolve_user_fault cpu far esr s =
      do { (b, m) \<leftarrow> perm_fault (unat ttbr) (page_down far) (current_regions cpu s) (mm s); Some (b, s\<lparr>mm := m\<rparr>) }"
    using k t assms(1) unfolding resolve_user_fault_def in_class_def DFSC_TT_FIRST_def DFSC_PERM_FIRST_def by auto
qed

lemma cow_split_ok:
  assumes "tree_ok 3 root m" "leaf 3 (pages m) root va = (0, e)" "avail m \<noteq> {}" "0 \<notin> avail m"
    and "desc_addr e \<notin> avail m" "desc_addr e \<noteq> 0"
  shows "\<exists>f m'. cow_split root va e m = Some (True, m') \<and> tree_ok 3 root m' \<and> taken {f} m m' \<and>
    leaf 3 (pages m') root va = (0, of_nat f OR FLAGS_USER_RWX) \<and> pages m' f = pages m (desc_addr e) \<and>
    (\<forall>p. p \<notin> insert f (set (tables 3 (pages m) root)) \<longrightarrow> pages m' p = pages m p) \<and>
    (\<forall>va'. va' \<notin> same_page 3 va \<longrightarrow> xlate 3 (pages m') root va' = xlate 3 (pages m) root va')"
proof -
  have k: "kmem_ok m" "set (tables 3 (pages m) root) \<inter> avail m = {}" using assms(1) by (auto simp: tree_ok_def)
  obtain f m1 where f: "alloc_frame m = Some (Some f, m1)" "taken {f} m m1" "pages m1 = pages m"
    using alloc_frame_ok [OF k(1) assms(3)] by blast
  have fa: "f \<in> avail m" using f(2) by (simp add: taken_def)
  then have ft: "f \<notin> set (tables 3 (pages m) root)" "f \<noteq> 0" "f \<noteq> desc_addr e" using k(2) assms(4,5) by auto
  define m2 where "m2 = m1\<lparr>pages := (pages m)(f := pages m (desc_addr e))\<rparr>"
  have same: "p \<in> set (tables 3 (pages m) root) \<Longrightarrow> pages m2 p = pages m p" for p
    using ft(1) by (auto simp: m2_def)
  have tab: "tables 3 (pages m2) root = tables 3 (pages m) root" by (rule tables_cong) (rule same)
  have lf: "leaf 3 (pages m2) root va' = leaf 3 (pages m) root va'" for va' by (rule leaf_cong) (rule same)
  have t2: "taken {f} m m2" using f(2) by (auto simp: m2_def taken_def kmem_ok_def avail_def managed_def)
  have tr2: "tree_ok 3 root m2"
    using assms(1) t2 unfolding tree_ok_def tab by (auto simp: taken_def)
  let ?v = "of_nat f OR FLAGS_USER_RWX :: u64"
  have l0: "fst (leaf 3 (pages m2) root va) = 0" using assms(2) lf by simp
  obtain m' where m': "map_at 3 root va ?v m2 = Some m'" "tree_upd 3 root 0 (same_page 3 va) m2 m'"
      "leaf 3 (pages m') root va = (0, ?v)"
    using map_at_ok [OF tr2, of va ?v] l0 by (auto simp: open_at_def)
  have w: "m' = write_user_page root va ?v m2" using write_user_page_map_at [OF l0, of ?v] m'(1) by simp
  obtain X where X: "taken X m2 m'" "card X \<le> 0" "\<forall>p. p \<notin> set (tables 3 (pages m2) root) \<union> X \<longrightarrow> pages m' p = pages m2 p"
      "\<forall>va'. va' \<notin> same_page 3 va \<longrightarrow> xlate 3 (pages m') root va' = xlate 3 (pages m2) root va'"
    using m'(2) unfolding tree_upd_def by blast
  have "X = {}" using X(1,2) km.finite_avail [of m2] unfolding taken_def by (metis card_0_eq finite_subset le_zero_eq)
  have x: "xlate 3 (pages m2) root va' = xlate 3 (pages m) root va'" for va' by (rule xlate_leaf) (rule lf)
  show ?thesis
  proof (intro exI conjI)
    show "cow_split root va e m = Some (True, m')"
      using ft assms(6) f(3) unfolding cow_split_def f(1) w m2_def by (simp add: Let_def)
    show "tree_ok 3 root m'" by (rule tree_upd_ok [OF tr2 m'(2)])
    show "taken {f} m m'" using taken_trans [OF t2 X(1)] \<open>X = {}\<close> by simp
    show "pages m' f = pages m (desc_addr e)"
      using X(3) ft(1) \<open>X = {}\<close> unfolding tab by (simp add: m2_def)
    show "\<forall>p. p \<notin> insert f (set (tables 3 (pages m) root)) \<longrightarrow> pages m' p = pages m p"
      using X(3) \<open>X = {}\<close> unfolding tab by (simp add: m2_def)
  qed (use m'(3) X(4) x in auto)
qed

section \<open>Regions\<close>

text \<open>
  What the region table of a task always satisfies: empty entries have no pages, no region wraps around
  the address space, and the regions in use do not overlap.
\<close>

definition region_pages :: "task_region \<Rightarrow> nat set" where
  "region_pages r = {rbase r ..< rbase r + rpages r * PAGE_SIZE}"

definition regions_ok :: "task_region list \<Rightarrow> bool" where
  "regions_ok rs \<longleftrightarrow>
     (\<forall>r \<in> set rs. rbase r + rpages r * PAGE_SIZE < USIZE_LIMIT \<and> (rkind r = REGION_NONE \<longrightarrow> rpages r = 0)) \<and>
     sorted_wrt (\<lambda>r u. region_pages r \<inter> region_pages u = {}) rs"

definition region_of :: "nat \<Rightarrow> task_region list \<Rightarrow> task_region option" where
  "region_of page rs = List.find (\<lambda>r. page \<in> region_pages r) rs"

lemma covers_ok: "rbase r + rpages r * PAGE_SIZE < USIZE_LIMIT \<Longrightarrow> covers page r = Some (page \<in> region_pages r)"
  by (auto simp: covers_def region_pages_def uadd_fits)

lemma regions_ok_Cons: "regions_ok (r # rs) \<Longrightarrow> regions_ok rs"
  by (simp add: regions_ok_def)

lemma region_of_unique:
  "regions_ok rs \<Longrightarrow> r \<in> set rs \<Longrightarrow> page \<in> region_pages r \<Longrightarrow> region_of page rs = Some r"
  by (induction rs) (auto simp: region_of_def regions_ok_def)

lemma perm_repair_region:
  "regions_ok rs \<Longrightarrow> perm_repair root page rs m =
     (case region_of page rs of
        None \<Rightarrow> Some (False, m)
      | Some r \<Rightarrow> if fillable (rkind r) then do { m \<leftarrow> fill_page root page (rkind r) m; Some (True, m) } else Some (False, m))"
proof (induction rs)
  case (Cons r rs)
  then have "covers page r = Some (page \<in> region_pages r)" by (intro covers_ok) (simp add: regions_ok_def)
  then show ?case using Cons.IH [OF regions_ok_Cons [OF Cons.prems]] by (simp add: region_of_def)
qed (simp add: region_of_def)

lemma tt_repair_region:
  "regions_ok rs \<Longrightarrow> tt_repair root page rs m = perm_repair root page rs m"
proof (induction rs)
  case (Cons r rs)
  have c: "covers page r = Some (page \<in> region_pages r)" using Cons.prems by (intro covers_ok) (simp add: regions_ok_def)
  show ?case
  proof (cases "page \<in> region_pages r \<and> \<not> fillable (rkind r)")
    case True
    have "\<not> fillable (rkind u)" if "u \<in> set rs" "page \<in> region_pages u" for u
      using Cons.prems True that unfolding regions_ok_def by auto
    moreover have "tt_repair root page us m = Some (False, m)"
      if "\<And>u. u \<in> set us \<Longrightarrow> page \<in> region_pages u \<Longrightarrow> \<not> fillable (rkind u)" "regions_ok us" for us
      using that
    proof (induction us)
      case (Cons u us)
      then show ?case using covers_ok [of u page] regions_ok_Cons [OF Cons.prems(2)] by (auto simp: regions_ok_def)
    qed simp
    ultimately have "tt_repair root page rs m = Some (False, m)" using regions_ok_Cons [OF Cons.prems] by blast
    then show ?thesis using True c by simp
  next
    case False
    then show ?thesis using c Cons.IH [OF regions_ok_Cons [OF Cons.prems]] by auto
  qed
qed simp

lemma push_region_keeps:
  assumes "regions_ok rs" "push_region kind base n rs = Some rs'" "base + n * PAGE_SIZE < USIZE_LIMIT"
    "kind = REGION_NONE \<longrightarrow> n = 0"
  shows "regions_ok rs'"
proof -
  let ?r = "\<lparr>rkind = kind, rbase = base, rpages = n\<rparr>"
  from assms(2) obtain i where i: "find_idx (\<lambda>r. rkind r = REGION_NONE) rs = Some i" "rs' = rs[i := ?r]"
    and no: "\<And>r. r \<in> set rs \<Longrightarrow> \<not> region_overlap base (base + n * PAGE_SIZE) r"
    by (auto simp: push_region_def list_ex_iff split: if_splits option.splits)
  have il: "i < length rs" using i(1) by (simp add: find_idx_Some)
  have new: "region_pages ?r \<inter> region_pages (rs ! j) = {}" if "j < length rs" "j \<noteq> i" for j
  proof (cases "rkind (rs ! j) = REGION_NONE")
    case True
    then have "rpages (rs ! j) = 0" using assms(1) that by (auto simp: regions_ok_def)
    then show ?thesis by (simp add: region_pages_def)
  next
    case False
    then show ?thesis using no [of "rs ! j"] that by (auto simp: region_overlap_def region_pages_def)
  qed
  show ?thesis
    unfolding regions_ok_def i(2)
  proof (intro conjI allI impI ballI)
    fix r assume "r \<in> set (rs[i := ?r])"
    then have "r = ?r \<or> r \<in> set rs" using set_update_subset_insert by fastforce
    then show "rbase r + rpages r * PAGE_SIZE < USIZE_LIMIT" "rkind r = REGION_NONE \<Longrightarrow> rpages r = 0"
      using assms by (auto simp: regions_ok_def)
  next
    have "region_pages (rs[i := ?r] ! j) \<inter> region_pages (rs[i := ?r] ! k) = {}" if "j < k" "k < length rs" for j k
      using that new [of j] new [of k] assms(1)
      by (cases "j = i"; cases "k = i") (auto simp: regions_ok_def sorted_wrt_iff_nth_less Int_commute)
    then show "sorted_wrt (\<lambda>r u. region_pages r \<inter> region_pages u = {}) (rs[i := ?r])"
      by (simp add: sorted_wrt_iff_nth_less)
  qed
qed

lemma page_down_same: "page_down va \<in> same_page k va" "va \<in> same_page k (page_down va)"
  unfolding same_page_iff page_down_def by simp_all

lemma same_page_down [simp]: "same_page k (page_down va) = same_page k va"
  unfolding same_page_iff page_down_def set_eq_iff by simp

lemma leaf_page_down [simp]: "leaf k pg t (page_down va) = leaf k pg t va"
  by (rule leaf_same_page) (rule page_down_same)

lemma open_at_page_down [simp]: "open_at k pg t (page_down va) = open_at k pg t va"
  by (simp add: open_at_def)

lemma user_cow_is_cow:
  assumes "page_aligned pa"
  shows "is_cow (of_nat pa OR FLAGS_USER_COW)"
proof -
  have "bit FLAGS_USER_COW 0" "bit FLAGS_USER_COW 11" by (simp_all add: flags_defs desc_defs bit_or_iff)
  then have "bit (of_nat pa OR FLAGS_USER_COW :: u64) 0" "bit (of_nat pa OR FLAGS_USER_COW :: u64) 11"
    using or_bit_low [OF assms] by simp_all
  then have "bit ((of_nat pa OR FLAGS_USER_COW) AND DESC_VALID :: u64) 0" "bit ((of_nat pa OR FLAGS_USER_COW) AND DESC_COW_TAG :: u64) 11"
    by (simp_all add: bit_and_iff desc_defs DESC_COW_TAG_def)
  then show ?thesis unfolding is_cow_def by (metis bit_0_eq bot_apply bot_bool_def)
qed

lemma current_mm [simp]:
  "current_ttbr0 cpu (s\<lparr>mm := m\<rparr>) = current_ttbr0 cpu s" "current_regions cpu (s\<lparr>mm := m\<rparr>) = current_regions cpu s"
  by (simp_all add: current_ttbr0_def current_regions_def task_at_def current_idx_def)

text \<open>The whole copy-on-write fault, on the memory.\<close>

lemma perm_fault_cow:
  assumes "tree_ok 3 root m" "leaf 3 (pages m) root va = (0, e)" "is_cow e" "avail m \<noteq> {}" "0 \<notin> avail m"
    and "desc_addr e \<notin> avail m" "desc_addr e \<noteq> 0"
  shows "\<exists>f m'. perm_fault root (page_down va) rs m = Some (True, m') \<and> taken {f} m m' \<and> f \<in> avail m \<and>
    (\<forall>va' \<in> same_page 3 va. xlate 3 (pages m') root va' = Some (f + va' mod PAGE_SIZE, (FLAGS_USER_RWX AND ATTR_MASK) AND NOT DESC_TABLE)) \<and>
    pages m' f = pages m (desc_addr e) \<and>
    (\<forall>p. p \<notin> insert f (set (tables 3 (pages m) root)) \<longrightarrow> pages m' p = pages m p) \<and>
    (\<forall>va'. va' \<notin> same_page 3 va \<longrightarrow> xlate 3 (pages m') root va' = xlate 3 (pages m) root va')"
proof -
  have "read_user_page root (page_down va) m = e"
    using read_user_page_leaf [of m root "page_down va" 0 e] assms(2) by simp
  then have p: "perm_fault root (page_down va) rs m = cow_split root (page_down va) e m"
    using assms(3) by (simp add: perm_fault_def)
  obtain f m' where m': "cow_split root (page_down va) e m = Some (True, m')" "taken {f} m m'"
      "leaf 3 (pages m') root (page_down va) = (0, of_nat f OR FLAGS_USER_RWX)" "pages m' f = pages m (desc_addr e)"
      "\<forall>p. p \<notin> insert f (set (tables 3 (pages m) root)) \<longrightarrow> pages m' p = pages m p"
      "\<forall>va'. va' \<notin> same_page 3 va \<longrightarrow> xlate 3 (pages m') root va' = xlate 3 (pages m) root va'"
    using cow_split_ok [OF assms(1), of "page_down va" e] assms by auto
  have f: "f \<in> avail m" using m'(2) by (simp add: taken_def)
  have "kmem_ok m" using assms(1) by (simp add: tree_ok_def)
  then have "xlate 3 (pages m') root va' = Some (f + va' mod PAGE_SIZE, (FLAGS_USER_RWX AND ATTR_MASK) AND NOT DESC_TABLE)"
    if "va' \<in> same_page 3 va" for va'
    using page_xlate [OF m'(3) user_flags(1)] avail_props [OF _ f] that by simp
  then show ?thesis using p m'(1,2,4,5,6) f by auto
qed

text \<open>
  A concrete state for the closed instances: one task, current on CPU 0, on the boot table, with a
  demand region of four pages at 8 GiB.
\<close>

definition demo_task :: "kmem \<Rightarrow> task" where
  "demo_task m = (task_new 1 (bytes ''demo'') 0 0 m)\<lparr>task_ttbr0 := 0x40100000,
     regions := \<lparr>rkind = REGION_DEMAND, rbase = 0x200000000, rpages = 4\<rparr> # replicate (TASK_REGIONS - 1) region_none\<rparr>"

definition demo_state :: "kmem \<Rightarrow> kstate" where
  "demo_state m = (kstate_init m (\<lambda>_. context_zeroed) (sec_init True 7 4))
     \<lparr>tasks := scheduler_new[1 := Some (demo_task m)], cpus := (\<lambda>c. \<lparr>current = 1, online = True\<rparr>)\<rparr>"

lemma demo_state_sel:
  "mm (demo_state m) = m" "current_ttbr0 cpu (demo_state m) = 0x40100000"
  "current_regions cpu (demo_state m) =
     \<lparr>rkind = REGION_DEMAND, rbase = 0x200000000, rpages = 4\<rparr> # replicate (TASK_REGIONS - 1) region_none"
  by (simp_all add: demo_state_def kstate_init_def current_ttbr0_def current_regions_def task_at_def current_idx_def
      scheduler_new_def demo_task_def)

lemma demo_regions: "regions_ok (current_regions cpu (demo_state m))"
  unfolding demo_state_sel by (auto simp: regions_ok_def region_none_def region_pages_def sorted_wrt_iff_nth_less)

lemma boot_open: "open_at 3 (pages (boot_kmem fa)) 0x40100000 0x200000000"
  using boot_table_desc
  by (simp add: open_at_def numeral_3_eq_3 leaf_Suc subleaf_def boot_kmem_def boot_pages_def level_idx_def del: of_nat_numeral)

lemma boot_page_down: "page_down 0x200000abc = 0x200000000"
  by (simp add: page_down_def)

section \<open>Properties\<close>

text \<open>
  C4.  A write to a copy-on-write page gives the task a private copy.  The permission fault is repaired:
  one frame leaves the pool, the whole page now translates to it with user read-write attributes, it
  holds what the shared frame holds, every other address of the task translates as before, and no memory
  outside that frame and the task's own tables changes (the shared frame in particular).
\<close>

theorem cow_fault_private:
  assumes "current_ttbr0 cpu s = ttbr" "ttbr \<noteq> 0" "esr AND 0x3F = DFSC_PERM_FIRST + k" "k \<le> 3"
    and "tree_ok 3 (unat ttbr) (mm s)" "leaf 3 (pages (mm s)) (unat ttbr) far = (0, e)" "is_cow e"
    and "avail (mm s) \<noteq> {}" "0 \<notin> avail (mm s)" "desc_addr e \<notin> avail (mm s)" "desc_addr e \<noteq> 0"
  shows "\<exists>f m'. resolve_user_fault cpu far esr s = Some (True, s\<lparr>mm := m'\<rparr>) \<and> f \<in> avail (mm s) \<and>
    avail m' = avail (mm s) - {f} \<and>
    (\<forall>va \<in> same_page 3 far. xlate 3 (pages m') (unat ttbr) va =
       Some (f + va mod PAGE_SIZE, (FLAGS_USER_RWX AND ATTR_MASK) AND NOT DESC_TABLE)) \<and>
    pages m' f = pages (mm s) (desc_addr e) \<and>
    (\<forall>p. p \<notin> insert f (set (tables 3 (pages (mm s)) (unat ttbr))) \<longrightarrow> pages m' p = pages (mm s) p) \<and>
    (\<forall>va. va \<notin> same_page 3 far \<longrightarrow>
       xlate 3 (pages m') (unat ttbr) va = xlate 3 (pages (mm s)) (unat ttbr) va)"
proof -
  note perm_fault_cow [OF assms(5-), of "current_regions cpu s"]
  then obtain f m' where f: "perm_fault (unat ttbr) (page_down far) (current_regions cpu s) (mm s) = Some (True, m')"
      "taken {f} (mm s) m'" "f \<in> avail (mm s)"
      "\<forall>va \<in> same_page 3 far. xlate 3 (pages m') (unat ttbr) va =
         Some (f + va mod PAGE_SIZE, (FLAGS_USER_RWX AND ATTR_MASK) AND NOT DESC_TABLE)"
      "pages m' f = pages (mm s) (desc_addr e)"
      "\<forall>p. p \<notin> insert f (set (tables 3 (pages (mm s)) (unat ttbr))) \<longrightarrow> pages m' p = pages (mm s) p"
      "\<forall>va. va \<notin> same_page 3 far \<longrightarrow> xlate 3 (pages m') (unat ttbr) va = xlate 3 (pages (mm s)) (unat ttbr) va"
    by blast
  have "resolve_user_fault cpu far esr s = Some (True, s\<lparr>mm := m'\<rparr>)"
    unfolding resolve_class(2) [OF assms(1-4)] f(1) by simp
  moreover have "avail m' = avail (mm s) - {f}" using f(2) by (simp add: taken_def)
  ultimately show ?thesis using f(3-) by blast
qed

theorem cow_fault_private_witness:
  "\<exists>fa f m m'. init 0x40300000 0x40000000 0x20000000 new_zeroed = Some fa \<and>
     map_user_frame 0x40100000 0x200000000 0x40103000 FLAGS_USER_COW (boot_kmem fa) = Some m \<and>
     resolve_user_fault 0 0x200000008 0x9200004F (demo_state m) = Some (True, (demo_state m)\<lparr>mm := m'\<rparr>) \<and>
     f \<in> avail m \<and> pages m' f = pages m 0x40103000"
proof -
  obtain fa where fa: "init 0x40300000 0x40000000 0x20000000 new_zeroed = Some fa" "tree_ok 3 0x40100000 (boot_kmem fa)"
      "card (avail (boot_kmem fa)) = 130304" "\<forall>a \<in> avail (boot_kmem fa). 0x40300000 \<le> a \<and> a < 0x60000000"
    using boot_kmem_ok by blast
  let ?m = "boot_kmem fa" and ?e = "of_nat 0x40103000 OR FLAGS_USER_COW :: u64"
  have al: "page_aligned 0x200000000" "page_aligned 0x40103000" by (simp_all add: page_aligned_def)
  obtain m where m: "map_user_frame 0x40100000 0x200000000 0x40103000 FLAGS_USER_COW ?m = Some m"
      "tree_upd 3 0x40100000 3 (same_page 3 0x200000000) ?m m" "leaf 3 (pages m) 0x40100000 0x200000000 = (0, ?e)"
    using map_user_frame_ok [OF fa(2) al boot_open, of FLAGS_USER_COW] fa(3) by auto
  have "page_down 0x200000008 = 0x200000000" by (simp add: page_down_def)
  then have l: "leaf 3 (pages m) 0x40100000 0x200000008 = (0, ?e)"
    using m(3) leaf_page_down [of 3 "pages m" "0x40100000" "0x200000008"] by simp
  have d: "desc_addr ?e = 0x40103000" using al(2) user_flags(3) by (intro desc_addr_or) (auto simp: page_flags_def)
  have av: "avail m \<subseteq> avail ?m" "avail m \<noteq> {}"
    using m(2) tree_upd_card [OF m(2)] fa(3) by (auto simp: tree_upd_def taken_def)
  have a: "0 \<notin> avail m" "0x40103000 \<notin> avail m" using fa(4) av(1) by fastforce+
  have k: "(0x9200004F :: u64) AND 0x3F = DFSC_PERM_FIRST + 3" "(3::u64) \<le> 3" by (simp_all add: DFSC_PERM_FIRST_def)
  obtain f m' where "resolve_user_fault 0 0x200000008 0x9200004F (demo_state m) = Some (True, (demo_state m)\<lparr>mm := m'\<rparr>)"
      "f \<in> avail m" "pages m' f = pages m 0x40103000"
    using cow_fault_private [of 0 "demo_state m" "0x40100000" "0x9200004F" 3 "0x200000008" ?e]
      tree_upd_ok [OF fa(2) m(2)] l user_cow_is_cow [OF al(2)] av(2) a d k by (auto simp: demo_state_sel)
  then show ?thesis using fa(1) m(1) by blast
qed



text \<open>
  C27.  A fault outside every region of the task is refused.  Where no region of the table holds the page
  and the page is not a valid copy-on-write page, neither a translation nor a permission fault changes
  anything: the answer is no and the state is the same, so the task is killed.
\<close>

theorem fault_outside_refused:
  assumes "regions_ok (current_regions cpu s)" "\<And>r. r \<in> set (current_regions cpu s) \<Longrightarrow> page_down far \<notin> region_pages r"
    and "in_class (esr AND 0x3F) DFSC_TT_FIRST \<or> in_class (esr AND 0x3F) DFSC_PERM_FIRST"
    and "\<not> is_cow (read_user_page (unat (current_ttbr0 cpu s)) (page_down far) (mm s))"
  shows "resolve_user_fault cpu far esr s = Some (False, s)"
proof -
  have "region_of (page_down far) (current_regions cpu s) = None"
    using assms(2) by (auto simp: region_of_def find_None_iff)
  then show ?thesis
    using assms(3,4) unfolding resolve_user_fault_def Let_def perm_fault_def
      tt_repair_region [OF assms(1)] perm_repair_region [OF assms(1)] by auto
qed

theorem fault_outside_refused_witness:
  "resolve_user_fault 0 0x300000000 0x92000047 (demo_state (boot_kmem new_zeroed)) =
     Some (False, demo_state (boot_kmem new_zeroed))"
proof -
  let ?s = "demo_state (boot_kmem new_zeroed)"
  have "read_user_page 0x40100000 0x300000000 (boot_kmem new_zeroed) = 0"
    using boot_table_desc
    by (simp add: read_user_page_def l0_idx_def l1_idx_def entry_def boot_kmem_def boot_pages_def del: of_nat_numeral)
  then have "\<not> is_cow (read_user_page (unat (current_ttbr0 0 ?s)) (page_down 0x300000000) (mm ?s))"
    by (simp add: demo_state_sel is_cow_def page_down_def)
  moreover have "page_down 0x300000000 \<notin> region_pages r" if "r \<in> set (current_regions 0 ?s)" for r
    using that unfolding demo_state_sel by (auto simp: page_down_def region_pages_def region_none_def)
  ultimately show ?thesis
    by (intro fault_outside_refused [OF demo_regions]) (simp_all add: in_class_def DFSC_TT_FIRST_def DFSC_PERM_FIRST_def)
qed

end
