(* ===== verification/Vm_Loader.thy ===== *)
theory Vm_Loader
  imports User_Mem
begin

text \<open>
  The image loader, \<^verbatim>\<open>kernel/src/vm/loader.rs\<close>: a raw binary is copied, an ELF64 image is placed segment
  by segment and its absolute words are moved by the load base.  An image is a list of bytes; reading a
  header field or a segment outside of it (a slice index out of range, or an unchecked pointer past the
  end) is \<open>None\<close>, as is an address that overflows.  The error values of \<^verbatim>\<open>HvError\<close>
  (\<^verbatim>\<open>kernel/src/hypervisor/mod.rs\<close>) are the left summand of the result.
\<close>

section \<open>Model\<close>

datatype hv_error = NotSupported | NoMemory | InvalidHandle | BadState | Empty | Full_queue | BadMessage
  | HypercallFailed u64

definition bytes_at :: "u8 list \<Rightarrow> nat \<Rightarrow> nat \<Rightarrow> u8 list option" where
  "bytes_at img off n = (if off + n \<le> length img then Some (take n (drop off img)) else None)"

definition le_val :: "u8 list \<Rightarrow> nat" where
  "le_val bs = foldr (\<lambda>b acc. unat b + 256 * acc) bs 0"

definition rd16 :: "u8 list \<Rightarrow> nat \<Rightarrow> nat option" where
  "rd16 img off = map_option le_val (bytes_at img off 2)"

definition rd32 :: "u8 list \<Rightarrow> nat \<Rightarrow> nat option" where
  "rd32 img off = map_option le_val (bytes_at img off 4)"

definition rd64 :: "u8 list \<Rightarrow> nat \<Rightarrow> nat option" where
  "rd64 img off = map_option le_val (bytes_at img off 8)"

definition ELFMAG :: "u8 list" where "ELFMAG = [0x7f, 69, 76, 70]"
abbreviation ELFCLASS64 :: u8 where "ELFCLASS64 \<equiv> 2"
abbreviation ELFDATA2LSB :: u8 where "ELFDATA2LSB \<equiv> 1"
abbreviation EM_AARCH64 :: nat where "EM_AARCH64 \<equiv> 183"
abbreviation PT_LOAD :: nat where "PT_LOAD \<equiv> 1"
abbreviation SHF_ALLOC :: nat where "SHF_ALLOC \<equiv> 2"
abbreviation R_AARCH64_ABS64 :: nat where "R_AARCH64_ABS64 \<equiv> 257"
abbreviation R_AARCH64_RELATIVE :: nat where "R_AARCH64_RELATIVE \<equiv> 1027"

record elf64_shdr =
  sh_flags :: nat
  sh_addr :: nat
  sh_offset :: nat
  sh_size :: nat
  sh_info :: nat
  sh_entsize :: nat

definition read_shdr :: "u8 list \<Rightarrow> nat \<Rightarrow> elf64_shdr option" where
  "read_shdr img off =
     do { fl \<leftarrow> rd64 img (off + 8); ad \<leftarrow> rd64 img (off + 16); ofs \<leftarrow> rd64 img (off + 24);
          sz \<leftarrow> rd64 img (off + 32); inf \<leftarrow> rd32 img (off + 44); es \<leftarrow> rd64 img (off + 56);
          Some \<lparr>sh_flags = fl, sh_addr = ad, sh_offset = ofs, sh_size = sz, sh_info = inf, sh_entsize = es\<rparr> }"

record elf64_hdr =
  e_class :: u8
  e_data :: u8
  e_machine :: nat
  e_entry :: nat
  e_phoff :: nat
  e_shoff :: nat
  e_phentsize :: nat
  e_phnum :: nat
  e_shentsize :: nat
  e_shnum :: nat
  e_shstrndx :: nat

definition read_hdr :: "u8 list \<Rightarrow> elf64_hdr option" where
  "read_hdr img =
     do { idn \<leftarrow> bytes_at img 0 16; mc \<leftarrow> rd16 img 18; en \<leftarrow> rd64 img 24; po \<leftarrow> rd64 img 32;
          so \<leftarrow> rd64 img 40; pe \<leftarrow> rd16 img 54; pn \<leftarrow> rd16 img 56; se \<leftarrow> rd16 img 58;
          sn \<leftarrow> rd16 img 60; sx \<leftarrow> rd16 img 62;
          Some \<lparr>e_class = idn ! 4, e_data = idn ! 5, e_machine = mc, e_entry = en, e_phoff = po, e_shoff = so,
            e_phentsize = pe, e_phnum = pn, e_shentsize = se, e_shnum = sn, e_shstrndx = sx\<rparr> }"

record elf64_phdr =
  p_type :: nat
  p_offset :: nat
  p_vaddr :: nat
  p_filesz :: nat
  p_memsz :: nat

definition read_phdr :: "u8 list \<Rightarrow> nat \<Rightarrow> elf64_phdr option" where
  "read_phdr img off =
     do { ty \<leftarrow> rd32 img off; ofs \<leftarrow> rd64 img (off + 8); va \<leftarrow> rd64 img (off + 16);
          fs \<leftarrow> rd64 img (off + 32); ms \<leftarrow> rd64 img (off + 40);
          Some \<lparr>p_type = ty, p_offset = ofs, p_vaddr = va, p_filesz = fs, p_memsz = ms\<rparr> }"

record elf64_rela =
  r_offset :: nat
  r_info :: nat

definition read_rela :: "u8 list \<Rightarrow> nat \<Rightarrow> elf64_rela option" where
  "read_rela img off =
     do { ofs \<leftarrow> rd64 img off; inf \<leftarrow> rd64 img (off + 8); Some \<lparr>r_offset = ofs, r_info = inf\<rparr> }"

record loaded_image =
  img_entry :: nat
  img_end :: nat

text \<open>The checked read of program header \<open>i\<close> that opens both loops; \<open>Inl\<close> is the early return.\<close>

definition get_phdr :: "u8 list \<Rightarrow> elf64_hdr \<Rightarrow> nat \<Rightarrow> (hv_error + elf64_phdr) option" where
  "get_phdr img h i =
     do { off \<leftarrow> uadd (e_phoff h) (i * e_phentsize h);
          pend \<leftarrow> uadd off (e_phentsize h);
          if pend > length img then Some (Inl NotSupported)
          else do { ph \<leftarrow> read_phdr img off; Some (Inr ph) } }"

fun elf_footprint :: "u8 list \<Rightarrow> elf64_hdr \<Rightarrow> nat list \<Rightarrow> nat \<Rightarrow> (hv_error + nat) option" where
  "elf_footprint img h [] fp = Some (Inr fp)"
| "elf_footprint img h (i # is) fp =
     do { r \<leftarrow> get_phdr img h i;
          case r of
            Inl e \<Rightarrow> Some (Inl e)
          | Inr ph \<Rightarrow>
              if p_type ph \<noteq> PT_LOAD then elf_footprint img h is fp
              else do { en \<leftarrow> uadd (p_vaddr ph) (p_memsz ph);
                        elf_footprint img h is (if en > fp then en else fp) } }"

definition load_segment :: "u8 list \<Rightarrow> nat \<Rightarrow> elf64_phdr \<Rightarrow> kmem \<Rightarrow> kmem option" where
  "load_segment img ram_base ph m =
     do { dst \<leftarrow> uadd ram_base (p_vaddr ph);
          m \<leftarrow> (if p_filesz ph > 0
                then do { bs \<leftarrow> bytes_at img (p_offset ph) (p_filesz ph); Some (pstore_bytes dst bs m) }
                else Some m);
          Some (if p_memsz ph > p_filesz ph
                then pstore_bytes (dst + p_filesz ph) (replicate (p_memsz ph - p_filesz ph) 0) m
                else m) }"

fun load_segments :: "u8 list \<Rightarrow> nat \<Rightarrow> elf64_hdr \<Rightarrow> nat list \<Rightarrow> kmem \<Rightarrow> ((hv_error + unit) \<times> kmem) option" where
  "load_segments img ram_base h [] m = Some (Inr (), m)"
| "load_segments img ram_base h (i # is) m =
     do { r \<leftarrow> get_phdr img h i;
          case r of
            Inl e \<Rightarrow> Some (Inl e, m)
          | Inr ph \<Rightarrow>
              if p_type ph \<noteq> PT_LOAD then load_segments img ram_base h is m
              else do { m \<leftarrow> load_segment img ram_base ph m; load_segments img ram_base h is m } }"

definition apply_rela :: "u8 list \<Rightarrow> nat \<Rightarrow> nat \<Rightarrow> kmem \<Rightarrow> kmem option" where
  "apply_rela img ram_base off m =
     do { r \<leftarrow> read_rela img off;
          let ty = r_info r mod 2 ^ 32;
          if ty \<noteq> R_AARCH64_ABS64 \<and> ty \<noteq> R_AARCH64_RELATIVE then Some m
          else do { dst \<leftarrow> uadd ram_base (r_offset r);
                    if dst mod 8 \<noteq> 0 then None
                    else Some (pstore64 dst (pload64 dst m + of_nat ram_base) m) } }"

definition relocate_section :: "u8 list \<Rightarrow> nat \<Rightarrow> nat \<Rightarrow> elf64_hdr \<Rightarrow> nat \<Rightarrow> kmem \<Rightarrow> kmem option" where
  "relocate_section img ram_base footprint h i m =
     do { s \<leftarrow> uadd (e_shoff h) (i * e_shentsize h);
          s_end \<leftarrow> uadd s 64;
          if s_end > length img then Some m
          else do { sh \<leftarrow> read_shdr img s;
            if sh_info sh \<ge> e_shnum h then Some m
            else do { toff \<leftarrow> uadd (e_shoff h) (sh_info sh * e_shentsize h);
              target \<leftarrow> read_shdr img toff;
              if sh_flags target AND SHF_ALLOC = 0 \<or> sh_addr target = 0 \<or> sh_addr target \<ge> footprint then Some m
              else do { rend \<leftarrow> uadd (sh_offset sh) (sh_size sh);
                if sh_entsize sh = 0 \<or> rend > length img then Some m
                else foldm (\<lambda>k. apply_rela img ram_base (sh_offset sh + k * sh_entsize sh))
                       [0..<sh_size sh div sh_entsize sh] m } } } }"

definition apply_relocations :: "u8 list \<Rightarrow> nat \<Rightarrow> nat \<Rightarrow> kmem \<Rightarrow> kmem option" where
  "apply_relocations img ram_base footprint m =
     do { h \<leftarrow> read_hdr img;
          if e_shoff h = 0 \<or> e_shstrndx h = 0 \<or> e_shnum h = 0 \<or> e_shentsize h < 64 then Some m
          else do { s \<leftarrow> uadd (e_shoff h) (e_shstrndx h * e_shentsize h);
            s_end \<leftarrow> uadd s 64;
            if s_end > length img then Some m
            else do { sh \<leftarrow> read_shdr img s;
              if sh_offset sh \<ge> length img then Some m
              else foldm (relocate_section img ram_base footprint h) [0..<e_shnum h] m } } }"

definition load_elf64 :: "u8 list \<Rightarrow> nat \<Rightarrow> nat \<Rightarrow> kmem \<Rightarrow> ((hv_error + nat \<times> nat) \<times> kmem) option" where
  "load_elf64 img ram_base ram_sz m =
     do { h \<leftarrow> read_hdr img;
          if e_class h \<noteq> ELFCLASS64 \<or> e_data h \<noteq> ELFDATA2LSB \<or> e_machine h \<noteq> EM_AARCH64
          then Some (Inl NotSupported, m)
          else do { en \<leftarrow> uadd ram_base (e_entry h);
            r \<leftarrow> elf_footprint img h [0..<e_phnum h] 0;
            case r of
              Inl e \<Rightarrow> Some (Inl e, m)
            | Inr footprint \<Rightarrow>
                if footprint > ram_sz then Some (Inl NoMemory, m)
                else do { (r, m) \<leftarrow> load_segments img ram_base h [0..<e_phnum h] m;
                  case r of
                    Inl e \<Rightarrow> Some (Inl e, m)
                  | Inr _ \<Rightarrow> do { m \<leftarrow> apply_relocations img ram_base footprint m;
                                   Some (Inr (en, footprint), m) } } } }"

definition load_raw :: "u8 list \<Rightarrow> nat \<Rightarrow> kmem \<Rightarrow> kmem" where
  "load_raw img ram_base m = pstore_bytes ram_base img m"

definition page_up :: "nat \<Rightarrow> nat option" where
  "page_up x = map_option page_down (uadd x 0xFFF)"

definition load_flat_full :: "u8 list \<Rightarrow> nat \<Rightarrow> nat \<Rightarrow> kmem \<Rightarrow> ((hv_error + loaded_image) \<times> kmem) option" where
  "load_flat_full img ram_base ram_sz m =
     (if length img \<ge> 64 \<and> take 4 img = ELFMAG
      then do { (r, m) \<leftarrow> load_elf64 img ram_base ram_sz m;
                case r of
                  Inl e \<Rightarrow> Some (Inl e, m)
                | Inr (en, footprint) \<Rightarrow>
                    do { ie \<leftarrow> page_up footprint; Some (Inr \<lparr>img_entry = en, img_end = ie\<rparr>, m) } }
      else if length img > ram_sz then Some (Inl NoMemory, m)
      else do { let m = load_raw img ram_base m;
                e \<leftarrow> uadd ram_base (length img);
                ie \<leftarrow> page_up e;
                Some (Inr \<lparr>img_entry = ram_base, img_end = ie\<rparr>, m) })"

definition load_flat :: "u8 list \<Rightarrow> nat \<Rightarrow> nat \<Rightarrow> kmem \<Rightarrow> ((hv_error + nat) \<times> kmem) option" where
  "load_flat img ram_base ram_sz m =
     map_option (map_prod (map_sum (\<lambda>e. e) img_entry) (\<lambda>m. m)) (load_flat_full img ram_base ram_sz m)"

end
