(* ===== verification/Hypervisor.thy ===== *)
theory Hypervisor
  imports Task_Sched Vm_Loader
begin

text \<open>
  The hypervisor layer, \<^verbatim>\<open>kernel/src/hypervisor\<close>: message queues, doorbells, guest VMs and their vCPUs on the
  bare-metal backend (\<^verbatim>\<open>backend.rs\<close>, \<^verbatim>\<open>doorbell.rs\<close>), the guest service call, and the Gunyah backend.

  \<open>hv_state\<close> holds the static instance of the bare-metal backend, the doorbell table and the statics of the
  tick preemption.  A vCPU run is two steps, because the guest executes in between: \<open>vcpu_enter\<close> is
  \<^verbatim>\<open>vcpu_run\<close> up to the switch into the guest and \<open>vcpu_exit\<close> what follows it; the guest leaves by
  \<open>vm_yield_entry_masked\<close> or is taken off the CPU by \<open>tick_guest\<close>.  The address of the assembly stub that
  resumes a preempted guest is a parameter (\<open>stub\<close>), and so is the answer of the Gunyah hypervisor to a
  hypercall.  A queue is shown to refine a bounded list, through the locale \<open>bounded_fifo\<close>.
\<close>

section \<open>Message queues\<close>

abbreviation MSGQ_MAX_MSG_SIZE :: nat where "MSGQ_MAX_MSG_SIZE \<equiv> 96"
abbreviation MSGQ_SLOTS :: nat where "MSGQ_SLOTS \<equiv> 16"
abbreviation MAX_MSGQ :: nat where "MAX_MSGQ \<equiv> 8"
abbreviation HV_MAX_VMS :: nat where "HV_MAX_VMS \<equiv> 4"
abbreviation MAX_DOORBELLS :: nat where "MAX_DOORBELLS \<equiv> 8"

record msgq_slot =
  slot_data :: "u8 list"
  slot_len :: "16 word"

record msgq =
  mq_handle :: u32
  mq_owner :: u32
  mq_head :: nat
  mq_count :: nat
  mq_depth :: nat
  mq_slots :: "msgq_slot option list"

definition enqueue :: "u8 list \<Rightarrow> msgq \<Rightarrow> (hv_error + bool) \<times> msgq" where
  "enqueue msg q =
     (if length msg > MSGQ_MAX_MSG_SIZE then (Inl BadMessage, q)
      else if mq_count q \<ge> mq_depth q then (Inl Full_queue, q)
      else let idx = (mq_head q + mq_count q) mod MSGQ_SLOTS;
               sl = \<lparr>slot_data = msg @ replicate (MSGQ_MAX_MSG_SIZE - length msg) 0, slot_len = of_nat (length msg)\<rparr>;
               q = q\<lparr>mq_slots := (mq_slots q)[idx := Some sl], mq_count := mq_count q + 1\<rparr>
           in (Inr (mq_count q < mq_depth q), q))"

text \<open>The bytes copied into a buffer of \<open>cap\<close> bytes; taking an empty slot is a panic.\<close>

definition dequeue :: "nat \<Rightarrow> msgq \<Rightarrow> ((hv_error + u8 list \<times> bool) \<times> msgq) option" where
  "dequeue cap q =
     (if mq_count q = 0 then Some (Inl Empty, q)
      else do { sl \<leftarrow> mq_slots q ! mq_head q;
                let copy = min (unat (slot_len sl)) cap;
                let out = take copy (slot_data sl);
                let q = q\<lparr>mq_slots := (mq_slots q)[mq_head q := None], mq_head := (mq_head q + 1) mod MSGQ_SLOTS,
                          mq_count := mq_count q - 1\<rparr>;
                Some (Inr (out, mq_count q > 0), q) })"

section \<open>Doorbells\<close>

record doorbell_entry =
  db_handle :: u32
  db_owner_vm :: u32
  db_irq :: u32
  db_enable_mask :: u64
  db_ack_mask :: u64
  db_rings :: u64
  db_deliveries :: u64

record vm_record =
  v_handle :: u32
  v_ram_base :: phys_addr
  v_ram_size :: nat
  v_entry :: phys_addr
  v_boot :: "u64 \<times> u64"
  v_started :: bool
  v_running :: bool
  v_in_guest :: bool
  v_preempted :: bool
  v_budget_ticks :: u32
  v_kernel_ctx :: cpu_context
  v_guest_ctx :: cpu_context

record hv_state =
  vms :: "vm_record option list"
  msgqs :: "msgq option list"
  hv_next_handle :: u32
  bells :: "doorbell_entry option list"
  bell_next :: u32
  active_vm :: "u32 option"
  active_cpu :: nat
  preempt_enabled :: bool
  quantum_ticks :: u32
  hv_sgis :: "(nat \<times> u32) list"

definition hv_new :: hv_state where
  "hv_new = \<lparr>vms = replicate HV_MAX_VMS None, msgqs = replicate MAX_MSGQ None, hv_next_handle = 1,
     bells = replicate MAX_DOORBELLS None, bell_next = 1, active_vm = None, active_cpu = 0,
     preempt_enabled = False, quantum_ticks = 0, hv_sgis = []\<rparr>"

definition u64_inc :: "u64 \<Rightarrow> u64 option" where
  "u64_inc x = (if x = - 1 then None else Some (x + 1))"

definition bell_idx :: "(doorbell_entry \<Rightarrow> bool) \<Rightarrow> hv_state \<Rightarrow> nat option" where
  "bell_idx P hs = lookup_slot P (bells hs)"

definition upd_bell :: "nat \<Rightarrow> (doorbell_entry \<Rightarrow> doorbell_entry) \<Rightarrow> hv_state \<Rightarrow> hv_state" where
  "upd_bell i f hs = hs\<lparr>bells := (bells hs)[i := map_option f (bells hs ! i)]\<rparr>"

definition bell_register :: "u32 \<Rightarrow> u32 \<Rightarrow> hv_state \<Rightarrow> (u32 option \<times> hv_state) option" where
  "bell_register owner_vm irq hs =
     (case free_slot (bells hs) of
        None \<Rightarrow> Some (None, hs)
      | Some i \<Rightarrow>
          do { nxt \<leftarrow> u32_inc (bell_next hs);
               let h = bell_next hs;
               let e = \<lparr>db_handle = h, db_owner_vm = owner_vm, db_irq = irq, db_enable_mask = 0, db_ack_mask = 0,
                        db_rings = 0, db_deliveries = 0\<rparr>;
               Some (Some h, hs\<lparr>bell_next := nxt, bells := (bells hs)[i := Some e]\<rparr>) })"

definition bell_set_mask :: "u32 \<Rightarrow> u64 \<Rightarrow> u64 \<Rightarrow> hv_state \<Rightarrow> (hv_error + unit) \<times> hv_state" where
  "bell_set_mask h enable_mask ack_mask hs =
     (case bell_idx (\<lambda>e. db_handle e = h) hs of
        None \<Rightarrow> (Inl InvalidHandle, hs)
      | Some i \<Rightarrow> (Inr (), upd_bell i (\<lambda>e. e\<lparr>db_enable_mask := enable_mask, db_ack_mask := ack_mask\<rparr>) hs))"

definition bell_find :: "u32 \<Rightarrow> hv_state \<Rightarrow> doorbell_entry option" where
  "bell_find h hs = (case bell_idx (\<lambda>e. db_handle e = h) hs of None \<Rightarrow> None | Some i \<Rightarrow> bells hs ! i)"

definition ring_sgi :: "u32 \<Rightarrow> hv_state \<Rightarrow> ((hv_error + unit) \<times> hv_state) option" where
  "ring_sgi h hs =
     (case bell_idx (\<lambda>e. db_handle e = h) hs of
        None \<Rightarrow> Some (Inl InvalidHandle, hs)
      | Some i \<Rightarrow>
          do { e \<leftarrow> bells hs ! i;
               r \<leftarrow> u64_inc (db_rings e);
               let hs = upd_bell i (\<lambda>e. e\<lparr>db_rings := r\<rparr>) hs;
               Some (Inr (), hs\<lparr>hv_sgis := (0, db_irq e) # hv_sgis hs\<rparr>) })"

definition note_delivery :: "u32 \<Rightarrow> hv_state \<Rightarrow> hv_state option" where
  "note_delivery intid hs =
     (case bell_idx (\<lambda>e. db_irq e = intid) hs of
        None \<Rightarrow> Some hs
      | Some i \<Rightarrow>
          do { e \<leftarrow> bells hs ! i;
               d \<leftarrow> u64_inc (db_deliveries e);
               Some (upd_bell i (\<lambda>e. e\<lparr>db_deliveries := d\<rparr>) hs) })"

definition bell_stats :: "u32 \<Rightarrow> hv_state \<Rightarrow> hv_error + u64 \<times> u64" where
  "bell_stats h hs =
     (case bell_find h hs of None \<Rightarrow> Inl InvalidHandle | Some e \<Rightarrow> Inr (db_rings e, db_deliveries e))"

section \<open>The bare-metal backend\<close>

record vm_config =
  cfg_ram_base :: phys_addr
  cfg_ram_size :: nat
  cfg_entry :: phys_addr
  cfg_boot :: "u64 \<times> u64"

datatype vcpu_exit = Irq | TrappedCall u64 u64 u64 u64 | PowerOff | Yielded | Preempted

definition SPSR_GUEST :: u64 where "SPSR_GUEST = 0x345"

definition find_vm :: "u32 \<Rightarrow> hv_state \<Rightarrow> nat option" where
  "find_vm h hs = lookup_slot (\<lambda>v. v_handle v = h) (vms hs)"

definition find_msgq :: "u32 \<Rightarrow> hv_state \<Rightarrow> nat option" where
  "find_msgq h hs = lookup_slot (\<lambda>q. mq_handle q = h) (msgqs hs)"

definition running_vm :: "hv_state \<Rightarrow> nat option" where
  "running_vm hs = lookup_slot v_running (vms hs)"

definition upd_vm :: "nat \<Rightarrow> (vm_record \<Rightarrow> vm_record) \<Rightarrow> hv_state \<Rightarrow> hv_state" where
  "upd_vm i f hs = hs\<lparr>vms := (vms hs)[i := map_option f (vms hs ! i)]\<rparr>"

definition alloc_handle :: "hv_state \<Rightarrow> (u32 \<times> hv_state) option" where
  "alloc_handle hs = do { n \<leftarrow> u32_inc (hv_next_handle hs); Some (hv_next_handle hs, hs\<lparr>hv_next_handle := n\<rparr>) }"

definition vm_create :: "vm_config \<Rightarrow> hv_state \<Rightarrow> ((hv_error + u32) \<times> hv_state) option" where
  "vm_create cfg hs =
     do { (h, hs) \<leftarrow> alloc_handle hs;
          case free_slot (vms hs) of
            None \<Rightarrow> Some (Inl NoMemory, hs)
          | Some i \<Rightarrow>
              Some (Inr h, hs\<lparr>vms := (vms hs)[i := Some
                \<lparr>v_handle = h, v_ram_base = cfg_ram_base cfg, v_ram_size = cfg_ram_size cfg, v_entry = cfg_entry cfg,
                 v_boot = cfg_boot cfg, v_started = False, v_running = False, v_in_guest = False,
                 v_preempted = False, v_budget_ticks = 0, v_kernel_ctx = context_zeroed, v_guest_ctx = context_zeroed\<rparr>]\<rparr>) }"

definition vm_destroy :: "u32 \<Rightarrow> hv_state \<Rightarrow> (hv_error + unit) \<times> hv_state" where
  "vm_destroy h hs =
     (case find_vm h hs of
        None \<Rightarrow> (Inl InvalidHandle, hs)
      | Some i \<Rightarrow>
          (case vms hs ! i of
             None \<Rightarrow> (Inl InvalidHandle, hs)
           | Some v \<Rightarrow> if v_running v then (Inl BadState, hs) else (Inr (), hs\<lparr>vms := (vms hs)[i := None]\<rparr>)))"

text \<open>The part of \<^verbatim>\<open>vcpu_run\<close> before the switch: the checks, the first-run context, the PSTATE, the fresh slice.\<close>

definition vcpu_prime :: "u64 \<Rightarrow> u32 \<Rightarrow> kmem \<Rightarrow> vm_record \<Rightarrow> vm_record option" where
  "vcpu_prime stub quantum m v =
     do { v \<leftarrow> (if v_started v then Some v
                else do { top \<leftarrow> uadd (v_ram_base v) (v_ram_size v);
                          Some (v\<lparr>v_guest_ctx := context_new (v_entry v) top m, v_started := True\<rparr>) });
          let v = (if ctx_lr (v_guest_ctx v) \<noteq> stub then v\<lparr>v_guest_ctx := (v_guest_ctx v)\<lparr>ctx_spsr := SPSR_GUEST\<rparr>\<rparr> else v);
          Some (v\<lparr>v_budget_ticks := quantum\<rparr>) }"

definition enter_guest :: "u64 \<Rightarrow> cpu_context \<Rightarrow> vm_record \<Rightarrow> vm_record \<times> cpu_context" where
  "enter_guest stub regs v =
     (let v = (if ctx_lr (v_guest_ctx v) \<noteq> stub then v\<lparr>v_guest_ctx := (v_guest_ctx v)\<lparr>ctx_spsr := SPSR_GUEST\<rparr>\<rparr> else v)
      in (v\<lparr>v_kernel_ctx := saved_context regs\<rparr>, v_guest_ctx v))"

definition vcpu_enter ::
  "u64 \<Rightarrow> nat \<Rightarrow> cpu_context \<Rightarrow> u32 \<Rightarrow> u32 \<Rightarrow> kmem \<Rightarrow> hv_state \<Rightarrow> ((hv_error + cpu_context) \<times> hv_state) option" where
  "vcpu_enter stub cpu regs h vcpu m hs =
     (if vcpu \<noteq> 0 then Some (Inl NotSupported, hs)
      else case find_vm h hs of
        None \<Rightarrow> Some (Inl InvalidHandle, hs)
      | Some i \<Rightarrow>
          do { v \<leftarrow> vms hs ! i;
               if v_running v then Some (Inl BadState, hs)
               else do { v \<leftarrow> vcpu_prime stub (quantum_ticks hs) m v;
                         let v = v\<lparr>v_running := True, v_in_guest := True\<rparr>;
                         let (v, guest) = enter_guest stub regs v;
                         Some (Inr guest, hs\<lparr>vms := (vms hs)[i := Some v], active_vm := Some h, active_cpu := cpu\<rparr>) } })"

definition vcpu_exit_run :: "u32 \<Rightarrow> hv_state \<Rightarrow> vcpu_exit \<times> hv_state" where
  "vcpu_exit_run h hs =
     (case find_vm h hs of
        None \<Rightarrow> (Yielded, hs\<lparr>active_vm := None\<rparr>)
      | Some i \<Rightarrow>
          (let p = (case vms hs ! i of Some v \<Rightarrow> v_preempted v | None \<Rightarrow> False) in
           (if p then Preempted else Yielded,
            (upd_vm i (\<lambda>v. v\<lparr>v_in_guest := False, v_running := False, v_preempted := False\<rparr>) hs)\<lparr>active_vm := None\<rparr>)))"

definition vcpu_stop :: "u32 \<Rightarrow> hv_state \<Rightarrow> (hv_error + unit) \<times> hv_state" where
  "vcpu_stop h hs =
     (case find_vm h hs of
        None \<Rightarrow> (Inl InvalidHandle, hs)
      | Some i \<Rightarrow>
          (case vms hs ! i of
             None \<Rightarrow> (Inl InvalidHandle, hs)
           | Some v \<Rightarrow> if v_running v then (Inl BadState, hs) else (Inr (), upd_vm i (\<lambda>v. v\<lparr>v_started := False\<rparr>) hs)))"

definition msgq_create :: "u32 \<Rightarrow> u32 \<Rightarrow> hv_state \<Rightarrow> ((hv_error + u32) \<times> hv_state) option" where
  "msgq_create vm depth hs =
     (if find_vm vm hs = None then Some (Inl InvalidHandle, hs)
      else case free_slot (msgqs hs) of
        None \<Rightarrow> Some (Inl NoMemory, hs)
      | Some i \<Rightarrow>
          do { (h, hs) \<leftarrow> alloc_handle hs;
               Some (Inr h, hs\<lparr>msgqs := (msgqs hs)[i := Some
                 \<lparr>mq_handle = h, mq_owner = vm, mq_head = 0, mq_count = 0, mq_depth = max 1 (min (unat depth) MSGQ_SLOTS),
                  mq_slots = replicate MSGQ_SLOTS None\<rparr>]\<rparr>) })"

definition msgq_send :: "u32 \<Rightarrow> u8 list \<Rightarrow> hv_state \<Rightarrow> (hv_error + bool) \<times> hv_state" where
  "msgq_send mq msg hs =
     (case find_msgq mq hs of
        None \<Rightarrow> (Inl InvalidHandle, hs)
      | Some i \<Rightarrow>
          (case msgqs hs ! i of
             None \<Rightarrow> (Inl InvalidHandle, hs)
           | Some q \<Rightarrow> (case enqueue msg q of (r, q) \<Rightarrow> (r, hs\<lparr>msgqs := (msgqs hs)[i := Some q]\<rparr>))))"

definition msgq_recv :: "u32 \<Rightarrow> nat \<Rightarrow> hv_state \<Rightarrow> ((hv_error + u8 list \<times> bool) \<times> hv_state) option" where
  "msgq_recv mq cap hs =
     (case find_msgq mq hs of
        None \<Rightarrow> Some (Inl InvalidHandle, hs)
      | Some i \<Rightarrow>
          do { q \<leftarrow> msgqs hs ! i;
               (r, q) \<leftarrow> dequeue cap q;
               Some (r, hs\<lparr>msgqs := (msgqs hs)[i := Some q]\<rparr>) })"

definition doorbell_create :: "u32 \<Rightarrow> u32 \<Rightarrow> hv_state \<Rightarrow> ((hv_error + u32) \<times> hv_state) option" where
  "doorbell_create owner_vm irq hs =
     (if find_vm owner_vm hs = None then Some (Inl InvalidHandle, hs)
      else do { (r, hs) \<leftarrow> bell_register owner_vm irq hs;
                Some (case r of None \<Rightarrow> Inl NoMemory | Some h \<Rightarrow> Inr h, hs) })"

definition doorbell_send :: "u32 \<Rightarrow> hv_state \<Rightarrow> ((hv_error + unit) \<times> hv_state) option" where
  "doorbell_send h hs = ring_sgi h hs"

definition doorbell_set_mask :: "u32 \<Rightarrow> u64 \<Rightarrow> u64 \<Rightarrow> hv_state \<Rightarrow> (hv_error + unit) \<times> hv_state" where
  "doorbell_set_mask h enable_mask ack_mask hs = bell_set_mask h enable_mask ack_mask hs"

definition mem_share :: "phys_addr \<Rightarrow> nat \<Rightarrow> u32" where
  "mem_share phys sz = of_nat phys XOR of_nat sz"

section \<open>Preemption of guests\<close>

definition enable_guest_preemption :: "u32 \<Rightarrow> hv_state \<Rightarrow> hv_state" where
  "enable_guest_preemption q hs = hs\<lparr>preempt_enabled := True, quantum_ticks := q\<rparr>"

definition disable_guest_preemption :: "hv_state \<Rightarrow> hv_state" where
  "disable_guest_preemption hs = hs\<lparr>preempt_enabled := False, quantum_ticks := 0\<rparr>"

definition guest_tick_active :: "nat \<Rightarrow> hv_state \<Rightarrow> bool" where
  "guest_tick_active cpu hs \<longleftrightarrow> preempt_enabled hs \<and> active_vm hs \<noteq> None \<and> cpu = active_cpu hs"

text \<open>
  A tick inside a guest.  The answer is the kernel context the CPU continues with when the guest is
  preempted, \<open>None\<close> when the interrupted guest goes on.  \<open>frame\<close> is the address of the saved registers.
\<close>

definition capture_guest :: "u64 \<Rightarrow> nat \<Rightarrow> kmem \<Rightarrow> vm_record \<Rightarrow> vm_record" where
  "capture_guest stub frame m v =
     v\<lparr>v_guest_ctx := (v_guest_ctx v)
         \<lparr>x19_to_x28 := map (\<lambda>i. pload64 (frame + 8 * (22 + i)) m) [0..<10],
          ctx_fp := pload64 (frame + 8 * 32) m,
          ctx_sp := of_nat frame,
          ctx_lr := stub,
          ctx_spsr := SPSR_KERNEL,
          ctx_ttbr0 := of_nat (kernel_l0 m)\<rparr>,
       v_preempted := True\<rparr>"

definition tick_guest :: "u64 \<Rightarrow> nat \<Rightarrow> nat \<Rightarrow> kmem \<Rightarrow> hv_state \<Rightarrow> cpu_context option \<times> hv_state" where
  "tick_guest stub cpu frame m hs =
     (if \<not> preempt_enabled hs \<or> cpu \<noteq> active_cpu hs then (None, hs)
      else case active_vm hs of
        None \<Rightarrow> (None, hs)
      | Some h \<Rightarrow>
          (case find_vm h hs of
             None \<Rightarrow> (None, hs)
           | Some i \<Rightarrow>
               (case vms hs ! i of
                  None \<Rightarrow> (None, hs)
                | Some v \<Rightarrow>
                    if \<not> v_in_guest v then (None, hs)
                    else if v_budget_ticks v > 0 then (None, upd_vm i (\<lambda>v. v\<lparr>v_budget_ticks := v_budget_ticks v - 1\<rparr>) hs)
                    else (Some (v_kernel_ctx v), upd_vm i (capture_guest stub frame m) hs))))"

text \<open>
  The guest hands control back.  The context pointer the guest passes is the one it was given at launch
  (the address of its own \<^verbatim>\<open>guest_ctx\<close>).
\<close>

definition vm_yield_entry_masked :: "cpu_context \<Rightarrow> hv_state \<Rightarrow> cpu_context option \<times> hv_state" where
  "vm_yield_entry_masked regs hs =
     (case running_vm hs of
        None \<Rightarrow> (None, hs)
      | Some i \<Rightarrow>
          (case vms hs ! i of
             None \<Rightarrow> (None, hs)
           | Some v \<Rightarrow> (Some (v_kernel_ctx v), upd_vm i (\<lambda>v. v\<lparr>v_guest_ctx := saved_context regs\<rparr>) hs)))"

definition GUEST_RUNNING :: u32 where "GUEST_RUNNING = 0"
definition GUEST_WAITING :: u32 where "GUEST_WAITING = 1"
definition GUEST_PARKED :: u32 where "GUEST_PARKED = 2"

abbreviation VMM_INFO_OFF :: nat where "VMM_INFO_OFF \<equiv> 0x3000"
abbreviation GUEST_STATE_OFF :: nat where "GUEST_STATE_OFF \<equiv> 0x10"

definition tenant_state :: "phys_addr \<Rightarrow> kmem \<Rightarrow> u32" where
  "tenant_state shmem m = pload32 (shmem + VMM_INFO_OFF + GUEST_STATE_OFF) m"

definition set_tenant_state :: "phys_addr \<Rightarrow> u32 \<Rightarrow> kmem \<Rightarrow> kmem" where
  "set_tenant_state shmem st m = pstore32 (shmem + VMM_INFO_OFF + GUEST_STATE_OFF) st m"

definition park_active_tenant :: "hv_state \<Rightarrow> kmem \<Rightarrow> kmem" where
  "park_active_tenant hs m =
     (case active_vm hs of
        None \<Rightarrow> m
      | Some h \<Rightarrow>
          (case find_vm h hs of
             None \<Rightarrow> m
           | Some i \<Rightarrow>
               (case vms hs ! i of
                  None \<Rightarrow> m
                | Some v \<Rightarrow> if v_in_guest v then set_tenant_state (unat (fst (v_boot v))) GUEST_PARKED m else m)))"

section \<open>Guest service calls\<close>

definition TANIX_DOORBELL_SEND :: u64 where "TANIX_DOORBELL_SEND = 0x86000001"
definition TANIX_MSGQ_SEND :: u64 where "TANIX_MSGQ_SEND = 0x86000003"
definition TANIX_MSGQ_RECV :: u64 where "TANIX_MSGQ_RECV = 0x86000004"
definition TANIX_OK :: u64 where "TANIX_OK = 0"
definition TANIX_ERR :: u64 where "TANIX_ERR = - 1"

definition bell_send :: "u32 \<Rightarrow> hv_state \<Rightarrow> ((hv_error + unit) \<times> hv_state) option" where
  "bell_send h hs = (case bell_find h hs of None \<Rightarrow> Some (Inl InvalidHandle, hs) | Some _ \<Rightarrow> doorbell_send h hs)"

text \<open>
  \<^verbatim>\<open>handle_hvc\<close> on the bare-metal backend.  The buffers are slices made from guest addresses in the shared,
  identity-mapped address space; a null slice pointer fails the debug check.
\<close>

definition handle_hvc :: "u64 \<Rightarrow> u64 \<Rightarrow> u64 \<Rightarrow> u64 \<Rightarrow> kmem \<Rightarrow> hv_state \<Rightarrow> (u64 \<times> kmem \<times> hv_state) option" where
  "handle_hvc func a1 a2 a3 m hs =
     (let size = min (unat a3) MSGQ_MAX_MSG_SIZE in
      if func = TANIX_DOORBELL_SEND
      then do { (r, hs) \<leftarrow> bell_send (ucast a1) hs; Some (case r of Inr _ \<Rightarrow> TANIX_OK | Inl _ \<Rightarrow> TANIX_ERR, m, hs) }
      else if func = TANIX_MSGQ_SEND
      then (if a2 = 0 then None
            else let (r, hs) = msgq_send (ucast a1) (pload_bytes (unat a2) size m) hs
                 in Some (case r of Inr _ \<Rightarrow> TANIX_OK | Inl _ \<Rightarrow> TANIX_ERR, m, hs))
      else if func = TANIX_MSGQ_RECV
      then (if a2 = 0 then None
            else do { (r, hs) \<leftarrow> msgq_recv (ucast a1) size hs;
                      Some (case r of
                              Inr (bs, _) \<Rightarrow> (of_nat (length bs), pstore_bytes (unat a2) bs m, hs)
                            | Inl _ \<Rightarrow> (TANIX_ERR, m, hs)) })
      else Some (TANIX_ERR, m, hs))"

definition vmm_service :: "u64 \<Rightarrow> u64 \<Rightarrow> u64 \<Rightarrow> u64 \<Rightarrow> kmem \<Rightarrow> hv_state \<Rightarrow> (u64 \<times> kmem \<times> hv_state) option" where
  "vmm_service a0 a1 a2 a3 m hs = handle_hvc a0 a1 a2 a3 m hs"

section \<open>The Gunyah backend\<close>

text \<open>\<open>hvc\<close> is the hypervisor's answer to a hypercall: the four result registers for six arguments.\<close>

type_synonym hvc_fn = "u64 list \<Rightarrow> u64 \<times> u64 \<times> u64 \<times> u64"

definition gh_hypercall :: "u64 \<Rightarrow> u64" where
  "gh_hypercall fn_num = 0x80000000 OR 0x40000000 OR push_bit 24 6 OR push_bit 14 2 OR (fn_num AND 0x3FFF)"

definition gunyah_detect :: "hvc_fn \<Rightarrow> bool" where
  "gunyah_detect hvc = (case hvc [gh_hypercall 0x8000, 0, 0, 0, 0, 0] of
     (r0, r1, r2, r3) \<Rightarrow> r0 = 0 \<and> r1 = 0x47555919 \<and> r2 = 0 \<and> r3 = 0)"

definition gunyah_msgq_send :: "hvc_fn \<Rightarrow> u32 \<Rightarrow> nat \<Rightarrow> nat \<Rightarrow> hv_error + bool" where
  "gunyah_msgq_send hvc mq ptr len =
     (if len > MSGQ_MAX_MSG_SIZE then Inl BadState
      else case hvc [gh_hypercall 0x801B, ucast mq, of_nat len, of_nat ptr, 1, 0] of
             (r0, r1, _, _) \<Rightarrow> if r0 = 0 then Inr (r1 \<noteq> 0) else Inl (HypercallFailed r0))"

definition gunyah_msgq_recv :: "hvc_fn \<Rightarrow> u32 \<Rightarrow> nat \<Rightarrow> nat \<Rightarrow> hv_error + nat \<times> bool" where
  "gunyah_msgq_recv hvc mq ptr len =
     (case hvc [gh_hypercall 0x801C, ucast mq, of_nat ptr, of_nat len, 0, 0] of
        (r0, r1, r2, _) \<Rightarrow> if r0 = 0 then Inr (unat r1, r2 \<noteq> 0) else Inl (HypercallFailed r0))"

definition gunyah_doorbell_send :: "hvc_fn \<Rightarrow> u32 \<Rightarrow> hv_error + unit" where
  "gunyah_doorbell_send hvc h =
     (case hvc [gh_hypercall 0x8012, ucast h, 0, 0, 0, 0] of
        (r0, _, _, _) \<Rightarrow> if r0 = 0 then Inr () else Inl (HypercallFailed r0))"

definition gunyah_doorbell_set_mask :: "hvc_fn \<Rightarrow> u32 \<Rightarrow> u64 \<Rightarrow> u64 \<Rightarrow> hv_error + unit" where
  "gunyah_doorbell_set_mask hvc h enable_mask ack_mask =
     (case hvc [gh_hypercall 0x8015, ucast h, enable_mask, ack_mask, 0, 0] of
        (r0, _, _, _) \<Rightarrow> if r0 = 0 then Inr () else Inl (HypercallFailed r0))"

definition gunyah_mem_share :: "hvc_fn \<Rightarrow> phys_addr \<Rightarrow> nat \<Rightarrow> hv_error + u32" where
  "gunyah_mem_share hvc phys sz =
     (case hvc [gh_hypercall 0x8061, 0, 0, 0, of_nat phys, of_nat sz] of
        (r0, cap, _, _) \<Rightarrow>
          if r0 \<noteq> 0 then Inl (HypercallFailed r0)
          else case hvc [gh_hypercall 0x802B, 0, cap, of_nat phys, 6, 0] of
                 (m0, _, _, _) \<Rightarrow> if m0 \<noteq> 0 then Inl (HypercallFailed m0) else Inr (ucast cap))"

text \<open>Object creation and vCPU runs need the resource manager and are refused.\<close>

definition gunyah_unsupported :: "hv_error + 'a" where
  "gunyah_unsupported = Inl NotSupported"

definition select_backend :: "bool \<Rightarrow> hvc_fn \<Rightarrow> u8" where
  "select_backend gunyah_feature hvc = (if gunyah_feature \<and> gunyah_detect hvc then 2 else 1)"

section \<open>Queues as bounded lists\<close>

text \<open>What a client of a bounded queue relies on, stated over the messages it holds.\<close>

locale bounded_fifo =
  fixes enq :: "'m \<Rightarrow> 'q \<Rightarrow> (hv_error + bool) \<times> 'q"
    and deq :: "nat \<Rightarrow> 'q \<Rightarrow> ((hv_error + 'm \<times> bool) \<times> 'q) option"
    and held :: "'q \<Rightarrow> 'm list"
    and room :: "'q \<Rightarrow> nat"
    and inv :: "'q \<Rightarrow> bool"
    and fits :: "nat \<Rightarrow> 'm \<Rightarrow> bool"
    and limit :: nat
  assumes enq_bad: "\<not> fits limit m \<Longrightarrow> enq m q = (Inl BadMessage, q)"
    and enq_full: "fits limit m \<Longrightarrow> inv q \<Longrightarrow> room q \<le> length (held q) \<Longrightarrow> enq m q = (Inl Full_queue, q)"
    and enq_ok: "fits limit m \<Longrightarrow> inv q \<Longrightarrow> length (held q) < room q \<Longrightarrow>
      \<exists>q'. enq m q = (Inr (Suc (length (held q)) < room q), q') \<and> inv q' \<and> held q' = held q @ [m] \<and> room q' = room q"
    and deq_empty: "inv q \<Longrightarrow> held q = [] \<Longrightarrow> deq n q = Some (Inl Empty, q)"
    and deq_ok: "inv q \<Longrightarrow> held q = m # ms \<Longrightarrow> limit \<le> n \<Longrightarrow>
      \<exists>q'. deq n q = Some (Inr (m, ms \<noteq> []), q') \<and> inv q' \<and> held q' = ms \<and> room q' = room q"

datatype 'm qop = Send 'm | Recv nat

text \<open>A history of calls: the messages accepted, the messages handed out, and the queue at the end.\<close>

fun qrun :: "('m \<Rightarrow> 'q \<Rightarrow> (hv_error + bool) \<times> 'q) \<Rightarrow> (nat \<Rightarrow> 'q \<Rightarrow> ((hv_error + 'm \<times> bool) \<times> 'q) option) \<Rightarrow>
    'm qop list \<Rightarrow> 'q \<Rightarrow> ('m list \<times> 'm list \<times> 'q) option" where
  "qrun enq deq [] q = Some ([], [], q)"
| "qrun enq deq (Send m # ops) q =
     (case enq m q of
        (Inl _, q) \<Rightarrow> qrun enq deq ops q
      | (Inr _, q) \<Rightarrow> do { (sent, got, q) \<leftarrow> qrun enq deq ops q; Some (m # sent, got, q) })"
| "qrun enq deq (Recv n # ops) q =
     do { (r, q) \<leftarrow> deq n q;
          (sent, got, q) \<leftarrow> qrun enq deq ops q;
          Some (sent, case r of Inl _ \<Rightarrow> got | Inr (m, _) \<Rightarrow> m # got, q) }"

context bounded_fifo
begin

lemma history:
  assumes "inv q" "\<And>n. Recv n \<in> set ops \<Longrightarrow> limit \<le> n"
  shows "\<exists>sent got q'. qrun enq deq ops q = Some (sent, got, q') \<and> inv q' \<and> held q @ sent = got @ held q'"
  using assms
proof (induction ops arbitrary: q)
  case (Cons op ops)
  note IH = Cons.IH [OF _ Cons.prems(2)]
  show ?case
  proof (cases op)
    case (Send m)
    consider "enq m q = (Inl BadMessage, q)" | "enq m q = (Inl Full_queue, q)"
      | q1 b where "enq m q = (Inr b, q1)" "inv q1" "held q1 = held q @ [m]"
      using enq_bad enq_full enq_ok Cons.prems(1) by (metis not_le)
    then show ?thesis
    proof cases
      case 3
      from IH [OF 3(2)] obtain sent got q' where "qrun enq deq ops q1 = Some (sent, got, q')" "inv q'"
          "held q1 @ sent = got @ held q'" by auto
      then show ?thesis using 3 by (simp add: Send)
    qed (use IH [OF Cons.prems(1)] in \<open>simp_all add: Send\<close>)
  next
    case (Recv n)
    then have n: "limit \<le> n" using Cons.prems(2) by simp
    show ?thesis
    proof (cases "held q")
      case Nil
      then have d: "deq n q = Some (Inl Empty, q)" using deq_empty Cons.prems(1) by blast
      from IH [OF Cons.prems(1)] obtain sent got q' where "qrun enq deq ops q = Some (sent, got, q')" "inv q'"
          "held q @ sent = got @ held q'" by auto
      then show ?thesis by (simp add: Recv d)
    next
      case (Cons m ms)
      then obtain q1 where q1: "deq n q = Some (Inr (m, ms \<noteq> []), q1)" "inv q1" "held q1 = ms"
        using deq_ok [OF \<open>inv q\<close> Cons n] by blast
      from IH [OF q1(2)] obtain sent got q' where "qrun enq deq ops q1 = Some (sent, got, q')" "inv q'"
          "held q1 @ sent = got @ held q'" by auto
      then show ?thesis using q1 by (simp add: Recv Cons)
    qed
  qed
qed simp

end

definition slot_msg :: "msgq_slot option \<Rightarrow> u8 list" where
  "slot_msg sl = (case sl of Some s \<Rightarrow> take (unat (slot_len s)) (slot_data s) | None \<Rightarrow> [])"

definition mq_contents :: "msgq \<Rightarrow> u8 list list" where
  "mq_contents q = map (\<lambda>k. slot_msg (mq_slots q ! ((mq_head q + k) mod MSGQ_SLOTS))) [0..<mq_count q]"

definition msgq_ok :: "msgq \<Rightarrow> bool" where
  "msgq_ok q \<longleftrightarrow> length (mq_slots q) = MSGQ_SLOTS \<and> mq_head q < MSGQ_SLOTS \<and> mq_count q \<le> mq_depth q \<and>
     1 \<le> mq_depth q \<and> mq_depth q \<le> MSGQ_SLOTS \<and>
     (\<forall>k < mq_count q. \<exists>s. mq_slots q ! ((mq_head q + k) mod MSGQ_SLOTS) = Some s \<and>
        length (slot_data s) = MSGQ_MAX_MSG_SIZE \<and> unat (slot_len s) \<le> MSGQ_MAX_MSG_SIZE)"

lemma mq_contents_length [simp]: "length (mq_contents q) = mq_count q"
  by (simp add: mq_contents_def)

lemma ring_apart: "k < n \<Longrightarrow> n < N \<Longrightarrow> (h + k) mod N \<noteq> (h + n) mod N" for h k n N :: nat
proof
  assume "k < n" "n < N" "(h + k) mod N = (h + n) mod N"
  then have "N dvd (h + n) - (h + k)" by (metis add_le_cancel_left mod_eq_dvd_iff_nat less_imp_le)
  then have "N dvd n - k" by simp
  then show False using \<open>k < n\<close> \<open>n < N\<close> by (auto dest!: dvd_imp_le)
qed

lemma enqueue_ring:
  assumes "msgq_ok q" "mq_count q < mq_depth q" "length msg \<le> MSGQ_MAX_MSG_SIZE"
  shows "\<exists>q'. enqueue msg q = (Inr (Suc (mq_count q) < mq_depth q), q') \<and> msgq_ok q' \<and>
    mq_contents q' = mq_contents q @ [msg] \<and> mq_depth q' = mq_depth q"
proof -
  let ?n = "mq_count q" and ?h = "mq_head q"
  let ?i = "(?h + ?n) mod MSGQ_SLOTS"
  let ?s = "\<lparr>slot_data = msg @ replicate (MSGQ_MAX_MSG_SIZE - length msg) 0, slot_len = of_nat (length msg)\<rparr> :: msgq_slot"
  let ?q = "q\<lparr>mq_slots := (mq_slots q)[?i := Some ?s], mq_count := ?n + 1\<rparr>"
  have n: "?n < MSGQ_SLOTS" "?i < length (mq_slots q)" using assms(1,2) by (auto simp: msgq_ok_def)
  have other: "mq_slots ?q ! ((?h + k) mod MSGQ_SLOTS) = mq_slots q ! ((?h + k) mod MSGQ_SLOTS)" if "k < ?n" for k
    using ring_apart [OF that n(1), of ?h] by simp
  have new: "mq_slots ?q ! ?i = Some ?s" using n(2) by simp
  have u: "unat (of_nat (length msg) :: 16 word) = length msg"
    using assms(3) by (simp add: unsigned_of_nat take_bit_nat_eq_self_iff)
  have "slot_msg (Some ?s) = msg" using u assms(3) by (simp add: slot_msg_def)
  then have "mq_contents ?q = mq_contents q @ [msg]"
    using other new by (simp add: mq_contents_def)
  moreover have "msgq_ok ?q"
    unfolding msgq_ok_def
  proof (intro conjI allI impI)
    fix k assume "k < mq_count ?q"
    then have "k < ?n \<or> k = ?n" by auto
    then show "\<exists>s. mq_slots ?q ! ((mq_head ?q + k) mod MSGQ_SLOTS) = Some s \<and>
        length (slot_data s) = MSGQ_MAX_MSG_SIZE \<and> unat (slot_len s) \<le> MSGQ_MAX_MSG_SIZE"
    proof
      assume "k < ?n"
      then show ?thesis using other [of k] assms(1) by (simp add: msgq_ok_def)
    next
      assume "k = ?n"
      then show ?thesis using new u assms(3) by simp
    qed
  qed (use assms in \<open>auto simp: msgq_ok_def\<close>)
  moreover have "enqueue msg q = (Inr (Suc ?n < mq_depth q), ?q)"
    using assms(2,3) by (simp add: enqueue_def Let_def)
  ultimately show ?thesis by auto
qed

lemma dequeue_ring:
  assumes "msgq_ok q" "mq_contents q = msg # ms" "MSGQ_MAX_MSG_SIZE \<le> cap"
  shows "\<exists>q'. dequeue cap q = Some (Inr (msg, ms \<noteq> []), q') \<and> msgq_ok q' \<and> mq_contents q' = ms \<and> mq_depth q' = mq_depth q"
proof -
  let ?n = "mq_count q" and ?h = "mq_head q"
  have n: "?n = Suc (length ms)" using assms(2) mq_contents_length [of q] by simp
  obtain s where s: "mq_slots q ! ?h = Some s" "length (slot_data s) = MSGQ_MAX_MSG_SIZE" "unat (slot_len s) \<le> MSGQ_MAX_MSG_SIZE"
    using assms(1) n unfolding msgq_ok_def by (auto dest!: spec [of _ 0])
  have h: "?h < MSGQ_SLOTS" "?n \<le> MSGQ_SLOTS" using assms(1) by (auto simp: msgq_ok_def)
  let ?q = "q\<lparr>mq_slots := (mq_slots q)[?h := None], mq_head := (?h + 1) mod MSGQ_SLOTS, mq_count := ?n - 1\<rparr>"
  have sh: "((?h + 1) mod MSGQ_SLOTS + k) mod MSGQ_SLOTS = (?h + Suc k) mod MSGQ_SLOTS" for k
    by (simp add: mod_simps)
  have other: "mq_slots ?q ! ((mq_head ?q + k) mod MSGQ_SLOTS) = mq_slots q ! ((?h + Suc k) mod MSGQ_SLOTS)"
    if "Suc k < ?n" for k
    using ring_apart [of 0 "Suc k" MSGQ_SLOTS ?h] that h sh [of k] by simp
  have c: "mq_contents q = slot_msg (mq_slots q ! ?h) # map (\<lambda>k. slot_msg (mq_slots q ! ((?h + Suc k) mod MSGQ_SLOTS))) [0..<length ms]"
    using h(1) unfolding mq_contents_def n by (simp add: upt_conv_Cons map_Suc_upt [symmetric] del: upt_Suc)
  have "mq_contents ?q = map (\<lambda>k. slot_msg (mq_slots q ! ((?h + Suc k) mod MSGQ_SLOTS))) [0..<length ms]"
    unfolding mq_contents_def
  proof (rule map_cong)
    show "[0..<mq_count ?q] = [0..<length ms]" using n by simp
    show "slot_msg (mq_slots ?q ! ((mq_head ?q + k) mod MSGQ_SLOTS)) = slot_msg (mq_slots q ! ((?h + Suc k) mod MSGQ_SLOTS))"
      if "k \<in> set [0..<length ms]" for k using other [of k] that n by simp
  qed
  then have "mq_contents ?q = ms" using c assms(2) by simp
  moreover have "msgq_ok ?q"
    unfolding msgq_ok_def
  proof (intro conjI allI impI)
    fix k assume "k < mq_count ?q"
    then have "Suc k < ?n" by simp
    then show "\<exists>s. mq_slots ?q ! ((mq_head ?q + k) mod MSGQ_SLOTS) = Some s \<and>
        length (slot_data s) = MSGQ_MAX_MSG_SIZE \<and> unat (slot_len s) \<le> MSGQ_MAX_MSG_SIZE"
      unfolding other [OF \<open>Suc k < ?n\<close>] using assms(1) \<open>Suc k < ?n\<close> unfolding msgq_ok_def by blast
  qed (use assms in \<open>auto simp: msgq_ok_def\<close>)
  moreover have "take (min (unat (slot_len s)) cap) (slot_data s) = msg"
    using c assms(2,3) s by (simp add: slot_msg_def)
  then have "dequeue cap q = Some (Inr (msg, ms \<noteq> []), ?q)"
    using n s(1) by (auto simp: dequeue_def Let_def)
  ultimately show ?thesis by auto
qed

interpretation mq: bounded_fifo enqueue dequeue mq_contents mq_depth msgq_ok "\<lambda>n m. length m \<le> n" MSGQ_MAX_MSG_SIZE
proof unfold_locales
  show "\<not> length m \<le> MSGQ_MAX_MSG_SIZE \<Longrightarrow> enqueue m q = (Inl BadMessage, q)" for m q
    by (simp add: enqueue_def)
  show "length m \<le> MSGQ_MAX_MSG_SIZE \<Longrightarrow> msgq_ok q \<Longrightarrow> mq_depth q \<le> length (mq_contents q) \<Longrightarrow> enqueue m q = (Inl Full_queue, q)"
    for m q by (simp add: enqueue_def)
  show "msgq_ok q \<Longrightarrow> mq_contents q = [] \<Longrightarrow> dequeue n q = Some (Inl Empty, q)" for q n
    using mq_contents_length [of q] by (simp add: dequeue_def)
qed (use enqueue_ring dequeue_ring in auto)

section \<open>Time slices\<close>

primrec tick_n :: "u64 \<Rightarrow> nat \<Rightarrow> nat \<Rightarrow> kmem \<Rightarrow> nat \<Rightarrow> hv_state \<Rightarrow> cpu_context option \<times> hv_state" where
  "tick_n stub cpu frame m 0 hs = (None, hs)"
| "tick_n stub cpu frame m (Suc n) hs =
     (case tick_guest stub cpu frame m hs of
        (None, hs) \<Rightarrow> tick_n stub cpu frame m n hs
      | (Some c, hs) \<Rightarrow> (Some c, hs))"

lemma unat_of_nat_u32: "n < 2 ^ 32 \<Longrightarrow> unat (of_nat n :: u32) = n"
  by (simp add: unsigned_of_nat take_bit_nat_eq_self_iff)

lemma upd_vm_find:
  assumes "\<And>v. v_handle (f v) = v_handle v"
  shows "find_vm h (upd_vm i f hs) = find_vm h hs"
  unfolding find_vm_def lookup_slot_def upd_vm_def
  using find_idx_update [of "\<lambda>s. case s of None \<Rightarrow> False | Some v \<Rightarrow> v_handle v = h" "map_option f (vms hs ! i)" "vms hs" i]
  by (auto simp: assms split: option.splits)

lemma find_vm_Some: "find_vm h hs = Some i \<Longrightarrow> \<exists>v. i < length (vms hs) \<and> vms hs ! i = Some v \<and> v_handle v = h"
  unfolding find_vm_def by (auto dest: lookup_slot_Some)

lemma upd_vm_at [simp]:
  "i < length (vms hs) \<Longrightarrow> vms (upd_vm i f hs) ! i = map_option f (vms hs ! i)" "length (vms (upd_vm i f hs)) = length (vms hs)"
  "active_vm (upd_vm i f hs) = active_vm hs" "active_cpu (upd_vm i f hs) = active_cpu hs"
  "preempt_enabled (upd_vm i f hs) = preempt_enabled hs" "quantum_ticks (upd_vm i f hs) = quantum_ticks hs"
  by (simp_all add: upd_vm_def)

text \<open>\<open>slicing cpu h i v hs\<close>: the guest \<open>h\<close> in slot \<open>i\<close> is executing on \<open>cpu\<close> with preemption armed.\<close>

definition slicing :: "nat \<Rightarrow> u32 \<Rightarrow> nat \<Rightarrow> vm_record \<Rightarrow> hv_state \<Rightarrow> bool" where
  "slicing cpu h i v hs \<longleftrightarrow> preempt_enabled hs \<and> active_cpu hs = cpu \<and> active_vm hs = Some h \<and> find_vm h hs = Some i \<and>
     i < length (vms hs) \<and> vms hs ! i = Some v \<and> v_in_guest v"

lemma tick_guest_slicing:
  assumes "slicing cpu h i v hs"
  shows "tick_guest stub cpu frame m hs =
    (if v_budget_ticks v > 0 then (None, upd_vm i (\<lambda>v. v\<lparr>v_budget_ticks := v_budget_ticks v - 1\<rparr>) hs)
     else (Some (v_kernel_ctx v), upd_vm i (capture_guest stub frame m) hs))"
  using assms by (simp add: tick_guest_def slicing_def)

lemma tick_n_slicing:
  "slicing cpu h i v hs \<Longrightarrow> v_budget_ticks v = of_nat (b + n) \<Longrightarrow> b + n < 2 ^ 32 \<Longrightarrow>
     \<exists>hs'. tick_n stub cpu frame m n hs = (None, hs') \<and> slicing cpu h i (v\<lparr>v_budget_ticks := of_nat b\<rparr>) hs'"
proof (induction n arbitrary: v hs)
  case 0
  then have e: "v\<lparr>v_budget_ticks := of_nat b\<rparr> = v" by simp
  show ?case unfolding e using 0(1) by simp
next
  case (Suc n)
  let ?f = "\<lambda>v. v\<lparr>v_budget_ticks := v_budget_ticks v - 1\<rparr>"
  have "unat (v_budget_ticks v) = b + Suc n" unfolding Suc.prems(2) using Suc.prems(3) by (rule unat_of_nat_u32)
  then have "v_budget_ticks v > 0" by (simp add: word_less_nat_alt)
  then have t: "tick_guest stub cpu frame m hs = (None, upd_vm i ?f hs)" using tick_guest_slicing [OF Suc.prems(1)] by simp
  have sl: "slicing cpu h i (?f v) (upd_vm i ?f hs)"
    using Suc.prems(1) upd_vm_find [of ?f h i hs] by (simp add: slicing_def)
  have "v_budget_ticks (?f v) = of_nat (b + n)" using Suc.prems(2) by simp
  then obtain hs' where "tick_n stub cpu frame m n (upd_vm i ?f hs) = (None, hs')"
      "slicing cpu h i ((?f v)\<lparr>v_budget_ticks := of_nat b\<rparr>) hs'"
    using Suc.IH [OF sl] Suc.prems(3) by auto
  then show ?case using t by simp
qed

lemma tick_n_prefix:
  assumes "tick_n stub cpu frame m (k + n) hs = (None, hs')"
  shows "fst (tick_n stub cpu frame m k hs) = None"
  using assms by (induction k arbitrary: hs) (auto split: option.splits prod.splits)

lemma tick_n_add:
  "tick_n stub cpu frame m k hs = (None, hs') \<Longrightarrow> tick_n stub cpu frame m (k + n) hs = tick_n stub cpu frame m n hs'"
  by (induction k arbitrary: hs) (auto split: option.splits prod.splits)

lemma vcpu_prime_sel:
  assumes "vcpu_prime stub quantum m v = Some v'"
  shows "v_handle v' = v_handle v" "v_budget_ticks v' = quantum" "v_preempted v' = v_preempted v" "v_started v'"
  using assms by (auto simp: vcpu_prime_def Let_def split: if_splits Option.bind_splits)

lemma enter_guest_sel:
  assumes "enter_guest stub regs v = (v', g)"
  shows "v_handle v' = v_handle v" "v_budget_ticks v' = v_budget_ticks v" "v_in_guest v' = v_in_guest v"
    "v_running v' = v_running v" "v_kernel_ctx v' = saved_context regs" "v_guest_ctx v' = g" "v_preempted v' = v_preempted v"
    "v_started v' = v_started v"
  using assms by (auto simp: enter_guest_def Let_def split: if_splits)

lemma find_vm_put:
  assumes "find_vm h hs = Some i" "v_handle v = h"
  shows "find_vm h (hs\<lparr>vms := (vms hs)[i := Some v], active_vm := a, active_cpu := c\<rparr>) = Some i"
  using assms find_vm_Some [OF assms(1)]
    find_idx_update [of "\<lambda>s. case s of None \<Rightarrow> False | Some v \<Rightarrow> v_handle v = h" "Some v" "vms hs" i]
  by (auto simp: find_vm_def lookup_slot_def)

lemma vcpu_enter_slicing:
  assumes "vcpu_enter stub cpu regs h vcpu m hs = Some (Inr g, hs1)" "preempt_enabled hs"
  shows "\<exists>i v. slicing cpu h i v hs1 \<and> v_budget_ticks v = quantum_ticks hs \<and> v_kernel_ctx v = saved_context regs \<and>
    v_guest_ctx v = g \<and> v_started v"
proof -
  obtain i v0 v1 v2 where i: "find_vm h hs = Some i" "vms hs ! i = Some v0"
      "vcpu_prime stub (quantum_ticks hs) m v0 = Some v1"
      "enter_guest stub regs (v1\<lparr>v_running := True, v_in_guest := True\<rparr>) = (v2, g)"
      "hs1 = hs\<lparr>vms := (vms hs)[i := Some v2], active_vm := Some h, active_cpu := cpu\<rparr>"
    using assms(1) by (auto simp: vcpu_enter_def Let_def split: if_splits option.splits Option.bind_splits prod.splits)
  have h: "v_handle v0 = h" "i < length (vms hs)" using find_vm_Some [OF i(1)] i(2) by auto
  note sel = enter_guest_sel [OF i(4)] vcpu_prime_sel [OF i(3)]
  have "find_vm h hs1 = Some i" unfolding i(5) by (rule find_vm_put [OF i(1)]) (use sel h in simp)
  then have "slicing cpu h i v2 hs1" using assms(2) h(2) sel by (simp add: slicing_def i(5))
  then show ?thesis using sel by auto
qed

text \<open>What a capture leaves for the next entry.\<close>

definition resume_ctx :: "u64 \<Rightarrow> nat \<Rightarrow> kmem \<Rightarrow> cpu_context \<Rightarrow> cpu_context" where
  "resume_ctx stub frame m c = c\<lparr>x19_to_x28 := map (\<lambda>i. pload64 (frame + 8 * (22 + i)) m) [0..<10],
     ctx_fp := pload64 (frame + 8 * 32) m, ctx_sp := of_nat frame, ctx_lr := stub, ctx_spsr := SPSR_KERNEL,
     ctx_ttbr0 := of_nat (kernel_l0 m)\<rparr>"

definition demo_hv :: hv_state where
  "demo_hv = enable_guest_preemption 2 (snd (the (vm_create
     \<lparr>cfg_ram_base = 0x50000000, cfg_ram_size = 0x100000, cfg_entry = 0x50000000, cfg_boot = (0, 0)\<rparr> hv_new)))"

lemma demo_hv_sel: "preempt_enabled demo_hv" "quantum_ticks demo_hv = 2"
  by (simp_all add: demo_hv_def enable_guest_preemption_def)

lemma demo_hv_enter: "\<exists>g hs1. vcpu_enter 0x40080000 0 context_zeroed 1 0 (boot_kmem new_zeroed) demo_hv = Some (Inr g, hs1)"
proof -
  have "free_slot (replicate HV_MAX_VMS (None :: vm_record option)) = Some 0" by (simp add: free_slot_Some)
  then obtain v where v: "vms demo_hv = (replicate HV_MAX_VMS None)[0 := Some v]" "v_handle v = 1" "\<not> v_running v" "\<not> v_started v"
      "v_ram_base v = 0x50000000" "v_ram_size v = 0x100000"
    by (simp add: demo_hv_def enable_guest_preemption_def vm_create_def alloc_handle_def u32_inc_def hv_new_def)
  then have "find_vm 1 demo_hv = Some 0" "vms demo_hv ! 0 = Some v"
    by (simp_all add: find_vm_def lookup_slot_def find_idx_Some)
  with v show ?thesis
    by (simp add: vcpu_enter_def vcpu_prime_def uadd_def enter_guest_def Let_def)
qed

section \<open>Properties\<close>



text \<open>
  C23.  A tenant gets its quantum and one tick more.  After an entry into a guest with preemption armed, every
  tick up to the quantum leaves the guest running; the next one takes it off the CPU, which continues with
  the kernel context saved at the entry, and the run is reported as preempted.
\<close>

theorem guest_slice_exact:
  assumes "vcpu_enter stub cpu regs h vcpu m hs = Some (Inr g, hs1)" "preempt_enabled hs"
  shows "(\<forall>n \<le> unat (quantum_ticks hs). fst (tick_n stub cpu frame m' n hs1) = None) \<and>
    (\<exists>hs2. tick_n stub cpu frame m' (unat (quantum_ticks hs) + 1) hs1 = (Some (saved_context regs), hs2) \<and>
       fst (vcpu_exit_run h hs2) = Preempted)"
proof -
  let ?q = "unat (quantum_ticks hs)"
  obtain i v where v: "slicing cpu h i v hs1" "v_budget_ticks v = quantum_ticks hs" "v_kernel_ctx v = saved_context regs"
    using vcpu_enter_slicing [OF assms] by blast
  have "?q < 2 ^ 32" using unsigned_less [of "quantum_ticks hs"] by simp
  then obtain hs' where 1: "tick_n stub cpu frame m' ?q hs1 = (None, hs')" "slicing cpu h i (v\<lparr>v_budget_ticks := 0\<rparr>) hs'"
    using tick_n_slicing [OF v(1), of 0 ?q stub frame m'] v(2) by auto
  let ?hs2 = "upd_vm i (capture_guest stub frame m') hs'"
  have "tick_n stub cpu frame m' (?q + 1) hs1 = (Some (saved_context regs), ?hs2)"
    using tick_n_add [OF 1(1), of 1] tick_guest_slicing [OF 1(2), of stub frame m'] v(3) by simp
  moreover have "find_vm h ?hs2 = Some i"
    using upd_vm_find [of "capture_guest stub frame m'" h i hs'] 1(2) by (simp add: capture_guest_def slicing_def)
  then have "fst (vcpu_exit_run h ?hs2) = Preempted"
    using 1(2) by (simp add: vcpu_exit_run_def slicing_def capture_guest_def)
  moreover have "fst (tick_n stub cpu frame m' n hs1) = None" if "n \<le> ?q" for n
    using tick_n_prefix [of stub cpu frame m' n "?q - n" hs1 hs'] 1(1) that by simp
  ultimately show ?thesis by blast
qed

theorem guest_slice_exact_witness:
  "\<exists>g hs1. vcpu_enter 0x40080000 0 context_zeroed 1 0 (boot_kmem new_zeroed) demo_hv = Some (Inr g, hs1) \<and>
     fst (tick_n 0x40080000 0 0x50080000 (boot_kmem new_zeroed) 2 hs1) = None \<and>
     fst (tick_n 0x40080000 0 0x50080000 (boot_kmem new_zeroed) 3 hs1) = Some (saved_context context_zeroed)"
proof -
  obtain g hs1 where e: "vcpu_enter 0x40080000 0 context_zeroed 1 0 (boot_kmem new_zeroed) demo_hv = Some (Inr g, hs1)"
    using demo_hv_enter by blast
  have u: "unat (2 :: u32) = 2" "(2 :: nat) + 1 = 3" by simp_all
  show ?thesis
    using e guest_slice_exact [OF e demo_hv_sel(1), of "0x50080000" "boot_kmem new_zeroed", unfolded demo_hv_sel(2) u]
    by (metis fst_conv order_refl)
qed

text \<open>
  C22.  A preempted guest resumes where it stopped.  When the slice is spent and the guest is entered again,
  the CPU is loaded with the callee-saved registers of the interrupt frame, the stack pointer at that
  frame and the resume stub as return address, with interrupts masked; the register file in the frame
  itself is left as it was, since only the monitor's bookkeeping changed.
\<close>

theorem preempted_guest_resumes:
  assumes "vcpu_enter stub cpu regs h vcpu m hs = Some (Inr g, hs1)" "preempt_enabled hs"
    and "tick_n stub cpu frame m' (unat (quantum_ticks hs) + 1) hs1 = (c, hs2)"
    and "vcpu_exit_run h hs2 = (e, hs3)"
  shows "\<exists>hs4. vcpu_enter stub cpu regs' h 0 m'' hs3 = Some (Inr (resume_ctx stub frame m' g), hs4)"
proof -
  let ?q = "unat (quantum_ticks hs)" and ?f = "capture_guest stub frame m'"
  let ?x = "\<lambda>v. v\<lparr>v_in_guest := False, v_running := False, v_preempted := False\<rparr>"
  obtain i v where v: "slicing cpu h i v hs1" "v_budget_ticks v = quantum_ticks hs" "v_guest_ctx v = g" "v_started v"
    using vcpu_enter_slicing [OF assms(1,2)] by blast
  have "?q < 2 ^ 32" using unsigned_less [of "quantum_ticks hs"] by simp
  then obtain hs' where 1: "tick_n stub cpu frame m' ?q hs1 = (None, hs')" "slicing cpu h i (v\<lparr>v_budget_ticks := 0\<rparr>) hs'"
    using tick_n_slicing [OF v(1), of 0 ?q stub frame m'] v(2) by auto
  have hs2: "hs2 = upd_vm i ?f hs'"
    using assms(3) tick_n_add [OF 1(1), of 1] tick_guest_slicing [OF 1(2), of stub frame m'] by simp
  have i: "i < length (vms hs')" "vms hs' ! i = Some (v\<lparr>v_budget_ticks := 0\<rparr>)" "find_vm h hs' = Some i"
    using 1(2) by (auto simp: slicing_def)
  have f2: "find_vm h hs2 = Some i" unfolding hs2 using upd_vm_find [of ?f h i hs'] i(3) by (simp add: capture_guest_def)
  have hs3: "hs3 = (upd_vm i ?x hs2)\<lparr>active_vm := None\<rparr>" using assms(4) f2 by (auto simp: vcpu_exit_run_def Let_def)
  have f3: "find_vm h hs3 = Some i" unfolding hs3 using upd_vm_find [of ?x h i hs2] f2 by (simp add: find_vm_def)
  have w: "vms hs3 ! i = Some (?x (?f (v\<lparr>v_budget_ticks := 0\<rparr>)))" using i by (simp add: hs3 hs2)
  have g: "v_guest_ctx (?f (v\<lparr>v_budget_ticks := 0\<rparr>)) = resume_ctx stub frame m' g" "ctx_lr (resume_ctx stub frame m' g) = stub"
    using v(3) by (simp_all add: capture_guest_def resume_ctx_def)
  show ?thesis using v(4) g by (simp add: vcpu_enter_def f3 w vcpu_prime_def enter_guest_def capture_guest_def resume_ctx_def Let_def)
qed

theorem preempted_guest_resumes_witness:
  "\<exists>g hs1 c hs2 e hs3 hs4. vcpu_enter 0x40080000 0 context_zeroed 1 0 (boot_kmem new_zeroed) demo_hv = Some (Inr g, hs1) \<and>
     tick_n 0x40080000 0 0x50080000 (boot_kmem new_zeroed) 3 hs1 = (c, hs2) \<and> vcpu_exit_run 1 hs2 = (e, hs3) \<and>
     vcpu_enter 0x40080000 0 context_zeroed 1 0 (boot_kmem new_zeroed) hs3 =
       Some (Inr (resume_ctx 0x40080000 0x50080000 (boot_kmem new_zeroed) g), hs4)"
proof -
  obtain g hs1 where e: "vcpu_enter 0x40080000 0 context_zeroed 1 0 (boot_kmem new_zeroed) demo_hv = Some (Inr g, hs1)"
    using demo_hv_enter by blast
  have u: "unat (2 :: u32) = 2" "(2 :: nat) + 1 = 3" by simp_all
  obtain c hs2 where t: "tick_n 0x40080000 0 0x50080000 (boot_kmem new_zeroed) 3 hs1 = (c, hs2)" by fastforce
  obtain x hs3 where x: "vcpu_exit_run 1 hs2 = (x, hs3)" by fastforce
  from preempted_guest_resumes [OF e demo_hv_sel(1), unfolded demo_hv_sel(2) u, OF t x, of context_zeroed "boot_kmem new_zeroed"]
  show ?thesis using e t x by blast
qed

end
