(* ===== verification/Exception.thy ===== *)
theory Exception
  imports Vm_Fault Hypervisor
begin

text \<open>
  Interrupts and synchronous exceptions: \<^verbatim>\<open>kernel/src/arch/aarch64/exception.rs\<close>.

  The assembly stubs save the interrupted registers in a frame on the interrupted stack and pass its address; the
  frame is identity-mapped memory, so the handlers read and write physical words of it.  The INTID that the
  interrupt controller answers to an acknowledge is an argument.  A handler that does not return says how it ends:
  it switched to another task, it resumed the VMM, or it parked the CPU.
\<close>

section \<open>Interrupts\<close>

datatype handler_end = Returns | Switches | Resumes_Vmm cpu_context | Parks

definition disable_irq :: "u32 \<Rightarrow> kstate \<Rightarrow> kstate" where
  "disable_irq irq s = s\<lparr>gic_on := (gic_on s)(irq := False)\<rparr>"

definition timer_irq ::
  "u64 \<Rightarrow> nat \<Rightarrow> bool \<Rightarrow> nat \<Rightarrow> kstate \<Rightarrow> hv_state \<Rightarrow> (handler_end \<times> kstate \<times> hv_state) option" where
  "timer_irq stub cpu el0 frame s hs =
     (let s = tick s in
      if el0 then do { s \<leftarrow> tick_preempt True cpu s; Some (Returns, s, hs) }
      else if guest_tick_active cpu hs then
        (case tick_guest stub cpu frame (mm s) hs of
           (None, hs) \<Rightarrow> Some (Returns, s, hs)
         | (Some ctx, hs) \<Rightarrow> Some (Resumes_Vmm ctx, s, hs))
      else do { s \<leftarrow> tick_preempt False cpu s; Some (Returns, s, hs) })"

definition device_irq :: "nat \<Rightarrow> u32 \<Rightarrow> kstate \<Rightarrow> kstate" where
  "device_irq cpu intid s =
     poke_other_cpus cpu (disable_irq intid (s\<lparr>irq_bits := note_pending intid (irq_bits s)\<rparr>))"

definition irq_handler ::
  "u64 \<Rightarrow> nat \<Rightarrow> bool \<Rightarrow> nat \<Rightarrow> u32 \<Rightarrow> kstate \<Rightarrow> hv_state \<Rightarrow> (handler_end \<times> kstate \<times> hv_state) option" where
  "irq_handler stub cpu el0 frame intid s hs =
     (if intid = 30 then timer_irq stub cpu el0 frame s hs
      else if intid = 1 \<or> intid = 2 then do { hs \<leftarrow> note_delivery intid hs; Some (Returns, s, hs) }
      else if intid = 0 \<or> intid = 3 then Some (Returns, s, hs)
      else if 16 \<le> intid \<and> intid < of_nat IRQ_MAX then Some (Returns, device_irq cpu intid s, hs)
      else Some (Returns, s, hs))"

section \<open>Synchronous exceptions\<close>

definition esr_ec :: "u64 \<Rightarrow> u64" where
  "esr_ec esr = drop_bit 26 esr AND 0x3F"

definition EC_HVC64 :: u64 where "EC_HVC64 = 0x16"
definition EC_DABT_LOWER :: u64 where "EC_DABT_LOWER = 0x24"

definition from_el0 :: "u64 \<Rightarrow> bool" where
  "from_el0 spsr \<longleftrightarrow> spsr AND 0xF = 0"

definition kill_faulting_task :: "nat \<Rightarrow> kstate \<Rightarrow> kstate option" where
  "kill_faulting_task cpu s =
     (let idx = current_idx cpu s;
          s = set_state idx Zombie s;
          s = upd_task idx (\<lambda>t. t\<lparr>recv_blocked := False, recv_buf := 0\<rparr>) s
      in run_slot cpu idx (pick_next cpu s) s)"

definition hvc_exception :: "u64 \<Rightarrow> nat \<Rightarrow> kmem \<Rightarrow> hv_state \<Rightarrow> (kmem \<times> hv_state) option" where
  "hvc_exception elr frame m hs =
     do { (ret, m, hs) \<leftarrow> handle_hvc (pload64 frame m) (pload64 (frame + 8) m) (pload64 (frame + 16) m) (pload64 (frame + 24) m) m hs;
          let m = pstore64 frame ret m;
          if unat elr + 4 < 2 ^ 64 then Some (pstore64 (frame + 8 * 20) (elr + 4) m, hs) else None }"

definition abort_exception ::
  "nat \<Rightarrow> u64 \<Rightarrow> u64 \<Rightarrow> bool \<Rightarrow> kstate \<Rightarrow> hv_state \<Rightarrow> (handler_end \<times> kstate \<times> hv_state) option" where
  "abort_exception cpu esr far el0 s hs =
     (if el0 then
        do { (fixed, s) \<leftarrow> resolve_user_fault cpu (unat far) esr s;
             if fixed then Some (Returns, s, hs)
             else do { s \<leftarrow> kill_faulting_task cpu s; Some (Switches, s, hs) } }
      else if guest_tick_active cpu hs then Some (Parks, s\<lparr>mm := park_active_tenant hs (mm s)\<rparr>, hs)
      else None)"

definition sync_handler ::
  "nat \<Rightarrow> u64 \<Rightarrow> u64 \<Rightarrow> u64 \<Rightarrow> nat \<Rightarrow> kstate \<Rightarrow> hv_state \<Rightarrow> (handler_end \<times> kstate \<times> hv_state) option" where
  "sync_handler cpu esr elr far frame s hs =
     (let ec = esr_ec esr;
          el0 = from_el0 (pload64 (frame + 8 * 21) (mm s))
      in if ec = EC_HVC64 then do { (m, hs) \<leftarrow> hvc_exception elr frame (mm s) hs; Some (Returns, s\<lparr>mm := m\<rparr>, hs) }
         else if ec = EC_DABT_LOWER then abort_exception cpu esr far el0 s hs
         else if el0 then do { s \<leftarrow> kill_faulting_task cpu s; Some (Switches, s, hs) }
         else None)"

end
