(* ===== verification/Sched_Inv.thy ===== *)
theory Sched_Inv
  imports Task_Sched
begin

text \<open>
  The invariant of the scheduler on several CPUs, and that the scheduling entry points keep it.

  Every CPU has a current slot; the claim is that no task is current on two of them.  It rests on three
  facts.  A task that is current is never \<open>Ready\<close>, and both picks and the wake-up tail only enter
  \<open>Ready\<close> tasks.  A task is made \<open>Ready\<close> by others only for a reason recorded in the state (\<open>reason\<close>:
  it waits in a receive, in a staged send, asleep, or in one place of one send queue), and a task with such
  a reason is not current.  And a task has at most one reason, so the first wake-up removes the last one.
  The idle slots (one per CPU; slot 0, the boot context, is also the initial current slot of every CPU)
  are entered only by their own CPU.
\<close>

section \<open>The invariant\<close>

definition idle_idx :: "nat \<Rightarrow> bool" where
  "idle_idx i \<longleftrightarrow> i = 0 \<or> IDLE_SLOT_BASE \<le> i \<and> i < IDLE_SLOT_BASE + MAX_CPUS - 1"

datatype reason = Recv | Full | Asleep | Queued nat nat

definition queue_at :: "kstate \<Rightarrow> nat \<Rightarrow> nat \<Rightarrow> pending_send option" where
  "queue_at s j k =
     (case task_at j s of
        None \<Rightarrow> None
      | Some u \<Rightarrow> if k < length (pending_senders u) then pending_senders u ! k else None)"

fun waits :: "kstate \<Rightarrow> task \<Rightarrow> reason \<Rightarrow> bool" where
  "waits s t Recv = recv_blocked t"
| "waits s t Full = (send_full_wait t \<noteq> None)"
| "waits s t Asleep = (sleep_deadline t \<noteq> 0)"
| "waits s t (Queued j k) = (\<exists>p. queue_at s j k = Some p \<and> ps_src p = tid t)"

definition idle_id :: "nat \<Rightarrow> u32" where
  "idle_id c = (if c = 0 then 0 else 0x40000000 + of_nat c)"

definition used_ids :: "kstate \<Rightarrow> u32 set" where
  "used_ids s = {x. \<exists>i t. task_at i s = Some t \<and> tid t = x}"

definition base_ok :: "kstate \<Rightarrow> bool" where
  "base_ok s \<longleftrightarrow>
     length (tasks s) = MAX_TASKS \<and>
     (\<forall>c < MAX_CPUS. \<exists>t. task_at (idle_slot c) s = Some t \<and> cpu_affinity t = Some c \<and> tid t = idle_id c) \<and>
     (\<forall>i t. task_at i s = Some t \<longrightarrow> \<not> idle_idx i \<longrightarrow> tid t \<noteq> 0 \<and> tid t < next_id s) \<and>
     (\<forall>i j t u. task_at i s = Some t \<longrightarrow> task_at j s = Some u \<longrightarrow> tid t = tid u \<longrightarrow> i = j) \<and>
     next_id s \<noteq> 0 \<and> unat (next_id s) + length (filter (\<lambda>x. x = None) (tasks s)) \<le> MAX_TASKS \<and>
     (\<forall>j k p. queue_at s j k = Some p \<longrightarrow> ps_src p \<in> used_ids s)"

definition waits_ok :: "kstate \<Rightarrow> bool" where
  "waits_ok s \<longleftrightarrow>
     (\<forall>i t r. task_at i s = Some t \<longrightarrow> waits s t r \<longrightarrow>
        \<not> idle_idx i \<and> tstate t \<in> {Blocked, Zombie} \<and> (\<forall>r'. waits s t r' \<longrightarrow> r' = r))"

definition run_ok :: "nat set \<Rightarrow> kstate \<Rightarrow> bool" where
  "run_ok C s \<longleftrightarrow>
     (\<forall>c \<in> C. let i = current_idx c s in
        (\<exists>t. task_at i s = Some t \<and> (\<not> idle_idx i \<longrightarrow> tstate t \<noteq> Ready) \<and> (\<forall>r. \<not> waits s t r)) \<and>
        (idle_idx i \<longrightarrow> i = 0 \<or> i = idle_slot c) \<and>
        (\<forall>d \<in> C. d \<noteq> c \<longrightarrow> current_idx d s = i \<longrightarrow> i = 0))"

definition woken_ok :: "kstate \<Rightarrow> bool" where
  "woken_ok s \<longleftrightarrow> (\<forall>w. woken s = Some w \<longrightarrow> \<not> idle_idx w \<and> in_state w Ready s)"

definition sched_ok :: "kstate \<Rightarrow> bool" where
  "sched_ok s \<longleftrightarrow> base_ok s \<and> waits_ok s \<and> run_ok {..<MAX_CPUS} s \<and> woken s = None"

section \<open>What the invariant depends on\<close>

lemma task_at_cong: "tasks s' = tasks s \<Longrightarrow> task_at i s' = task_at i s"
  by (simp add: task_at_def)

lemma waits_cong: "tasks s' = tasks s \<Longrightarrow> waits s' t r = waits s t r"
  by (cases r) (auto simp: queue_at_def task_at_def)

lemma base_ok_cong: "tasks s' = tasks s \<Longrightarrow> next_id s' = next_id s \<Longrightarrow> base_ok s' = base_ok s"
  by (simp add: base_ok_def task_at_def queue_at_def used_ids_def)

lemma waits_ok_cong:
  assumes "tasks s' = tasks s"
  shows "waits_ok s' = waits_ok s"
  unfolding waits_ok_def task_at_cong [OF assms] waits_cong [OF assms] ..

lemma run_ok_cong:
  assumes "tasks s' = tasks s" and "\<And>c. c \<in> C \<Longrightarrow> current_idx c s' = current_idx c s"
  shows "run_ok C s' = run_ok C s"
  unfolding run_ok_def Let_def task_at_cong [OF assms(1)] waits_cong [OF assms(1)] by (simp add: assms(2))

lemma run_ok_mono: "run_ok C s \<Longrightarrow> D \<subseteq> C \<Longrightarrow> run_ok D s"
  unfolding run_ok_def Let_def by blast

lemma in_state_iff: "in_state i st s \<longleftrightarrow> (\<exists>t. task_at i s = Some t \<and> tstate t = st)"
  by (auto simp: in_state_def split: option.splits)

lemma idle_idx_slot [simp]: "c < MAX_CPUS \<Longrightarrow> idle_idx (idle_slot c)"
  by (auto simp: idle_idx_def idle_slot_def)

lemma idle_idxE: "idle_idx i \<Longrightarrow> \<exists>c < MAX_CPUS. i = idle_slot c"
  by (intro exI [of _ "if i = 0 then 0 else i - 15"]) (auto simp: idle_idx_def idle_slot_def)

lemma idle_slot_inj [simp]: "idle_slot c = idle_slot d \<longleftrightarrow> c = d"
  by (auto simp: idle_slot_def)

section \<open>Updating a slot\<close>

definition keeps :: "(task \<Rightarrow> task) \<Rightarrow> bool" where
  "keeps f \<longleftrightarrow> (\<forall>t. tid (f t) = tid t \<and> cpu_affinity (f t) = cpu_affinity t \<and> pending_senders (f t) = pending_senders t)"

lemma queue_at_upd: "keeps f \<Longrightarrow> queue_at (upd_task i f s) j k = queue_at s j k"
  by (auto simp: queue_at_def task_at_upd keeps_def split: option.splits)

lemma waits_upd: "keeps f \<Longrightarrow> waits (upd_task i f s) t r = waits s t r"
  by (cases r) (auto simp: queue_at_upd)

lemma filter_none_upd:
  "length (filter (\<lambda>x. x = None) (tasks (upd_task i f s))) = length (filter (\<lambda>x. x = None) (tasks s))"
proof (cases "i < length (tasks s)")
  case True
  have "map (\<lambda>x. x = None) (tasks (upd_task i f s)) = map (\<lambda>x. x = None) (tasks s)"
    using True by (intro nth_equalityI) (auto simp: upd_task_def task_at_def nth_list_update)
  then have "length (filter id (map (\<lambda>x. x = None) (tasks (upd_task i f s)))) =
      length (filter id (map (\<lambda>x. x = None) (tasks s)))" by simp
  then show ?thesis by (simp add: filter_map o_def)
qed (simp add: upd_task_def task_at_def list_update_beyond)

lemma used_ids_upd: "keeps f \<Longrightarrow> used_ids (upd_task i f s) = used_ids s"
proof -
  assume k: "keeps f"
  have "(\<exists>t. task_at j (upd_task i f s) = Some t \<and> tid t = x) \<longleftrightarrow> (\<exists>t. task_at j s = Some t \<and> tid t = x)" for j x
    using k by (auto simp: task_at_upd keeps_def)
  then show ?thesis unfolding used_ids_def by simp
qed

lemma base_ok_upd:
  assumes "base_ok s" "keeps f"
  shows "base_ok (upd_task i f s)"
proof -
  have k: "task_at j (upd_task i f s) = Some t \<Longrightarrow> \<exists>u. task_at j s = Some u \<and> tid t = tid u" for j t
    using assms(2) by (auto simp: task_at_upd keeps_def split: if_splits)
  have c: "task_at j s = Some u \<Longrightarrow> \<exists>t. task_at j (upd_task i f s) = Some t \<and> tid t = tid u \<and> cpu_affinity t = cpu_affinity u" for j u
    using assms(2) by (auto simp: task_at_upd keeps_def)
  note b = assms(1) [unfolded base_ok_def]
  have "\<exists>t. task_at (idle_slot j) (upd_task i f s) = Some t \<and> cpu_affinity t = Some j \<and> tid t = idle_id j" if "j < MAX_CPUS" for j
    using b c that by metis
  moreover have "tid t \<noteq> 0 \<and> tid t < next_id s" if "task_at j (upd_task i f s) = Some t" "\<not> idle_idx j" for j t
    using k [OF that(1)] b that(2) by force
  moreover have "j = l" if "task_at j (upd_task i f s) = Some t" "task_at l (upd_task i f s) = Some u" "tid t = tid u" for j l t u
    using k [OF that(1)] k [OF that(2)] b that(3) by metis
  ultimately show ?thesis
    unfolding base_ok_def upd_task_sel filter_none_upd queue_at_upd [OF assms(2)] used_ids_upd [OF assms(2)]
    using b by auto
qed

lemma waits_ok_upd:
  assumes "waits_ok s" "keeps f"
    and "\<And>t r. task_at i s = Some t \<Longrightarrow> waits s (f t) r \<Longrightarrow>
        \<not> idle_idx i \<and> tstate (f t) \<in> {Blocked, Zombie} \<and> (\<forall>r'. waits s (f t) r' \<longrightarrow> r' = r)"
  shows "waits_ok (upd_task i f s)"
  unfolding waits_ok_def waits_upd [OF assms(2)]
proof (intro allI impI)
  fix j t r
  assume t: "task_at j (upd_task i f s) = Some t" and w: "waits s t r"
  show "\<not> idle_idx j \<and> tstate t \<in> {Blocked, Zombie} \<and> (\<forall>r'. waits s t r' \<longrightarrow> r' = r)"
  proof (cases "j = i")
    case True
    then obtain u where "task_at i s = Some u" "t = f u" using t by (auto simp: task_at_upd)
    then show ?thesis using assms(3) w True by blast
  next
    case False
    then show ?thesis using assms(1) t w unfolding waits_ok_def by (simp add: task_at_upd)
  qed
qed

lemma run_ok_upd:
  assumes "run_ok C s" "keeps f"
    and "\<And>t c. task_at i s = Some t \<Longrightarrow> c \<in> C \<Longrightarrow> current_idx c s = i \<Longrightarrow>
        (\<not> idle_idx i \<longrightarrow> tstate (f t) \<noteq> Ready) \<and> (\<forall>r. \<not> waits s (f t) r)"
  shows "run_ok C (upd_task i f s)"
  unfolding run_ok_def Let_def waits_upd [OF assms(2)] current_idx_simps
proof (intro ballI)
  fix c assume c: "c \<in> C"
  let ?i = "current_idx c s"
  from assms(1) c obtain t where t: "task_at ?i s = Some t" "\<not> idle_idx ?i \<longrightarrow> tstate t \<noteq> Ready" "\<forall>r. \<not> waits s t r"
      "idle_idx ?i \<longrightarrow> ?i = 0 \<or> ?i = idle_slot c" "\<forall>d \<in> C. d \<noteq> c \<longrightarrow> current_idx d s = ?i \<longrightarrow> ?i = 0"
    unfolding run_ok_def Let_def by blast
  have "\<exists>t. task_at ?i (upd_task i f s) = Some t \<and> (\<not> idle_idx ?i \<longrightarrow> tstate t \<noteq> Ready) \<and> (\<forall>r. \<not> waits s t r)"
    using t assms(3) [OF _ c] by (cases "?i = i") (auto simp: task_at_upd)
  then show "(\<exists>t. task_at ?i (upd_task i f s) = Some t \<and> (\<not> idle_idx ?i \<longrightarrow> tstate t \<noteq> Ready) \<and> (\<forall>r. \<not> waits s t r)) \<and>
      (idle_idx ?i \<longrightarrow> ?i = 0 \<or> ?i = idle_slot c) \<and> (\<forall>d \<in> C. d \<noteq> c \<longrightarrow> current_idx d s = ?i \<longrightarrow> ?i = 0)"
    using t by blast
qed

section \<open>Switching\<close>

definition ok_on :: "nat set \<Rightarrow> kstate \<Rightarrow> bool" where
  "ok_on C s \<longleftrightarrow> base_ok s \<and> waits_ok s \<and> run_ok C s"

lemma ok_on_cong:
  "tasks s' = tasks s \<Longrightarrow> next_id s' = next_id s \<Longrightarrow> (\<And>c. c \<in> C \<Longrightarrow> current_idx c s' = current_idx c s) \<Longrightarrow>
    ok_on C s' = ok_on C s"
  using base_ok_cong waits_ok_cong run_ok_cong unfolding ok_on_def by metis

lemma ok_on_mono: "ok_on C s \<Longrightarrow> D \<subseteq> C \<Longrightarrow> ok_on D s"
  using run_ok_mono unfolding ok_on_def by blast

lemma ok_on_upd:
  assumes "ok_on C s" "keeps f"
    and "\<And>t r. task_at i s = Some t \<Longrightarrow> waits s (f t) r \<Longrightarrow>
        \<not> idle_idx i \<and> tstate (f t) \<in> {Blocked, Zombie} \<and> (\<forall>r'. waits s (f t) r' \<longrightarrow> r' = r)"
    and "\<And>t c. task_at i s = Some t \<Longrightarrow> c \<in> C \<Longrightarrow> current_idx c s = i \<Longrightarrow>
        (\<not> idle_idx i \<longrightarrow> tstate (f t) \<noteq> Ready) \<and> (\<forall>r. \<not> waits s (f t) r)"
  shows "ok_on C (upd_task i f s)"
  using assms base_ok_upd waits_ok_upd run_ok_upd unfolding ok_on_def by metis

text \<open>A change of a task that neither wakes it nor gives it a reason to wait.\<close>

lemma ok_on_upd_quiet:
  assumes "ok_on C s" "keeps f"
    and "\<And>t. tstate (f t) = tstate t" "\<And>t. recv_blocked (f t) \<longrightarrow> recv_blocked t"
    and "\<And>t. send_full_wait (f t) \<noteq> None \<longrightarrow> send_full_wait t \<noteq> None"
    and "\<And>t. sleep_deadline (f t) \<noteq> 0 \<longrightarrow> sleep_deadline t \<noteq> 0"
  shows "ok_on C (upd_task i f s)"
proof (rule ok_on_upd [OF assms(1,2)])
  have w: "waits s (f t) r \<Longrightarrow> waits s t r" for t r
    using assms(2,4,5,6) by (cases r) (auto simp: keeps_def)
  fix t assume t: "task_at i s = Some t"
  show "\<not> idle_idx i \<and> tstate (f t) \<in> {Blocked, Zombie} \<and> (\<forall>r'. waits s (f t) r' \<longrightarrow> r' = r)" if "waits s (f t) r" for r
    using assms(1,3) w that t unfolding ok_on_def waits_ok_def by metis
  show "(\<not> idle_idx i \<longrightarrow> tstate (f t) \<noteq> Ready) \<and> (\<forall>r. \<not> waits s (f t) r)" if "c \<in> C" "current_idx c s = i" for c
    using assms(1,3) w that t unfolding ok_on_def run_ok_def Let_def by (metis option.inject)
qed

lemma current_waits:
  "ok_on C s \<Longrightarrow> c \<in> C \<Longrightarrow> task_at (current_idx c s) s = Some t \<Longrightarrow> \<not> waits s t r"
  unfolding ok_on_def run_ok_def Let_def by auto

lemma waits_upd_state [simp]: "waits s (t\<lparr>tstate := x\<rparr>) r = waits s t r"
  by (cases r) simp_all

lemma keeps_state [simp]: "keeps (\<lambda>t. t\<lparr>tstate := x\<rparr>)"
  by (simp add: keeps_def)

text \<open>The slots a CPU may enter: its own idle slot, or a task that is ready.\<close>

definition enterable :: "nat \<Rightarrow> kstate \<Rightarrow> nat \<Rightarrow> bool" where
  "enterable cpu s i \<longleftrightarrow> i = idle_slot cpu \<or> \<not> idle_idx i \<and> in_state i Ready s"

lemma runnable_enterable:
  assumes "base_ok s" "cpu < MAX_CPUS" "task_at i s = Some t" "runnable cpu t"
  shows "enterable cpu s i"
proof (cases "idle_idx i")
  case True
  then obtain c where "c < MAX_CPUS" "i = idle_slot c" using idle_idxE by blast
  then have "cpu_affinity t = Some c" using assms(1,3) unfolding base_ok_def by (metis option.inject)
  then show ?thesis using assms(4) \<open>i = idle_slot c\<close> by (auto simp: enterable_def runnable_def)
next
  case False
  then show ?thesis using assms by (auto simp: enterable_def runnable_def in_state_iff)
qed

lemma pick_next_enterable: "base_ok s \<Longrightarrow> cpu < MAX_CPUS \<Longrightarrow> enterable cpu s (pick_next cpu s)"
  using pick_next_cases [of cpu s] runnable_enterable by (auto simp: enterable_def)

lemma pick_next_rr_enterable: "base_ok s \<Longrightarrow> cpu < MAX_CPUS \<Longrightarrow> enterable cpu s (pick_next_rr cpu excl s)"
  using pick_next_rr_cases [of cpu excl s] runnable_enterable by (auto simp: enterable_def)

lemma enterable_upd_other: "enterable cpu s i \<Longrightarrow> i \<noteq> j \<Longrightarrow> enterable cpu (upd_task j f s) i"
  by (auto simp: enterable_def in_state_iff task_at_upd)

lemma switch_sel:
  assumes "context_switch_unlock cpu src dst s = Some s'"
  shows "s' = (upd_task src (\<lambda>t. t\<lparr>tctx := saved_context (live s cpu)\<rparr>) s)\<lparr>live := live s'\<rparr>"
  using assms by (auto simp: context_switch_unlock_def Let_def split: Option.bind_splits)

lemma switch_ok:
  assumes "context_switch_unlock cpu src dst s = Some s'" "ok_on C s"
  shows "ok_on C s'" "woken s' = woken s" "current_idx c s' = current_idx c s"
proof -
  let ?s = "upd_task src (\<lambda>t. t\<lparr>tctx := saved_context (live s cpu)\<rparr>) s"
  have "ok_on C ?s" by (rule ok_on_upd_quiet [OF assms(2)]) (auto simp: keeps_def)
  moreover have "tasks s' = tasks ?s" "next_id s' = next_id ?s" and c: "current_idx c s' = current_idx c s" for c
    using switch_sel [OF assms(1)] by (metis kstate.select_convs(2) kstate.surjective kstate.update_convs(6),
      metis kstate.select_convs(3) kstate.surjective kstate.update_convs(6), metis current_idx_simps(1,5))
  ultimately show "ok_on C s'" "current_idx c s' = current_idx c s" using ok_on_cong [of s' ?s C] by auto
  show "woken s' = woken s" using switch_sel [OF assms(1)] by (metis kstate.select_convs(4) kstate.surjective kstate.update_convs(6) upd_task_sel(4))
qed

lemma run_slot_ok:
  assumes "run_slot cpu src dst s = Some s'" "cpu < MAX_CPUS" "ok_on (C - {cpu}) s" "enterable cpu s dst"
  shows "ok_on C s' \<and> woken s' = woken s"
proof -
  let ?s = "set_current cpu dst (set_state dst Running s)"
  obtain t where t: "task_at dst s = Some t" "idle_idx dst \<longrightarrow> dst = idle_slot cpu" "\<forall>r. \<not> waits s t r"
      "\<And>d. d \<in> C - {cpu} \<Longrightarrow> current_idx d s = dst \<Longrightarrow> dst = 0"
  proof (cases "dst = idle_slot cpu")
    case True
    then have "\<exists>t. task_at dst s = Some t" using assms(2,3) by (auto simp: ok_on_def base_ok_def)
    then obtain t where t: "task_at dst s = Some t" by blast
    have i: "idle_idx dst" using True assms(2) by simp
    moreover have "\<not> waits s t r" for r using assms(3) t i unfolding ok_on_def waits_ok_def by blast
    moreover have "dst = 0" if "d \<in> C - {cpu}" "current_idx d s = dst" for d
      using assms(3) that i True unfolding ok_on_def run_ok_def Let_def by (metis Diff_iff idle_slot_inj insertI1)
    ultimately show ?thesis using that t True by blast
  next
    case False
    then obtain t where t: "task_at dst s = Some t" "tstate t = Ready" "\<not> idle_idx dst"
      using assms(4) by (auto simp: enterable_def in_state_iff)
    moreover have "\<not> waits s t r" for r using assms(3) t unfolding ok_on_def waits_ok_def by force
    moreover have "dst = 0" if "d \<in> C - {cpu}" "current_idx d s = dst" for d
      using assms(3) that t unfolding ok_on_def run_ok_def Let_def by (metis option.inject)
    ultimately show ?thesis using that by blast
  qed
  have "ok_on (C - {cpu}) (set_state dst Running s)" unfolding set_state_def
    by (rule ok_on_upd [OF assms(3)]) (use t in auto)
  then have o: "ok_on (C - {cpu}) ?s" by (subst ok_on_cong) auto
  have w: "waits ?s u r = waits s u r" for u r
    using waits_cong [of ?s "set_state dst Running s" u r] by (simp add: set_state_def waits_upd)
  have "run_ok C ?s"
    unfolding run_ok_def Let_def w
  proof (intro ballI)
    fix c assume c: "c \<in> C"
    let ?i = "current_idx c ?s"
    have 1: "(\<exists>t. task_at ?i ?s = Some t \<and> (\<not> idle_idx ?i \<longrightarrow> tstate t \<noteq> Ready) \<and> (\<forall>r. \<not> waits s t r)) \<and>
        (idle_idx ?i \<longrightarrow> ?i = 0 \<or> ?i = idle_slot c)"
    proof (cases "c = cpu")
      case True
      then show ?thesis using t by (auto simp: task_at_set_state)
    next
      case False
      then show ?thesis using o c unfolding ok_on_def run_ok_def Let_def w by blast
    qed
    have "?i = 0" if "d \<in> C" "d \<noteq> c" "current_idx d ?s = ?i" for d
      using o c that t(4) unfolding ok_on_def run_ok_def Let_def by (cases "c = cpu"; cases "d = cpu"; force)
    with 1 show "(\<exists>t. task_at ?i ?s = Some t \<and> (\<not> idle_idx ?i \<longrightarrow> tstate t \<noteq> Ready) \<and> (\<forall>r. \<not> waits s t r)) \<and>
        (idle_idx ?i \<longrightarrow> ?i = 0 \<or> ?i = idle_slot c) \<and> (\<forall>d \<in> C. d \<noteq> c \<longrightarrow> current_idx d ?s = ?i \<longrightarrow> ?i = 0)" by blast
  qed
  then have "ok_on C ?s" using o by (simp add: ok_on_def)
  from switch_ok [OF assms(1) [unfolded run_slot_def] this] show ?thesis by simp
qed

section \<open>The entry points keep it\<close>

lemma poke_sel [simp]:
  "tasks (poke_idle_secondaries s) = tasks s" "next_id (poke_idle_secondaries s) = next_id s"
  "current_idx c (poke_idle_secondaries s) = current_idx c s" "woken (poke_idle_secondaries s) = woken s"
  "ticks (poke_idle_secondaries s) = ticks s" "live (poke_idle_secondaries s) = live s"
  "mm (poke_idle_secondaries s) = mm s" "cpus (poke_idle_secondaries s) = cpus s"
proof -
  have *: "fold (\<lambda>cpu s. if P cpu s then send_sgi cpu 3 s else s) xs s = s\<lparr>sgis := sgis (fold (\<lambda>cpu s. if P cpu s then send_sgi cpu 3 s else s) xs s)\<rparr>"
    for P :: "nat \<Rightarrow> kstate \<Rightarrow> bool" and xs
    by (rule kstate.equality) (induction xs arbitrary: s; simp add: send_sgi_def)+
  have **: "poke_idle_secondaries s = s\<lparr>sgis := sgis (poke_idle_secondaries s)\<rparr>"
    unfolding poke_idle_secondaries_def by (rule *)
  show "tasks (poke_idle_secondaries s) = tasks s" "next_id (poke_idle_secondaries s) = next_id s"
    "current_idx c (poke_idle_secondaries s) = current_idx c s" "woken (poke_idle_secondaries s) = woken s"
    "ticks (poke_idle_secondaries s) = ticks s" "live (poke_idle_secondaries s) = live s"
    "mm (poke_idle_secondaries s) = mm s" "cpus (poke_idle_secondaries s) = cpus s"
    by (subst **; simp)+
qed

lemma poke_ok: "ok_on C s \<Longrightarrow> ok_on C (poke_idle_secondaries s)"
  by (subst ok_on_cong) auto

lemma wake_step_ok:
  assumes "ok_on C s" "task_at i s = Some t" "sleep_deadline t \<noteq> 0"
  shows "ok_on C (upd_task i (\<lambda>t. t\<lparr>sleep_deadline := 0, tstate := Ready\<rparr>) s)"
proof (rule ok_on_upd [OF assms(1)])
  have w: "\<not> waits s (t\<lparr>sleep_deadline := 0, tstate := Ready\<rparr>) r" for r
  proof
    assume r: "waits s (t\<lparr>sleep_deadline := 0, tstate := Ready\<rparr>) r"
    then have "waits s t r" "r \<noteq> Asleep" by (cases r; simp)+
    moreover have "waits s t Asleep" using assms(3) by simp
    ultimately show False using assms(1,2) unfolding ok_on_def waits_ok_def by blast
  qed
  show "keeps (\<lambda>t. t\<lparr>sleep_deadline := 0, tstate := Ready\<rparr>)" by (simp add: keeps_def)
  fix u assume "task_at i s = Some u"
  then have u: "u = t" using assms(2) by simp
  show "\<not> idle_idx i \<and> tstate (u\<lparr>sleep_deadline := 0, tstate := Ready\<rparr>) \<in> {Blocked, Zombie} \<and>
      (\<forall>r'. waits s (u\<lparr>sleep_deadline := 0, tstate := Ready\<rparr>) r' \<longrightarrow> r' = r)"
    if "waits s (u\<lparr>sleep_deadline := 0, tstate := Ready\<rparr>) r" for r
    using that w u by blast
  show "(\<not> idle_idx i \<longrightarrow> tstate (u\<lparr>sleep_deadline := 0, tstate := Ready\<rparr>) \<noteq> Ready) \<and>
      (\<forall>r. \<not> waits s (u\<lparr>sleep_deadline := 0, tstate := Ready\<rparr>) r)" if "c \<in> C" "current_idx c s = i" for c
    using current_waits [OF assms(1) that(1), of t Asleep] that(2) assms(2,3) by simp
qed

lemma wake_sleepers_ok:
  assumes "ok_on C s"
  shows "ok_on C (snd (wake_sleepers s)) \<and> woken (snd (wake_sleepers s)) = woken s \<and>
    (\<forall>c. current_idx c (snd (wake_sleepers s)) = current_idx c s)"
proof -
  have "ok_on C (snd (fold wake_one xs (b, s))) \<and> woken (snd (fold wake_one xs (b, s))) = woken s \<and>
      (\<forall>c. current_idx c (snd (fold wake_one xs (b, s))) = current_idx c s)" if "ok_on C s" for xs b s
    using that
  proof (induction xs arbitrary: b s)
    case (Cons x xs)
    obtain b' s' where f: "wake_one x (b, s) = (b', s')" by fastforce
    then have "ok_on C s' \<and> woken s' = woken s \<and> (\<forall>c. current_idx c s' = current_idx c s)"
      using Cons.prems wake_step_ok by (auto simp: wake_one_def split: option.splits if_splits)
    with Cons.IH [of s' b'] show ?case by (simp add: f)
  qed simp
  from this [OF assms] show ?thesis
    unfolding wake_sleepers_def by (auto simp: split_beta Let_def poke_ok)
qed

lemma set_ready_ok:
  assumes "ok_on C s" "cpu \<in> C" "cur = current_idx cpu s"
  shows "ok_on (C - {cpu}) (set_state cur Ready s)"
proof -
  have w: "\<not> waits s t r" if "task_at cur s = Some t" for t r
    using current_waits [OF assms(1,2)] that assms(3) by blast
  have i: "idle_idx cur" if "c \<in> C - {cpu}" "current_idx c s = cur" for c
    using assms that unfolding ok_on_def run_ok_def Let_def by (metis Diff_iff idle_idx_def insertI1)
  show ?thesis unfolding set_state_def
    by (rule ok_on_upd [OF ok_on_mono [OF assms(1)]]) (use w i in auto)
qed

lemma switch_best_ok:
  assumes "switch_best strict cpu s = Some (b, s')" "ok_on C s" "cpu \<in> C" "cpu < MAX_CPUS"
  shows "ok_on C s' \<and> woken s' = woken s"
proof -
  let ?cur = "current_idx cpu s"
  let ?nxt = "if strict then pick_next cpu s else pick_next_rr cpu ?cur s"
  consider "s' = s" | "?nxt \<noteq> ?cur" "run_slot cpu ?cur ?nxt (set_state ?cur Ready s) = Some s'"
    using assms(1) by (auto simp: switch_best_def Let_def split: if_splits Option.bind_splits)
  then show ?thesis
  proof cases
    case 2
    have "enterable cpu s ?nxt"
      using assms(2,4) pick_next_enterable pick_next_rr_enterable by (auto simp: ok_on_def)
    then have "enterable cpu (set_state ?cur Ready s) ?nxt"
      unfolding set_state_def by (rule enterable_upd_other) (rule 2)
    from run_slot_ok [OF 2(2) assms(4) set_ready_ok [OF assms(2,3) refl] this] show ?thesis by simp
  qed (use assms in simp)
qed

lemma reschedule_ok:
  assumes "reschedule cpu s = Some (b, s')" "ok_on C s" "cpu \<in> C" "cpu < MAX_CPUS" "woken_ok s"
  shows "ok_on C s' \<and> woken s' = None"
proof -
  let ?s = "s\<lparr>woken := None\<rparr>" and ?cur = "current_idx cpu s"
  have o: "ok_on C ?s" using assms(2) by (subst ok_on_cong) auto
  consider "s' = ?s" | w where "woken s = Some w" "run_slot cpu ?cur w (set_state ?cur Ready ?s) = Some s'"
      "\<not> prio_or_idle ?cur ?s \<le> prio_or_idle w ?s"
    using assms(1) by (auto simp: reschedule_def take_woken_def Let_def split: option.splits if_splits Option.bind_splits)
  then show ?thesis
  proof cases
    case 2
    then have "enterable cpu s w" "w \<noteq> ?cur" using assms(5) by (auto simp: woken_ok_def enterable_def)
    then have e: "enterable cpu (set_state ?cur Ready ?s) w"
      unfolding set_state_def by (intro enterable_upd_other) (auto simp: enterable_def in_state_def)
    have "ok_on (C - {cpu}) (set_state ?cur Ready ?s)" using set_ready_ok [OF o assms(3)] by simp
    from run_slot_ok [OF 2(2) assms(4) this e] show ?thesis by simp
  qed (use o in simp)
qed

lemma zombie_ok: "ok_on C s \<Longrightarrow> ok_on C (upd_task i (\<lambda>t. t\<lparr>tstate := Zombie, recv_blocked := False\<rparr>) s)"
proof (rule ok_on_upd)
  assume o: "ok_on C s"
  have w: "waits s (t\<lparr>tstate := Zombie, recv_blocked := False\<rparr>) r \<Longrightarrow> waits s t r" for t r by (cases r) auto
  fix t assume t: "task_at i s = Some t"
  show "\<not> idle_idx i \<and> tstate (t\<lparr>tstate := Zombie, recv_blocked := False\<rparr>) \<in> {Blocked, Zombie} \<and>
      (\<forall>r'. waits s (t\<lparr>tstate := Zombie, recv_blocked := False\<rparr>) r' \<longrightarrow> r' = r)"
    if "waits s (t\<lparr>tstate := Zombie, recv_blocked := False\<rparr>) r" for r
    using o t w [OF that] w unfolding ok_on_def waits_ok_def by simp
  show "(\<not> idle_idx i \<longrightarrow> tstate (t\<lparr>tstate := Zombie, recv_blocked := False\<rparr>) \<noteq> Ready) \<and>
      (\<forall>r. \<not> waits s (t\<lparr>tstate := Zombie, recv_blocked := False\<rparr>) r)" if "c \<in> C" "current_idx c s = i" for c
    using current_waits [OF o that(1), of t] t w [of t] that(2) by fastforce
qed (simp_all add: keeps_def)

lemma set_zombie_ok: "ok_on C s \<Longrightarrow> ok_on C (set_state i Zombie s)"
  unfolding set_state_def
  by (rule ok_on_upd) (auto simp: ok_on_def waits_ok_def run_ok_def Let_def)

lemma kill_task_locked_ok:
  assumes "kill_task_locked cpu pid s = Some (b, s')" "ok_on C s"
  shows "ok_on C s' \<and> woken s' = woken s \<and> (\<forall>c. current_idx c s' = current_idx c s)"
proof -
  let ?z = "\<lambda>i. upd_task i (\<lambda>t. t\<lparr>tstate := Zombie, recv_blocked := False\<rparr>) s"
  consider "s' = s" | i where "s' = ?z i"
    | i m where "s' = (upd_task i (\<lambda>t. t\<lparr>task_ttbr0 := 0\<rparr>) (?z i))\<lparr>mm := m\<rparr>"
    using assms(1) by (auto simp: kill_task_locked_def Let_def split: option.splits if_splits Option.bind_splits)
  then show ?thesis
  proof cases
    case 3
    have "ok_on C (upd_task i (\<lambda>t. t\<lparr>task_ttbr0 := 0\<rparr>) (?z i))"
      by (rule ok_on_upd_quiet [OF zombie_ok [OF assms(2)]]) (auto simp: keeps_def)
    then show ?thesis using 3 by (subst ok_on_cong) auto
  qed (use assms zombie_ok in auto)
qed

lemma run_pick_ok:
  assumes "run_slot cpu src (pick_next cpu s) s = Some s'" "ok_on (C - {cpu}) s" "cpu < MAX_CPUS"
  shows "ok_on C s' \<and> woken s' = woken s"
  using run_slot_ok [OF assms(1,3,2)] pick_next_enterable assms(2,3) by (simp add: ok_on_def)

lemma exit_current_ok:
  assumes "exit_current cpu s = Some s'" "ok_on C s" "cpu < MAX_CPUS"
  shows "ok_on C s' \<and> woken s' = woken s"
proof -
  let ?s = "set_state (current_idx cpu s) Zombie s"
  have r: "run_slot cpu (current_idx cpu s) (pick_next cpu ?s) ?s = Some s'"
    using assms(1) by (simp add: exit_current_def Let_def)
  have "ok_on (C - {cpu}) ?s" by (rule ok_on_mono [OF set_zombie_ok [OF assms(2)]]) auto
  from run_pick_ok [OF r this assms(3)] show ?thesis by simp
qed

lemma enter_ok:
  assumes "enter cpu s = Some s'" "ok_on C s" "cpu < MAX_CPUS"
  shows "ok_on C s' \<and> woken s' = woken s"
  using assms run_pick_ok [OF _ ok_on_mono [OF assms(2)] assms(3)]
  by (auto simp: enter_def Let_def split: if_splits)

lemma tick_preempt_ok:
  assumes "tick_preempt el0 cpu s = Some s'" "ok_on C s" "cpu \<in> C" "cpu < MAX_CPUS"
  shows "ok_on C s' \<and> woken s' = woken s"
proof -
  let ?cur = "current_idx cpu s"
  obtain woke s1 where s1: "wake_sleepers s = (woke, s1)" by fastforce
  from wake_sleepers_ok [OF assms(2)] s1
  have o: "ok_on C s1" "woken s1 = woken s" "current_idx cpu s1 = ?cur" by auto
  have "s' = s1 \<or> run_slot cpu ?cur (pick_next cpu s1) s1 = Some s' \<or> map_option snd (switch_best False cpu s1) = Some s'"
    using assms(1) unfolding tick_preempt_def s1 Let_def prod.case by (simp split: if_splits)
  then consider "s' = s1" | "run_slot cpu ?cur (pick_next cpu s1) s1 = Some s'"
    | b where "switch_best False cpu s1 = Some (b, s')" by fastforce
  then show ?thesis
  proof cases
    case 2
    have "ok_on (C - {cpu}) s1" by (rule ok_on_mono [OF o(1)]) auto
    from run_pick_ok [OF 2 this assms(4)] o show ?thesis by simp
  next
    case 3
    from switch_best_ok [OF 3 o(1) assms(3,4)] o show ?thesis by simp
  qed (use o in simp)
qed

lemma secondary_enter_ok:
  assumes "secondary_enter cpu s = Some (b, s')" "ok_on C s" "cpu < MAX_CPUS"
  shows "ok_on C s' \<and> woken s' = woken s"
proof -
  let ?s = "set_state (idle_slot cpu) Ready s" and ?nxt = "pick_next cpu s"
  consider "s' = s" | "?nxt \<noteq> idle_slot cpu" "run_slot cpu (idle_slot cpu) ?nxt ?s = Some s'"
    using assms(1) by (auto simp: secondary_enter_def Let_def split: if_splits Option.bind_splits)
  then show ?thesis
  proof cases
    case 2
    have i: "idle_idx (idle_slot cpu)" using assms(3) by simp
    have "ok_on C ?s" unfolding set_state_def
      by (rule ok_on_upd [OF assms(2)])
        (use i assms(2) in \<open>auto simp: ok_on_def waits_ok_def run_ok_def Let_def\<close>)
    moreover have "enterable cpu ?s ?nxt" unfolding set_state_def
      using assms(2,3) 2(1) by (intro enterable_upd_other pick_next_enterable) (auto simp: ok_on_def)
    ultimately show ?thesis using run_slot_ok [OF 2(2) assms(3) ok_on_mono] by auto
  qed (use assms in simp)
qed

lemma schedule_ok:
  assumes "schedule cpu s = Some s'" "ok_on C s" "cpu \<in> C" "cpu < MAX_CPUS"
  shows "ok_on C s' \<and> woken s' = woken s"
proof -
  let ?cur = "current_idx cpu s" and ?nxt = "pick_next cpu s"
  have e: "enterable cpu s ?nxt" using assms(2,4) pick_next_enterable by (auto simp: ok_on_def)
  have "s' = s \<or> run_slot cpu ?cur ?nxt s = Some s' \<or>
      ?nxt \<noteq> ?cur \<and> run_slot cpu ?cur ?nxt (set_state ?cur Ready s) = Some s'"
    using assms(1) unfolding schedule_def Let_def by (auto split: if_splits)
  then consider "s' = s" | "run_slot cpu ?cur ?nxt s = Some s'"
    | "?nxt \<noteq> ?cur" "run_slot cpu ?cur ?nxt (set_state ?cur Ready s) = Some s'" by blast
  then show ?thesis
  proof cases
    case 2
    have "ok_on (C - {cpu}) s" by (rule ok_on_mono [OF assms(2)]) auto
    from run_slot_ok [OF 2 assms(4) this e] show ?thesis by simp
  next
    case 3
    have "enterable cpu (set_state ?cur Ready s) ?nxt"
      unfolding set_state_def by (rule enterable_upd_other [OF e 3(1)])
    from run_slot_ok [OF 3(2) assms(4) set_ready_ok [OF assms(2,3) refl] this] show ?thesis by simp
  qed (use assms in simp)
qed

end
