(* ===== verification/Machine.thy ===== *)
theory Machine
  imports Tanix_Prelude
begin

text \<open>
  The board tables of \<^verbatim>\<open>kernel/src/arch/aarch64/machine.rs\<close>: one record per build target, and the values
  the ACPI tables override at boot.
\<close>

record machine =
  mach_id :: u32
  dram_base :: nat
  dram_size :: nat
  uart_base :: nat
  secure_uart_base :: nat
  gic_dist_base :: nat
  gic_redist_base :: nat
  gic_redist_stride :: nat
  virtio_mmio_base :: nat
  secure_ram_base :: nat
  secure_ram_size :: nat
  its_base :: nat
  ecam_base :: nat
  uart_is_geni :: bool

abbreviation MACHINE_VIRT :: u32 where "MACHINE_VIRT \<equiv> 0"
abbreviation MACHINE_SBSA_REF :: u32 where "MACHINE_SBSA_REF \<equiv> 1"
abbreviation MACHINE_QCS6490 :: u32 where "MACHINE_QCS6490 \<equiv> 2"

text \<open>The three compile-time tables of \<^verbatim>\<open>default_machine\<close>.\<close>

definition machine_qcs6490 :: machine where
  "machine_qcs6490 = \<lparr>mach_id = MACHINE_QCS6490, dram_base = 0x80000000, dram_size = 8 * 1024 * 1024 * 1024,
     uart_base = 0x00A90000, secure_uart_base = 0, gic_dist_base = 0x17A00000, gic_redist_base = 0x17A60000,
     gic_redist_stride = 0x20000, virtio_mmio_base = 0, secure_ram_base = 0, secure_ram_size = 0,
     its_base = 0x17A40000, ecam_base = 0x01FC0000, uart_is_geni = True\<rparr>"

definition machine_sbsa_ref :: machine where
  "machine_sbsa_ref = \<lparr>mach_id = MACHINE_SBSA_REF, dram_base = 0x10000000000, dram_size = 1 * 1024 * 1024 * 1024,
     uart_base = 0x60000000, secure_uart_base = 0x60030000, gic_dist_base = 0x40060000,
     gic_redist_base = 0x40080000, gic_redist_stride = 0x20000, virtio_mmio_base = 0,
     secure_ram_base = 0x20000000, secure_ram_size = 512 * 1024 * 1024, its_base = 0x44081000,
     ecam_base = 0xF0000000, uart_is_geni = False\<rparr>"

definition machine_virt :: machine where
  "machine_virt = \<lparr>mach_id = MACHINE_VIRT, dram_base = 0x40000000, dram_size = 256 * 1024 * 1024,
     uart_base = 0x09000000, secure_uart_base = 0x09000000, gic_dist_base = 0x08000000,
     gic_redist_base = 0x080A0000, gic_redist_stride = 0x20000, virtio_mmio_base = 0x0A000000,
     secure_ram_base = 0, secure_ram_size = 0, its_base = 0, ecam_base = 0x3F000000, uart_is_geni = False\<rparr>"

definition default_machine :: "bool \<Rightarrow> bool \<Rightarrow> machine" where
  "default_machine qcs sbsa = (if qcs then machine_qcs6490 else if sbsa then machine_sbsa_ref else machine_virt)"

record acpi_info =
  ai_gic_dist_base :: nat
  ai_gic_redist_base :: nat
  ai_its_base :: nat
  ai_uart_base :: nat
  ai_ecam_base :: nat

definition set_from_acpi :: "acpi_info \<Rightarrow> machine \<Rightarrow> machine" where
  "set_from_acpi ai m =
     (let m = (if ai_gic_dist_base ai \<noteq> 0 then m\<lparr>gic_dist_base := ai_gic_dist_base ai\<rparr> else m);
          m = (if ai_gic_redist_base ai \<noteq> 0 then m\<lparr>gic_redist_base := ai_gic_redist_base ai\<rparr> else m);
          m = (if ai_its_base ai \<noteq> 0 then m\<lparr>its_base := ai_its_base ai\<rparr> else m);
          m = (if ai_uart_base ai \<noteq> 0
               then (let m = m\<lparr>uart_base := ai_uart_base ai\<rparr> in
                     if mach_id m \<noteq> MACHINE_QCS6490 then m\<lparr>secure_uart_base := ai_uart_base ai\<rparr> else m)
               else m)
      in if ai_ecam_base ai \<noteq> 0 then m\<lparr>ecam_base := ai_ecam_base ai\<rparr> else m)"

definition is_sbsa_ref :: "machine \<Rightarrow> bool" where
  "is_sbsa_ref m \<longleftrightarrow> mach_id m = MACHINE_SBSA_REF"

definition is_qcs6490 :: "machine \<Rightarrow> bool" where
  "is_qcs6490 m \<longleftrightarrow> mach_id m = MACHINE_QCS6490"

lemma set_from_acpi_keeps [simp]:
  "mach_id (set_from_acpi ai m) = mach_id m" "dram_base (set_from_acpi ai m) = dram_base m"
  "dram_size (set_from_acpi ai m) = dram_size m" "virtio_mmio_base (set_from_acpi ai m) = virtio_mmio_base m"
  by (simp_all add: set_from_acpi_def Let_def)

end
