(* ===== verification/Server.thy ===== *)
theory Server
  imports Sched_Inv Vm_Loader Machine
begin

text \<open>
  The server registry of \<^verbatim>\<open>kernel/src/server.rs\<close>: the device windows each server may map, the fixed link
  bases, and spawning a server into an address space of its own.  The embedded binaries are produced by
  the build; \<open>bins\<close> maps a registered name to its bytes.
\<close>

section \<open>Capabilities\<close>

abbreviation SERVER_RAM_PAGES :: nat where "SERVER_RAM_PAGES \<equiv> 32"
abbreviation USER_STACK_SIZE :: nat where "USER_STACK_SIZE \<equiv> 16 * 1024"
abbreviation DISPLAY_MMIO_BASE :: nat where "DISPLAY_MMIO_BASE \<equiv> 0x0A000000"
abbreviation DISPLAY_MMIO_SIZE :: nat where "DISPLAY_MMIO_SIZE \<equiv> 32 * 0x200"

datatype cap_kind = Uart | VirtioMmio | Ecam | PciMem

record mmio_cap =
  cap_kind :: cap_kind
  cap_size :: nat

definition SERVER_MMIO_CAPS :: "(rstr \<times> mmio_cap list) list" where
  "SERVER_MMIO_CAPS =
     [(bytes ''dev'', [\<lparr>cap_kind = Uart, cap_size = PAGE_SIZE\<rparr>]),
      (bytes ''net'', [\<lparr>cap_kind = Ecam, cap_size = 16 * 1024 * 1024\<rparr>, \<lparr>cap_kind = PciMem, cap_size = 0x30000000\<rparr>]),
      (bytes ''fs'', [\<lparr>cap_kind = Ecam, cap_size = 16 * 1024 * 1024\<rparr>, \<lparr>cap_kind = PciMem, cap_size = 0x30000000\<rparr>]),
      (bytes ''display'', [\<lparr>cap_kind = VirtioMmio, cap_size = DISPLAY_MMIO_SIZE\<rparr>])]"

definition cap_window_for :: "machine \<Rightarrow> rstr \<Rightarrow> nat \<Rightarrow> (nat \<times> nat) option" where
  "cap_window_for m name idx =
     do { (_, caps) \<leftarrow> List.find (\<lambda>(n, _). n = name) SERVER_MMIO_CAPS;
          cap \<leftarrow> (if idx < length caps then Some (caps ! idx) else None);
          let base = (case cap_kind cap of
                        Uart \<Rightarrow> uart_base m
                      | VirtioMmio \<Rightarrow> virtio_mmio_base m
                      | Ecam \<Rightarrow> if mach_id m = MACHINE_SBSA_REF then 0xF0000000 else 0x3F000000
                      | PciMem \<Rightarrow> if mach_id m = MACHINE_SBSA_REF then 0xC0000000 else 0x10000000);
          if base = 0 then None else Some (base, cap_size cap) }"

definition cap_permits :: "machine \<Rightarrow> rstr \<Rightarrow> nat \<Rightarrow> nat \<Rightarrow> bool" where
  "cap_permits m name base n =
     list_ex (\<lambda>i. case cap_window_for m name i of
         Some (cb, cs) \<Rightarrow> base \<ge> cb \<and> n \<le> cs \<and> base - cb + n \<le> cs
       | None \<Rightarrow> False) [0..<16]"

section \<open>Link bases and priorities\<close>

definition SERVER_BASES :: "(rstr \<times> nat) list" where
  "SERVER_BASES =
     [(bytes ''init'', 0x41000000), (bytes ''pm'', 0x41020000), (bytes ''mem'', 0x41040000),
      (bytes ''dev'', 0x41060000), (bytes ''worker'', 0x41080000), (bytes ''display'', 0x410A0000),
      (bytes ''ui-demo'', 0x410C0000), (bytes ''hog'', 0x410E0000), (bytes ''wm'', 0x41100000),
      (bytes ''counter'', 0x41120000), (bytes ''clock'', 0x41140000), (bytes ''ramfs'', 0x41160000),
      (bytes ''shell'', 0x41180000), (bytes ''net'', 0x411A0000), (bytes ''ping'', 0x411C0000),
      (bytes ''pong'', 0x411E0000), (bytes ''sec'', 0x41200000), (bytes ''fs'', 0x41220000)]"

definition wrapping_sub :: "nat \<Rightarrow> nat \<Rightarrow> nat" where
  "wrapping_sub a b = (if b \<le> a then a - b else a + USIZE_LIMIT - b)"

definition machine_base_shift :: "machine \<Rightarrow> nat option" where
  "machine_base_shift m =
     (if mach_id m = MACHINE_SBSA_REF then uadd (wrapping_sub (dram_base m) 0x40000000) 0x2000000 else Some 0)"

definition server_link_base :: "machine \<Rightarrow> rstr \<Rightarrow> nat option" where
  "server_link_base m name =
     (case List.find (\<lambda>(n, _). n = name) SERVER_BASES of
        Some (_, b) \<Rightarrow> do { sh \<leftarrow> machine_base_shift m; uadd b sh }
      | None \<Rightarrow> Some 0)"

definition SERVER_PRIOS :: "(rstr \<times> u8) list" where
  "SERVER_PRIOS =
     [(bytes ''init'', 128), (bytes ''pm'', 128), (bytes ''mem'', 128), (bytes ''dev'', 128),
      (bytes ''worker'', 128), (bytes ''display'', 32), (bytes ''wm'', 48), (bytes ''ramfs'', 64),
      (bytes ''ui-demo'', 96), (bytes ''counter'', 96), (bytes ''clock'', 96), (bytes ''shell'', 96),
      (bytes ''net'', 96), (bytes ''ping'', 96), (bytes ''pong'', 96), (bytes ''sec'', 96), (bytes ''fs'', 96),
      (bytes ''hog'', 192)]"

section \<open>Spawning\<close>

text \<open>What a server may touch at EL0: its image, the boot page, the top page of its stack window, and
  for the display server the transport window.\<close>

definition open_server_pages :: "rstr \<Rightarrow> phys_addr \<Rightarrow> nat \<Rightarrow> nat \<Rightarrow> kmem \<Rightarrow> kmem option" where
  "open_server_pages name root base boot_page m =
     do { m \<leftarrow> map_user_pages root base (boot_page - base) FLAGS_USER_RWX m;
          m \<leftarrow> map_user_pages root boot_page PAGE_SIZE FLAGS_USER_RWX m;
          m \<leftarrow> map_user_pages root (boot_page + PAGE_SIZE + USER_STACK_SIZE - PAGE_SIZE) PAGE_SIZE FLAGS_USER_RWX m;
          if name = bytes ''display'' \<and> DISPLAY_MMIO_BASE \<noteq> 0
          then map_user_pages root DISPLAY_MMIO_BASE DISPLAY_MMIO_SIZE FLAGS_USER_DEVICE m
          else Some m }"

definition spawn_server_user_locked ::
  "rstr \<Rightarrow> nat \<Rightarrow> u64 \<Rightarrow> nat \<Rightarrow> nat \<Rightarrow> nat \<Rightarrow> boot_info \<Rightarrow> nat \<Rightarrow> nat \<Rightarrow> kstate \<Rightarrow> (u32 option \<times> kstate) option" where
  "spawn_server_user_locked = spawn_user"

definition register_server :: "rstr \<Rightarrow> u32 \<Rightarrow> nat \<Rightarrow> kstate \<Rightarrow> kstate option" where
  "register_server name pid stack_window_base s =
     do { (_, s) \<leftarrow> push_region_for pid REGION_STACK stack_window_base (USER_STACK_SIZE div PAGE_SIZE) s;
          let prio = (case List.find (\<lambda>(n, _). n = name) SERVER_PRIOS of Some (_, p) \<Rightarrow> p | None \<Rightarrow> PRIO_NORMAL);
          Some (set_priority pid prio s) }"

text \<open>The result is a task id, or one of the error codes -7 (unknown server), -8 (no slot), -9 (bad image).\<close>

definition spawn_by_name_locked ::
  "machine \<Rightarrow> (rstr \<Rightarrow> u8 list option) \<Rightarrow> rstr \<Rightarrow> kstate \<Rightarrow> ((int + u32) \<times> kstate) option" where
  "spawn_by_name_locked mach bins name s =
     (case bins name of
        None \<Rightarrow> Some (Inl (- 7), s)
      | Some bin \<Rightarrow>
          do { base \<leftarrow> server_link_base mach name;
               if base = 0 then Some (Inl (- 7), s)
               else do {
                 let ram_sz = SERVER_RAM_PAGES * PAGE_SIZE;
                 lim \<leftarrow> uadd base ram_sz;
                 let m = pstore_bytes base (replicate ram_sz 0) (mm s);
                 (r, m) \<leftarrow> load_flat_full bin 0 lim m;
                 case r of
                   Inl _ \<Rightarrow> Some (Inl (- 9), s\<lparr>mm := m\<rparr>)
                 | Inr li \<Rightarrow> do {
                     (root, m) \<leftarrow> clone_kernel_table m;
                     let boot_page = img_end li;
                     user_end \<leftarrow> uadd boot_page (PAGE_SIZE + USER_STACK_SIZE);
                     if user_end > lim then None
                     else do {
                       _ \<leftarrow> usub boot_page base;
                       m \<leftarrow> open_server_pages name root base boot_page m;
                       (r, s) \<leftarrow> spawn_server_user_locked name (img_entry li) (of_nat root) user_end lim boot_page
                                  \<lparr>boot_task_id = 0, boot_machine = mach_id mach\<rparr> base (img_end li) (s\<lparr>mm := m\<rparr>);
                       case r of
                         None \<Rightarrow> Some (Inl (- 8), s)
                       | Some pid \<Rightarrow> do {
                           s \<leftarrow> register_server name pid (boot_page + PAGE_SIZE) s;
                           Some (Inr pid, s) } } } } })"

definition spawn_by_name ::
  "machine \<Rightarrow> (rstr \<Rightarrow> u8 list option) \<Rightarrow> rstr \<Rightarrow> kstate \<Rightarrow> ((int + u32) \<times> kstate) option" where
  "spawn_by_name = spawn_by_name_locked"

definition reserve_regions :: "machine \<Rightarrow> frame_allocator \<Rightarrow> frame_allocator option" where
  "reserve_regions mach fa =
     foldm (\<lambda>(name, _) fa. do { base \<leftarrow> server_link_base mach name;
                                reserve_region base (SERVER_RAM_PAGES * PAGE_SIZE) fa }) SERVER_BASES fa"

end
