(* ===== verification/Ipc_Syscall.thy ===== *)
theory Ipc_Syscall
  imports Server
begin

text \<open>
  The system calls, \<^verbatim>\<open>kernel/src/ipc/syscall.rs\<close>: message passing, processes, memory, interrupts, sleep, the
  secure services, and the dispatcher with its scheduling tail.

  A call runs under the scheduler lock, so it is one step of the state.  A call that blocks ends with the
  switch: its outcome is \<open>Switched\<close>, and what the source does once the task is resumed is the
  corresponding \<open>_resume\<close> function.  The memory the caller points to is accessed through the active table
  of the CPU (\<open>live\<close>), the receiver's buffer through the receiver's table.  \<open>sys_env\<close> collects what
  is fixed outside the sources modelled here: the machine table, the embedded binaries, the firmware's
  answer to an SMC on a machine without the EL3 monitor, and the address of the stack slot that holds
  the copied name.
\<close>

section \<open>Model\<close>

datatype 'a outcome = Ret 'a | Switched

record sys_env =
  env_machine :: machine
  env_bins :: "rstr \<Rightarrow> u8 list option"
  env_fw_smc :: "u64 \<Rightarrow> u64"
  env_scratch :: "nat \<Rightarrow> nat"

definition active_ttbr0 :: "nat \<Rightarrow> kstate \<Rightarrow> phys_addr" where
  "active_ttbr0 cpu s = unat (ctx_ttbr0 (live s cpu))"

text \<open>
  \<^verbatim>\<open>with_ttbr0\<close> runs its body on the given table and puts the previous one back: the body here is a
  memory operation that takes the table as its argument.
\<close>

definition with_ttbr0 :: "u64 \<Rightarrow> (phys_addr \<Rightarrow> kmem \<Rightarrow> 'a option) \<Rightarrow> kmem \<Rightarrow> 'a option" where
  "with_ttbr0 ttbr f m = f (unat ttbr) m"

definition deliver :: "nat \<Rightarrow> nat \<Rightarrow> u32 \<Rightarrow> nat \<Rightarrow> kstate \<Rightarrow> kstate option" where
  "deliver cpu dst_idx src msg s =
     do { dst \<leftarrow> task_at dst_idx s;
          saved \<leftarrow> read_message (active_ttbr0 cpu s) msg (mm s);
          m \<leftarrow> with_ttbr0 (task_ttbr0 dst) (\<lambda>root. write_message root (recv_buf dst) (saved\<lparr>msg_src := src\<rparr>)) (mm s);
          Some (poke_idle_secondaries
                 (upd_task dst_idx (\<lambda>t. t\<lparr>recv_blocked := False, tstate := Ready\<rparr>) (s\<lparr>mm := m\<rparr>))) }"

definition switch_away :: "nat \<Rightarrow> nat \<Rightarrow> kstate \<Rightarrow> kstate option" where
  "switch_away cpu from_idx s = run_slot cpu from_idx (pick_next cpu s) s"

definition sys_send :: "nat \<Rightarrow> u32 \<Rightarrow> nat \<Rightarrow> kstate \<Rightarrow> (int outcome \<times> kstate) option" where
  "sys_send cpu dst msg s =
     (let me = current_id cpu s; my_idx = current_idx cpu s in
      if dst = me then Some (Ret (- 2), s)
      else case task_idx dst s of
        None \<Rightarrow> Some (Ret (- 3), s)
      | Some dst_idx \<Rightarrow>
          do { t \<leftarrow> task_at dst_idx s;
               if recv_blocked t \<and> (recv_filter t = M_ANY \<or> recv_filter t = me)
               then do { s \<leftarrow> deliver cpu dst_idx me msg s; Some (Ret 0, set_woken dst_idx s) }
               else do {
                 saved \<leftarrow> read_message (active_ttbr0 cpu s) msg (mm s);
                 case free_slot (pending_senders t) of
                   None \<Rightarrow>
                     do { s \<leftarrow> switch_away cpu my_idx
                               (upd_task my_idx (\<lambda>t. t\<lparr>send_full_wait := Some \<lparr>ss_dst = dst, ss_src = me, ss_msg = saved\<rparr>,
                                                       tstate := Blocked\<rparr>) s);
                          Some (Switched, s) }
                 | Some k \<Rightarrow>
                     do { let s = upd_task dst_idx (\<lambda>t. t\<lparr>pending_senders :=
                                    (pending_senders t)[k := Some \<lparr>ps_src = me, ps_msg = saved\<rparr>]\<rparr>) s;
                          s \<leftarrow> switch_away cpu my_idx (set_state my_idx Blocked s);
                          Some (Switched, s) } } })"

text \<open>The first parked message the filter accepts, and the scan for a sender staged on this task.\<close>

definition pending_match :: "u32 \<Rightarrow> pending_send option \<Rightarrow> bool" where
  "pending_match filt slot = (case slot of None \<Rightarrow> False | Some p \<Rightarrow> filt = M_ANY \<or> ps_src p = filt)"

definition staged_match :: "u32 \<Rightarrow> u32 \<Rightarrow> task option \<Rightarrow> bool" where
  "staged_match my_id filt slot =
     (case slot of
        None \<Rightarrow> False
      | Some t \<Rightarrow> (case send_full_wait t of
                     None \<Rightarrow> False
                   | Some ss \<Rightarrow> ss_dst ss = my_id \<and> (filt = M_ANY \<or> ss_src ss = filt)) \<and> tstate t \<noteq> Zombie)"

definition receive_pending :: "nat \<Rightarrow> nat \<Rightarrow> nat \<Rightarrow> pending_send \<Rightarrow> nat \<Rightarrow> kstate \<Rightarrow> (int outcome \<times> kstate) option" where
  "receive_pending cpu my_idx k p out s =
     do { let s = upd_task my_idx (\<lambda>t. t\<lparr>pending_senders := (pending_senders t)[k := None]\<rparr>) s;
          m \<leftarrow> write_message (active_ttbr0 cpu s) out ((ps_msg p)\<lparr>msg_src := ps_src p\<rparr>) (mm s);
          let s = s\<lparr>mm := m\<rparr>;
          let s = (case task_idx (ps_src p) s of
                     None \<Rightarrow> s
                   | Some src_idx \<Rightarrow>
                       if in_state src_idx Zombie s then s
                       else poke_idle_secondaries (set_woken src_idx (set_state src_idx Ready s)));
          Some (Ret (sint (ps_src p)), s) }"

definition receive_staged :: "nat \<Rightarrow> nat \<Rightarrow> staged_send \<Rightarrow> nat \<Rightarrow> kstate \<Rightarrow> (int outcome \<times> kstate) option" where
  "receive_staged cpu idx ss out s =
     do { m \<leftarrow> write_message (active_ttbr0 cpu s) out ((ss_msg ss)\<lparr>msg_src := ss_src ss\<rparr>) (mm s);
          let s = upd_task idx (\<lambda>t. t\<lparr>send_full_wait := None, tstate := Ready\<rparr>) (s\<lparr>mm := m\<rparr>);
          Some (Ret (sint (ss_src ss)), poke_idle_secondaries (set_woken idx s)) }"

definition sys_receive :: "nat \<Rightarrow> u32 \<Rightarrow> nat \<Rightarrow> kstate \<Rightarrow> (int outcome \<times> kstate) option" where
  "sys_receive cpu filt out s =
     (let my_idx = current_idx cpu s; my_id = current_id cpu s in
      do { me \<leftarrow> task_at my_idx s;
           case find_idx (pending_match filt) (pending_senders me) of
             Some k \<Rightarrow> do { p \<leftarrow> pending_senders me ! k; receive_pending cpu my_idx k p out s }
           | None \<Rightarrow>
               (case find_idx (\<lambda>i. staged_match my_id filt (task_at i s)) [1..<MAX_TASKS] of
                  Some k \<Rightarrow>
                    do { let idx = [1..<MAX_TASKS] ! k;
                         t \<leftarrow> task_at idx s;
                         ss \<leftarrow> send_full_wait t;
                         receive_staged cpu idx ss out s }
                | None \<Rightarrow>
                    do { let s = upd_task my_idx (\<lambda>t. t\<lparr>recv_blocked := True, recv_filter := filt, recv_buf := out,
                                                      tstate := Blocked\<rparr>) s;
                         s \<leftarrow> switch_away cpu my_idx s;
                         Some (Switched, s) }) })"

definition sys_receive_resume :: "nat \<Rightarrow> nat \<Rightarrow> kstate \<Rightarrow> int option" where
  "sys_receive_resume cpu out s = map_option sint (load32 (active_ttbr0 cpu s) out (mm s))"

primrec read_cstr_from :: "phys_addr \<Rightarrow> nat \<Rightarrow> nat \<Rightarrow> rstr \<Rightarrow> kmem \<Rightarrow> rstr option option" where
  "read_cstr_from root 0 p acc m = Some None"
| "read_cstr_from root (Suc n) p acc m =
     do { b \<leftarrow> load8 root p m;
          if b = 0 then Some (if utf8_ok acc then Some acc else None)
          else read_cstr_from root n (p + 1) (acc @ [b]) m }"

definition read_cstr :: "phys_addr \<Rightarrow> nat \<Rightarrow> nat \<Rightarrow> kmem \<Rightarrow> rstr option option" where
  "read_cstr root p n m = read_cstr_from root n p [] m"

definition sys_spawn :: "sys_env \<Rightarrow> nat \<Rightarrow> nat \<Rightarrow> kstate \<Rightarrow> (int \<times> kstate) option" where
  "sys_spawn env cpu name s =
     do { r \<leftarrow> read_cstr (active_ttbr0 cpu s) name 16 (mm s);
          case r of
            None \<Rightarrow> Some (- 5, s)
          | Some nm \<Rightarrow>
              do { (r, s) \<leftarrow> spawn_by_name_locked (env_machine env) (env_bins env) nm s;
                   Some (case r of Inr pid \<Rightarrow> sint pid | Inl e \<Rightarrow> e, s) } }"

definition live_named :: "rstr \<Rightarrow> kstate \<Rightarrow> task option" where
  "live_named nm s = List.find (\<lambda>t. name_str t = nm \<and> tstate t \<noteq> Zombie) (List.map_filter (\<lambda>slot. slot) (tasks s))"

definition sys_exec :: "sys_env \<Rightarrow> nat \<Rightarrow> nat \<Rightarrow> kstate \<Rightarrow> (int \<times> kstate) option" where
  "sys_exec env cpu name s =
     do { r \<leftarrow> read_cstr (active_ttbr0 cpu s) name 16 (mm s);
          case r of
            None \<Rightarrow> Some (- 5, s)
          | Some nm \<Rightarrow>
              do { s \<leftarrow> (case live_named nm s of
                           None \<Rightarrow> Some s
                         | Some t \<Rightarrow> map_option snd (kill_task_locked cpu (tid t) s));
                   (r, s) \<leftarrow> spawn_by_name_locked (env_machine env) (env_bins env) nm s;
                   Some (case r of Inr pid \<Rightarrow> sint pid | Inl e \<Rightarrow> e, s) } }"

definition sys_who :: "nat \<Rightarrow> nat \<Rightarrow> kstate \<Rightarrow> int option" where
  "sys_who cpu name s =
     do { r \<leftarrow> read_cstr (active_ttbr0 cpu s) name 16 (mm s);
          Some (case r of
                  None \<Rightarrow> - 1
                | Some nm \<Rightarrow> (case live_named nm s of Some t \<Rightarrow> sint (tid t) | None \<Rightarrow> - 1)) }"

definition sys_exit_task :: "nat \<Rightarrow> u32 \<Rightarrow> kstate \<Rightarrow> (int \<times> kstate) option" where
  "sys_exit_task cpu pid s = do { (b, s) \<leftarrow> kill_task_locked cpu pid s; Some (if b then 0 else - 3, s) }"

definition sys_exit :: "nat \<Rightarrow> kstate \<Rightarrow> kstate option" where
  "sys_exit cpu s = exit_current cpu s"

definition sys_alloc_frames :: "nat \<Rightarrow> u32 \<Rightarrow> kstate \<Rightarrow> (u64 \<times> kstate) option" where
  "sys_alloc_frames cpu n s =
     do { (r, m) \<leftarrow> alloc_frames (unat n) (mm s);
          case r of
            None \<Rightarrow> Some (0, s\<lparr>mm := m\<rparr>)
          | Some base \<Rightarrow>
              (let ttbr = current_ttbr0 cpu s in
               do { m \<leftarrow> (if ttbr \<noteq> 0 then map_user_pages (unat ttbr) base (unat n * PAGE_SIZE) FLAGS_USER_RWX m else Some m);
                    Some (of_nat base, s\<lparr>mm := m\<rparr>) }) }"

definition free_one_frame :: "u64 \<Rightarrow> nat \<Rightarrow> nat \<Rightarrow> kmem \<Rightarrow> kmem option" where
  "free_one_frame ttbr base i m =
     do { pa \<leftarrow> uadd base (i * PAGE_SIZE);
          m \<leftarrow> (if ttbr \<noteq> 0 then map_user_pages (unat ttbr) pa PAGE_SIZE FLAGS_KERNEL_RWX m else Some m);
          free_frame pa m }"

definition sys_free_frames :: "nat \<Rightarrow> u64 \<Rightarrow> u32 \<Rightarrow> kstate \<Rightarrow> (int \<times> kstate) option" where
  "sys_free_frames cpu base n s =
     do { m \<leftarrow> foldm (free_one_frame (current_ttbr0 cpu s) (unat base)) [0..<unat n] (mm s);
          Some (0, s\<lparr>mm := m\<rparr>) }"

definition map_device_kernel :: "nat \<Rightarrow> nat \<Rightarrow> kmem \<Rightarrow> kmem option" where
  "map_device_kernel base n m =
     foldm (\<lambda>i m. do { a \<leftarrow> uadd base (i * PAGE_SIZE); map_page a a FLAGS_DEVICE m }) [0..<n] m"

definition sys_map_device :: "sys_env \<Rightarrow> nat \<Rightarrow> u64 \<Rightarrow> u64 \<Rightarrow> kstate \<Rightarrow> (int \<times> kstate) option" where
  "sys_map_device env cpu phys n s =
     (let base = unat phys; sz = unat n * PAGE_SIZE; ttbr = current_ttbr0 cpu s in
      if \<not> page_aligned base then Some (- 12, s)
      else if n = 0 \<or> n > 65536 then Some (- 12, s)
      else if \<not> cap_permits (env_machine env) (current_name cpu s) base sz then Some (- 13, s)
      else do { m \<leftarrow> map_device_kernel base (unat n) (mm s);
                m \<leftarrow> (if ttbr \<noteq> 0 then map_user_pages (unat ttbr) base sz FLAGS_USER_DEVICE m else Some m);
                Some (0, s\<lparr>mm := m\<rparr>) })"

definition sys_map_demand :: "nat \<Rightarrow> u64 \<Rightarrow> u64 \<Rightarrow> kstate \<Rightarrow> (int \<times> kstate) option" where
  "sys_map_demand cpu va n s =
     (let base = unat va in
      if current_ttbr0 cpu s = 0 then Some (- 5, s)
      else if \<not> page_aligned base then Some (- 12, s)
      else if n = 0 \<or> n > 512 then Some (- 12, s)
      else if base < 0x100000000 then Some (- 12, s)
      else do { (b, s) \<leftarrow> push_current_region cpu REGION_DEMAND base (unat n) s;
                Some (if b then 0 else - 12, s) })"

definition ram_bounds :: "kmem \<Rightarrow> nat \<times> nat" where
  "ram_bounds m = (ram_start (frames m), ram_size (frames m))"

definition map_into_task :: "u32 \<Rightarrow> nat \<Rightarrow> nat \<Rightarrow> u64 \<Rightarrow> kstate \<Rightarrow> (int \<times> kstate) option" where
  "map_into_task pid base sz flags s =
     (case task_by_id pid s of
        None \<Rightarrow> Some (- 3, s)
      | Some dst \<Rightarrow>
          if task_ttbr0 dst = 0 then Some (0, s)
          else do { m \<leftarrow> with_ttbr0 (task_ttbr0 dst) (\<lambda>root. map_user_pages root base sz flags) (mm s);
                    Some (0, s\<lparr>mm := m\<rparr>) })"

definition sys_map_cow :: "u64 \<Rightarrow> u32 \<Rightarrow> u32 \<Rightarrow> kstate \<Rightarrow> (int \<times> kstate) option" where
  "sys_map_cow phys n pid s =
     (let base = unat phys; sz = unat n * PAGE_SIZE; (ram_base, ram_sz) = ram_bounds (mm s) in
      if phys = 0 \<or> n = 0 \<or> n > 4096 then Some (- 11, s)
      else if \<not> page_aligned base then Some (- 12, s)
      else do { pend \<leftarrow> uadd base sz;
                if pend > ram_base + ram_sz \<or> base < ram_base then Some (- 12, s)
                else map_into_task pid base sz FLAGS_USER_COW s })"

definition sys_map_cap :: "sys_env \<Rightarrow> nat \<Rightarrow> u64 \<Rightarrow> kstate \<Rightarrow> (u64 \<times> kstate) option" where
  "sys_map_cap env cpu idx s =
     (let ttbr = current_ttbr0 cpu s in
      if ttbr = 0 then Some (0, s)
      else case cap_window_for (env_machine env) (current_name cpu s) (unat idx) of
        None \<Rightarrow> Some (0, s)
      | Some (base, sz) \<Rightarrow>
          if base = 0 \<or> sz = 0 then Some (0, s)
          else do { m \<leftarrow> map_device_kernel base ((sz + PAGE_SIZE - 1) div PAGE_SIZE) (mm s);
                    m \<leftarrow> map_user_pages (unat ttbr) base sz FLAGS_USER_DEVICE m;
                    Some (of_nat base, s\<lparr>mm := m\<rparr>) })"

definition sys_share_frames :: "u64 \<Rightarrow> u32 \<Rightarrow> u32 \<Rightarrow> kstate \<Rightarrow> (int \<times> kstate) option" where
  "sys_share_frames base n pid s =
     (if base = 0 \<or> n = 0 \<or> n > 4096 then Some (- 11, s)
      else map_into_task pid (unat base) (unat n * PAGE_SIZE) FLAGS_USER_RWX s)"

definition sys_unshare_frames :: "u64 \<Rightarrow> u32 \<Rightarrow> u32 \<Rightarrow> kstate \<Rightarrow> (int \<times> kstate) option" where
  "sys_unshare_frames base n pid s =
     (if base = 0 \<or> n = 0 \<or> n > 4096 then Some (- 11, s)
      else case task_by_id pid s of
        None \<Rightarrow> Some (- 3, s)
      | Some dst \<Rightarrow>
          if task_ttbr0 dst = 0 then Some (0, s)
          else do { m \<leftarrow> with_ttbr0 (task_ttbr0 dst)
                          (\<lambda>root. foldm (\<lambda>i m. do { a \<leftarrow> uadd (unat base) (i * PAGE_SIZE);
                                                    map_user_pages root a PAGE_SIZE FLAGS_KERNEL_RWX m }) [0..<unat n])
                          (mm s);
                    Some (0, s\<lparr>mm := m\<rparr>) })"

text \<open>
  \<^verbatim>\<open>sys_wait_irq\<close> runs without the lock: it arms the interrupt and either consumes a recorded delivery or
  starts to wait; each poll of the waiting loop is a step of its own.
\<close>

definition enable_irq :: "u32 \<Rightarrow> kstate \<Rightarrow> kstate" where
  "enable_irq irq s = s\<lparr>gic_on := (gic_on s)(irq := True)\<rparr>"

definition sys_wait_irq :: "nat \<Rightarrow> u32 \<Rightarrow> kstate \<Rightarrow> int outcome \<times> kstate" where
  "sys_wait_irq cpu irq s =
     (if \<not> (16 \<le> irq \<and> irq \<le> 1019) then (Ret (- 10), s)
      else let s = enable_irq irq s; (b, bits) = take_pending irq (irq_bits s); s = s\<lparr>irq_bits := bits\<rparr>
           in if b then (Ret 0, s)
              else (Switched, upd_task (current_idx cpu s) (\<lambda>t. t\<lparr>irq_wait := Some irq\<rparr>) s))"

definition sys_wait_irq_poll :: "nat \<Rightarrow> u32 \<Rightarrow> kstate \<Rightarrow> int outcome \<times> kstate" where
  "sys_wait_irq_poll cpu irq s =
     (if irq_pending irq (irq_bits s)
      then (Ret 0, (upd_task (current_idx cpu s) (\<lambda>t. t\<lparr>irq_wait := None\<rparr>) s)\<lparr>irq_bits := clear_pending irq (irq_bits s)\<rparr>)
      else (Switched, s))"

definition sys_cache_sync :: "kstate \<Rightarrow> u64 \<times> kstate" where
  "sys_cache_sync s = (0, s)"

text \<open>\<^verbatim>\<open>smc #0\<close>: the EL3 monitor when it is installed, the platform firmware otherwise.\<close>

definition smc6 :: "sys_env \<Rightarrow> u64 \<Rightarrow> u64 \<Rightarrow> u64 \<Rightarrow> u64 \<Rightarrow> u64 \<Rightarrow> u64 \<Rightarrow> kstate \<Rightarrow> u64 \<times> kstate" where
  "smc6 env fn_id a0 a1 a2 a3 a4 s =
     (if installed (sec s)
      then let (r, m, w) = monitor_smc_dispatch (cntpct s) fn_id a0 a1 a2 a3 a4 (mm s) (sec s)
           in (r, s\<lparr>mm := m, sec := w\<rparr>)
      else (env_fw_smc env fn_id, s))"

definition smc :: "sys_env \<Rightarrow> u64 \<Rightarrow> u64 \<Rightarrow> u64 \<Rightarrow> u64 \<Rightarrow> kstate \<Rightarrow> u64 \<times> kstate" where
  "smc env fn_id a0 a1 a2 s = smc6 env fn_id a0 a1 a2 0 0 s"

definition sys_attest :: "sys_env \<Rightarrow> nat \<Rightarrow> u64 \<Rightarrow> u64 \<Rightarrow> kstate \<Rightarrow> u64 \<times> kstate" where
  "sys_attest env cpu out nonce s =
     (let (base, pend) = current_image_range cpu s in
      if out = 0 then (- 1, s)
      else if base = 0 \<or> pend \<le> base then (- 1, s)
      else smc6 env 0x8300000C (of_nat base) (of_nat (pend - base)) nonce out 16 s)"

definition sys_irq_pending :: "u32 \<Rightarrow> kstate \<Rightarrow> int \<times> kstate" where
  "sys_irq_pending irq s =
     (if \<not> (16 \<le> irq \<and> irq \<le> 1019) then (- 10, s)
      else let s = enable_irq irq s; (b, bits) = take_pending irq (irq_bits s)
           in (if b then 1 else 0, s\<lparr>irq_bits := bits\<rparr>))"

definition saturating_add :: "nat \<Rightarrow> nat \<Rightarrow> nat" where
  "saturating_add a b = min (a + b) (USIZE_LIMIT - 1)"

definition sys_sleep :: "nat \<Rightarrow> u32 \<Rightarrow> kstate \<Rightarrow> (int outcome \<times> kstate) option" where
  "sys_sleep cpu ms s =
     (let ms = max 1 (min 60000 (unat ms));
          my_idx = current_idx cpu s;
          deadline = saturating_add (ticks s) ms
      in do { _ \<leftarrow> task_at my_idx s;
              s \<leftarrow> switch_away cpu my_idx
                    (set_state my_idx Blocked (upd_task my_idx (\<lambda>t. t\<lparr>sleep_deadline := deadline\<rparr>) s));
              Some (Switched, s) })"

definition sys_sleep_resume :: "nat \<Rightarrow> kstate \<Rightarrow> int \<times> kstate" where
  "sys_sleep_resume cpu s = (0, upd_task (current_idx cpu s) (\<lambda>t. t\<lparr>sleep_deadline := 0\<rparr>) s)"

primrec sys_log_len :: "phys_addr \<Rightarrow> nat \<Rightarrow> nat \<Rightarrow> nat \<Rightarrow> kmem \<Rightarrow> nat option" where
  "sys_log_len root 0 p n m = Some n"
| "sys_log_len root (Suc k) p n m =
     do { b \<leftarrow> load8 root (p + n) m;
          if b = 0 then Some n else if n + 1 > 255 then Some (n + 1) else sys_log_len root k p (n + 1) m }"

definition sys_log :: "nat \<Rightarrow> nat \<Rightarrow> kstate \<Rightarrow> rstr option" where
  "sys_log cpu msg s =
     do { n \<leftarrow> sys_log_len (active_ttbr0 cpu s) 256 msg 0 (mm s);
          bs \<leftarrow> those (map (\<lambda>i. load8 (active_ttbr0 cpu s) (msg + i) (mm s)) [0..<n]);
          Some (if utf8_ok bs then bs else bytes ''?'') }"

section \<open>The dispatcher\<close>

definition i32_ret :: "int \<Rightarrow> u64" where
  "i32_ret r = of_int r"

definition map_ret :: "('a \<Rightarrow> 'b) \<Rightarrow> 'a outcome \<Rightarrow> 'b outcome" where
  "map_ret f r = (case r of Ret x \<Rightarrow> Ret (f x) | Switched \<Rightarrow> Switched)"

text \<open>A slice made from a user pointer: a length beyond \<^verbatim>\<open>isize::MAX\<close> fails the debug check.\<close>

definition slice_ok :: "u64 \<Rightarrow> bool" where
  "slice_ok n \<longleftrightarrow> unat n < 2 ^ 63"

definition sec_storage_call :: "sys_env \<Rightarrow> nat \<Rightarrow> bool \<Rightarrow> u64 \<Rightarrow> u64 \<Rightarrow> u64 \<Rightarrow> kstate \<Rightarrow> (u64 \<times> kstate) option" where
  "sec_storage_call env cpu put a0 a1 a2 s =
     (if a0 = 0 \<or> a1 = 0 then Some (- 1, s)
      else do { name \<leftarrow> those (map (\<lambda>i. load8 (active_ttbr0 cpu s) (unat a0 + i) (mm s)) [0..<8]);
                if \<not> slice_ok a2 then None
                else let s = s\<lparr>mm := pstore_bytes (env_scratch env cpu) name (mm s)\<rparr>;
                         np = of_nat (env_scratch env cpu)
                     in Some (if put then (if unat a2 > 232 then (- 1, s) else smc env 0x83000007 np a1 a2 s)
                              else smc env 0x83000008 np a1 a2 s) })"

definition keybox_call :: "sys_env \<Rightarrow> u64 \<Rightarrow> u64 \<Rightarrow> u64 \<Rightarrow> u64 \<Rightarrow> kstate \<Rightarrow> (u64 \<times> kstate) option" where
  "keybox_call env fn_id a0 a1 a2 s =
     (if a1 = 0 then Some (- 1, s)
      else if \<not> slice_ok a2 then None
      else Some (smc env fn_id a0 a1 a2 s))"

definition ret_of :: "('a \<times> kstate) option \<Rightarrow> ('a outcome \<times> kstate) option" where
  "ret_of r = map_option (map_prod Ret (\<lambda>s. s)) r"

definition ret_i32 :: "(int \<times> kstate) option \<Rightarrow> (u64 outcome \<times> kstate) option" where
  "ret_i32 r = map_option (map_prod (\<lambda>x. Ret (i32_ret x)) (\<lambda>s. s)) r"

definition out_i32 :: "(int outcome \<times> kstate) option \<Rightarrow> (u64 outcome \<times> kstate) option" where
  "out_i32 r = map_option (map_prod (map_ret i32_ret) (\<lambda>s. s)) r"

definition syscall_body :: "sys_env \<Rightarrow> nat \<Rightarrow> u64 \<Rightarrow> u64 \<Rightarrow> u64 \<Rightarrow> u64 \<Rightarrow> kstate \<Rightarrow> (u64 outcome \<times> kstate) option" where
  "syscall_body env cpu nr a0 a1 a2 s =
     (if nr = 0 then out_i32 (sys_send cpu (ucast a0) (unat a1) s)
      else if nr = 1 then out_i32 (sys_receive cpu (ucast a0) (unat a1) s)
      else if nr = 2 then ret_i32 (sys_spawn env cpu (unat a0) s)
      else if nr = 3 then ret_i32 (map_option (\<lambda>r. (r, s)) (sys_who cpu (unat a0) s))
      else if nr = 4 then ret_i32 (sys_exit_task cpu (ucast a0) s)
      else if nr = 5 then map_option (\<lambda>s. (Switched, s)) (sys_exit cpu s)
      else if nr = 6 then ret_of (sys_alloc_frames cpu (ucast a0) s)
      else if nr = 7 then ret_i32 (sys_free_frames cpu a0 (ucast a1) s)
      else if nr = 11 then ret_i32 (sys_share_frames a0 (ucast a1) (ucast a2) s)
      else if nr = 12 then ret_i32 (sys_unshare_frames a0 (ucast a1) (ucast a2) s)
      else if nr = 13 then out_i32 (sys_sleep cpu (ucast a0) s)
      else if nr = 14 then ret_i32 (sys_exec env cpu (unat a0) s)
      else if nr = 15 then ret_i32 (sys_map_device env cpu a0 a1 s)
      else if nr = 24 then ret_i32 (sys_map_demand cpu a0 a1 s)
      else if nr = 25 then ret_i32 (sys_map_cow a0 (ucast a1) (ucast a2) s)
      else if nr = 26 then ret_of (sys_map_cap env cpu a0 s)
      else if nr = 16 then ret_i32 (Some (sys_irq_pending (ucast a0) s))
      else if nr = 17 then ret_of (Some (sys_cache_sync s))
      else if nr = 18 then ret_of (sec_storage_call env cpu True a0 a1 a2 s)
      else if nr = 19 then ret_of (sec_storage_call env cpu False a0 a1 a2 s)
      else if nr = 20 then ret_of (Some (smc env 0x83000009 a0 0 0 s))
      else if nr = 21 then ret_of (keybox_call env 0x8300000A a0 a1 a2 s)
      else if nr = 22 then ret_of (keybox_call env 0x8300000B a0 a1 a2 s)
      else if nr = 23 then ret_of (Some (sys_attest env cpu a0 a1 s))
      else if nr = 8 then map_option (\<lambda>_. (Ret 0, s)) (sys_log cpu (unat a1) s)
      else Some (Ret 0, s))"

definition tanix_syscall :: "sys_env \<Rightarrow> nat \<Rightarrow> u64 \<Rightarrow> u64 \<Rightarrow> u64 \<Rightarrow> u64 \<Rightarrow> kstate \<Rightarrow> (u64 outcome \<times> kstate) option" where
  "tanix_syscall env cpu nr a0 a1 a2 s =
     (if nr = 9 then Some (map_prod (map_ret i32_ret) (\<lambda>s. s) (sys_wait_irq cpu (ucast a0) s))
      else if nr = 10 then do { s \<leftarrow> yield_cpu cpu s; Some (Ret 0, s) }
      else do { (r, s) \<leftarrow> syscall_body env cpu nr a0 a1 a2 s;
                case r of
                  Switched \<Rightarrow> Some (Switched, s)
                | Ret x \<Rightarrow> do { (_, s) \<leftarrow> reschedule cpu s; Some (Ret x, s) } })"

end
