(* ===== verification/Syscall_Inv.thy ===== *)
theory Syscall_Inv
  imports Ipc_Syscall
begin

text \<open>
  Every system call keeps the scheduler's invariant of \<^theory_text>\<open>Sched_Inv\<close>.  The calls fall into groups: those
  that only change memory, those that park the caller, those that wake another task, and those that create
  or end a task; a lemma for each group carries the calls in it.
\<close>

section \<open>Parking and waking\<close>

lemma wake_ok:
  assumes "ok_on C s" "task_at i s = Some t" "waits s t rsn" "keeps f"
    and "\<And>r. waits s (f t) r \<Longrightarrow> waits s t r \<and> r \<noteq> rsn"
  shows "ok_on C (upd_task i f s)"
proof (rule ok_on_upd [OF assms(1,4)])
  have w: "\<not> waits s (f t) r" for r
    using assms(1,2,3,5) unfolding ok_on_def waits_ok_def by blast
  fix u assume "task_at i s = Some u"
  then have u: "u = t" using assms(2) by simp
  show "\<not> idle_idx i \<and> tstate (f u) \<in> {Blocked, Zombie} \<and> (\<forall>r'. waits s (f u) r' \<longrightarrow> r' = r)" if "waits s (f u) r" for r
    using that w u by blast
  show "(\<not> idle_idx i \<longrightarrow> tstate (f u) \<noteq> Ready) \<and> (\<forall>r. \<not> waits s (f u) r)" if "c \<in> C" "current_idx c s = i" for c
    using current_waits [OF assms(1) that(1), of t rsn] that(2) assms(2,3) by simp
qed

lemma waits_not_idle: "ok_on C s \<Longrightarrow> task_at i s = Some t \<Longrightarrow> waits s t r \<Longrightarrow> \<not> idle_idx i"
  unfolding ok_on_def waits_ok_def by blast

text \<open>The caller gives itself one reason to wait and blocks; it stays current until the switch.\<close>

lemma park_ok:
  assumes "ok_on C s" "cpu \<in> C" "\<not> idle_idx (current_idx cpu s)" "keeps f"
    and "\<And>t. tstate (f t) = Blocked" "\<And>t r. waits s (f t) r \<Longrightarrow> waits s t r \<or> r = rsn"
  shows "ok_on (C - {cpu}) (upd_task (current_idx cpu s) f s)"
proof (rule ok_on_upd [OF ok_on_mono [OF assms(1)] assms(4)])
  let ?i = "current_idx cpu s"
  fix t assume t: "task_at ?i s = Some t"
  have w: "waits s (f t) r \<Longrightarrow> r = rsn" for r
    using assms(6) current_waits [OF assms(1,2) t] by blast
  show "\<not> idle_idx ?i \<and> tstate (f t) \<in> {Blocked, Zombie} \<and> (\<forall>r'. waits s (f t) r' \<longrightarrow> r' = r)" if "waits s (f t) r" for r
    using assms(3,5) w that by auto
  show "(\<not> idle_idx ?i \<longrightarrow> tstate (f t) \<noteq> Ready) \<and> (\<forall>r. \<not> waits s (f t) r)" if "c \<in> C - {cpu}" "current_idx c s = ?i" for c
    using assms(1,2,3) that unfolding ok_on_def run_ok_def Let_def by (metis Diff_iff idle_idx_def insertI1)
qed auto

lemma switch_away_ok:
  "switch_away cpu i s = Some s' \<Longrightarrow> ok_on (C - {cpu}) s \<Longrightarrow> cpu < MAX_CPUS \<Longrightarrow> ok_on C s' \<and> woken s' = woken s"
  unfolding switch_away_def by (rule run_pick_ok)

section \<open>Send queues\<close>

definition put_queue :: "nat \<Rightarrow> pending_send option \<Rightarrow> task \<Rightarrow> task" where
  "put_queue k p t = t\<lparr>pending_senders := (pending_senders t)[k := p]\<rparr>"

lemma put_queue_sel [simp]:
  "tid (put_queue k p t) = tid t" "cpu_affinity (put_queue k p t) = cpu_affinity t" "tstate (put_queue k p t) = tstate t"
  "recv_blocked (put_queue k p t) = recv_blocked t" "send_full_wait (put_queue k p t) = send_full_wait t"
  "sleep_deadline (put_queue k p t) = sleep_deadline t"
  by (simp_all add: put_queue_def)

lemma queue_at_put:
  assumes "task_at j s = Some u" "k < length (pending_senders u)"
  shows "queue_at (upd_task j (put_queue k p) s) j' k' = (if j' = j \<and> k' = k then p else queue_at s j' k')"
  using assms by (auto simp: queue_at_def task_at_upd put_queue_def split: option.splits)

lemma waits_put:
  assumes "task_at j s = Some u" "k < length (pending_senders u)"
  shows "waits (upd_task j (put_queue k p) s) t r =
    (if r = Queued j k then (\<exists>q. p = Some q \<and> ps_src q = tid t) else waits s t r)"
  using assms by (cases r) (auto simp: queue_at_put)

lemma waits_put_self [simp]: "waits s (put_queue k p t) r = waits s t r"
  by (cases r) simp_all

lemma task_at_put:
  "task_at i (upd_task j (put_queue k p) s) = Some t \<longleftrightarrow>
    (if i = j then \<exists>u. task_at j s = Some u \<and> t = put_queue k p u else task_at i s = Some t)"
  by (auto simp: task_at_upd)

lemma base_ok_put:
  assumes "base_ok s" "task_at j s = Some u" "k < length (pending_senders u)"
    and "\<And>q. p = Some q \<Longrightarrow> ps_src q \<in> used_ids s"
  shows "base_ok (upd_task j (put_queue k p) s)"
proof -
  let ?s = "upd_task j (put_queue k p) s"
  have k: "task_at i ?s = Some t \<Longrightarrow> \<exists>u. task_at i s = Some u \<and> tid t = tid u" for i t
    by (auto simp: task_at_put split: if_splits)
  have c: "task_at i s = Some u \<Longrightarrow> \<exists>t. task_at i ?s = Some t \<and> tid t = tid u \<and> cpu_affinity t = cpu_affinity u" for i u
    by (cases "i = j") (auto simp: task_at_upd)
  note b = assms(1) [unfolded base_ok_def]
  have "\<exists>t. task_at (idle_slot i) ?s = Some t \<and> cpu_affinity t = Some i \<and> tid t = idle_id i" if "i < MAX_CPUS" for i
    using b c that by metis
  moreover have "tid t \<noteq> 0 \<and> tid t < next_id s" if "task_at i ?s = Some t" "\<not> idle_idx i" for i t
    using k [OF that(1)] b that(2) by force
  moreover have "i = l" if "task_at i ?s = Some t" "task_at l ?s = Some v" "tid t = tid v" for i l t v
    using k [OF that(1)] k [OF that(2)] b that(3) by metis
  moreover have "used_ids s \<subseteq> used_ids ?s" using c unfolding used_ids_def by blast
  then have "ps_src q \<in> used_ids ?s" if "queue_at ?s i l = Some q" for i l q
    using that b assms(4) by (auto simp: queue_at_put [OF assms(2,3)] split: if_splits)
  ultimately show ?thesis
    unfolding base_ok_def upd_task_sel filter_none_upd using b by auto
qed

lemma dequeue_ok:
  assumes "ok_on C s" "task_at j s = Some u" "k < length (pending_senders u)"
  shows "ok_on C (upd_task j (put_queue k None) s)"
proof -
  let ?s = "upd_task j (put_queue k None) s"
  have w: "waits ?s t r \<Longrightarrow> waits s t r" for t r by (simp add: waits_put [OF assms(2,3)] split: if_splits)
  have b: "base_ok ?s" using assms by (intro base_ok_put) (auto simp: ok_on_def)
  have "waits_ok ?s"
    unfolding waits_ok_def
  proof (intro allI impI)
    fix i t r assume t: "task_at i ?s = Some t" and r: "waits ?s t r"
    obtain t' where t': "task_at i s = Some t'" "tstate t' = tstate t" "\<And>r. waits s t' r = waits s t r"
      using t by (cases "i = j") (auto simp: task_at_put)
    show "\<not> idle_idx i \<and> tstate t \<in> {Blocked, Zombie} \<and> (\<forall>r'. waits ?s t r' \<longrightarrow> r' = r)"
      using assms(1) t' w [OF r] w unfolding ok_on_def waits_ok_def by metis
  qed
  moreover have "run_ok C ?s"
    unfolding run_ok_def Let_def current_idx_simps
  proof (intro ballI)
    fix c assume c: "c \<in> C"
    let ?i = "current_idx c s"
    from assms(1) c obtain t where t: "task_at ?i s = Some t" "\<not> idle_idx ?i \<longrightarrow> tstate t \<noteq> Ready" "\<forall>r. \<not> waits s t r"
        "idle_idx ?i \<longrightarrow> ?i = 0 \<or> ?i = idle_slot c" "\<forall>d \<in> C. d \<noteq> c \<longrightarrow> current_idx d s = ?i \<longrightarrow> ?i = 0"
      unfolding ok_on_def run_ok_def Let_def by blast
    have "\<exists>t. task_at ?i ?s = Some t \<and> (\<not> idle_idx ?i \<longrightarrow> tstate t \<noteq> Ready) \<and> (\<forall>r. \<not> waits ?s t r)"
      using t w by (cases "?i = j") (fastforce simp: task_at_upd)+
    then show "(\<exists>t. task_at ?i ?s = Some t \<and> (\<not> idle_idx ?i \<longrightarrow> tstate t \<noteq> Ready) \<and> (\<forall>r. \<not> waits ?s t r)) \<and>
        (idle_idx ?i \<longrightarrow> ?i = 0 \<or> ?i = idle_slot c) \<and> (\<forall>d \<in> C. d \<noteq> c \<longrightarrow> current_idx d s = ?i \<longrightarrow> ?i = 0)"
      using t by blast
  qed
  ultimately show ?thesis using b by (simp add: ok_on_def)
qed

lemma enqueue_ok:
  assumes "ok_on C s" "task_at j s = Some u" "k < length (pending_senders u)" "queue_at s j k = None"
    and "task_at i s = Some me" "tid me = ps_src q" "\<not> idle_idx i" "tstate me \<in> {Blocked, Zombie}"
    and "\<And>r. \<not> waits s me r" "\<And>c. c \<in> C \<Longrightarrow> current_idx c s \<noteq> i"
  shows "ok_on C (upd_task j (put_queue k (Some q)) s)"
proof -
  let ?s = "upd_task j (put_queue k (Some q)) s"
  have w: "waits ?s t r \<longleftrightarrow> (if r = Queued j k then ps_src q = tid t else waits s t r)" for t r
    by (simp add: waits_put [OF assms(2,3)])
  have b: "base_ok ?s" using assms by (intro base_ok_put) (auto simp: ok_on_def used_ids_def)
  have uniq: "l = i" if "task_at l s = Some t" "tid t = ps_src q" for l t
    using assms(1,5,6) that unfolding ok_on_def base_ok_def by metis
  have "waits_ok ?s"
    unfolding waits_ok_def
  proof (intro allI impI)
    fix l t r assume t: "task_at l ?s = Some t" and r: "waits ?s t r"
    obtain t' where t': "task_at l s = Some t'" "tstate t' = tstate t" "tid t' = tid t" "\<And>r. waits s t' r = waits s t r"
      using t by (cases "l = j") (auto simp: task_at_put)
    show "\<not> idle_idx l \<and> tstate t \<in> {Blocked, Zombie} \<and> (\<forall>r'. waits ?s t r' \<longrightarrow> r' = r)"
    proof (cases "tid t = ps_src q")
      case True
      then have "l = i" using uniq t' by metis
      then have "t' = me" using t' assms(5) by simp
      then show ?thesis using \<open>l = i\<close> assms(7,8,9) t' w r by (metis (full_types))
    next
      case False
      then have "waits s t r" "r \<noteq> Queued j k" "\<And>r'. waits ?s t r' \<Longrightarrow> waits s t r'" using r w by metis+
      then show ?thesis using assms(1) t' unfolding ok_on_def waits_ok_def by metis
    qed
  qed
  moreover have "run_ok C ?s"
    unfolding run_ok_def Let_def current_idx_simps
  proof (intro ballI)
    fix c assume c: "c \<in> C"
    let ?i = "current_idx c s"
    from assms(1) c obtain t where t: "task_at ?i s = Some t" "\<not> idle_idx ?i \<longrightarrow> tstate t \<noteq> Ready" "\<forall>r. \<not> waits s t r"
        "idle_idx ?i \<longrightarrow> ?i = 0 \<or> ?i = idle_slot c" "\<forall>d \<in> C. d \<noteq> c \<longrightarrow> current_idx d s = ?i \<longrightarrow> ?i = 0"
      unfolding ok_on_def run_ok_def Let_def by blast
    have n: "tid t \<noteq> ps_src q" using uniq t(1) assms(10) c by metis
    have "\<exists>t. task_at ?i ?s = Some t \<and> (\<not> idle_idx ?i \<longrightarrow> tstate t \<noteq> Ready) \<and> (\<forall>r. \<not> waits ?s t r)"
      using t w n by (cases "?i = j") (auto simp: task_at_upd)
    then show "(\<exists>t. task_at ?i ?s = Some t \<and> (\<not> idle_idx ?i \<longrightarrow> tstate t \<noteq> Ready) \<and> (\<forall>r. \<not> waits ?s t r)) \<and>
        (idle_idx ?i \<longrightarrow> ?i = 0 \<or> ?i = idle_slot c) \<and> (\<forall>d \<in> C. d \<noteq> c \<longrightarrow> current_idx d s = ?i \<longrightarrow> ?i = 0)"
      using t by blast
  qed
  ultimately show ?thesis using b by (simp add: ok_on_def)
qed

section \<open>Messages\<close>

lemma keeps_wake [simp]:
  "keeps (\<lambda>t. t\<lparr>recv_blocked := b, tstate := x\<rparr>)" "keeps (\<lambda>t. t\<lparr>send_full_wait := w, tstate := x\<rparr>)"
  "keeps (\<lambda>t. t\<lparr>recv_blocked := b, recv_filter := f, recv_buf := p, tstate := x\<rparr>)"
  "keeps (\<lambda>t. t\<lparr>sleep_deadline := d\<rparr>)" "keeps (\<lambda>t. t\<lparr>irq_wait := q\<rparr>)" "keeps (\<lambda>t. t\<lparr>regions := rs\<rparr>)"
  "keeps (\<lambda>t. t\<lparr>priority := pr\<rparr>)"
  by (simp_all add: keeps_def)

lemma deliver_ok:
  assumes "deliver cpu i src msg s = Some s'" "ok_on C s" "task_at i s = Some t" "recv_blocked t"
  shows "ok_on C s' \<and> woken s' = woken s \<and> \<not> idle_idx i \<and> in_state i Ready s' \<and> (\<forall>c. current_idx c s' = current_idx c s)"
proof -
  obtain m where s': "s' = poke_idle_secondaries
      (upd_task i (\<lambda>t. t\<lparr>recv_blocked := False, tstate := Ready\<rparr>) (s\<lparr>mm := m\<rparr>))"
    using assms(1) by (auto simp: deliver_def split: Option.bind_splits)
  let ?s = "s\<lparr>mm := m\<rparr>"
  have o: "ok_on C ?s" using assms(2) by (subst ok_on_cong) auto
  have r: "waits ?s t Recv" using assms(4) by simp
  have "ok_on C (upd_task i (\<lambda>t. t\<lparr>recv_blocked := False, tstate := Ready\<rparr>) ?s)"
  proof (rule wake_ok [OF o _ r])
    show "waits ?s t r \<and> r \<noteq> Recv" if "waits ?s (t\<lparr>recv_blocked := False, tstate := Ready\<rparr>) r" for r
      using that by (cases r) auto
  qed (use assms(3) in auto)
  then show ?thesis
    using poke_ok waits_not_idle [OF o _ r, of i] assms(3) s'
    by (auto simp: in_state_iff task_at_cong [of "poke_idle_secondaries x" x for x] task_at_upd)
qed

lemma upd_task_commute: "i \<noteq> j \<Longrightarrow> upd_task i f (upd_task j g s) = upd_task j g (upd_task i f s)"
  by (simp add: upd_task_def task_at_def list_update_swap)

lemma current_idE:
  assumes "ok_on C s" "cpu \<in> C"
  obtains t where "task_at (current_idx cpu s) s = Some t" "current_id cpu s = tid t"
  using assms unfolding ok_on_def run_ok_def Let_def current_id_def by force

lemma put_queue_fold: "(\<lambda>t. t\<lparr>pending_senders := (pending_senders t)[k := p]\<rparr>) = put_queue k p"
  by (rule ext) (simp add: put_queue_def)

definition ret_ok :: "nat set \<Rightarrow> 'a outcome \<Rightarrow> kstate \<Rightarrow> bool" where
  "ret_ok C r s \<longleftrightarrow> ok_on C s \<and> (case r of Switched \<Rightarrow> woken s = None | Ret _ \<Rightarrow> woken_ok s)"

lemma ret_okI: "ok_on C s \<Longrightarrow> woken s = None \<Longrightarrow> ret_ok C r s"
  by (auto simp: ret_ok_def woken_ok_def split: outcome.splits)

lemma sys_send_ok:
  assumes "sys_send cpu dst msg s = Some (r, s')" "ok_on C s" "cpu \<in> C" "cpu < MAX_CPUS" "woken s = None"
    and "\<not> idle_idx (current_idx cpu s)"
  shows "ret_ok C r s'"
proof -
  let ?i = "current_idx cpu s" and ?me = "current_id cpu s"
  obtain mt where mt: "task_at ?i s = Some mt" "?me = tid mt" by (rule current_idE [OF assms(2,3)])
  show ?thesis
  proof (cases "s' = s")
    case True
    then show ?thesis using assms by (simp add: ret_okI)
  next
    case False
    then obtain j t where j: "dst \<noteq> ?me" "task_idx dst s = Some j" "task_at j s = Some t"
      using assms(1) by (auto simp: sys_send_def Let_def split: if_splits option.splits Option.bind_splits)
    have tj: "tid t = dst" using task_idx_Some [OF j(2)] j(3) by auto
    then have ij: "j \<noteq> ?i" using j(1,3) mt by auto
    consider (dir) s1 where "recv_blocked t" "deliver cpu j ?me msg s = Some s1" "s' = set_woken j s1" "r = Ret 0"
      | (full) ss where "r = Switched" "switch_away cpu ?i
          (upd_task ?i (\<lambda>t. t\<lparr>send_full_wait := Some ss, tstate := Blocked\<rparr>) s) = Some s'"
      | (queue) k m where "r = Switched" "free_slot (pending_senders t) = Some k"
          "switch_away cpu ?i (set_state ?i Blocked
             (upd_task j (put_queue k (Some \<lparr>ps_src = ?me, ps_msg = m\<rparr>)) s)) = Some s'"
      using assms(1) j
      by (auto simp: sys_send_def Let_def put_queue_fold split: if_splits option.splits Option.bind_splits)
    then show ?thesis
    proof cases
      case dir
      have "ok_on C s'" using deliver_ok [OF dir(2) assms(2) j(3) dir(1)] dir(3)
        by (subst ok_on_cong [of s' s1]) (auto simp: set_woken_def)
      moreover have "woken_ok s'"
        using deliver_ok [OF dir(2) assms(2) j(3) dir(1)] dir(3) by (auto simp: set_woken_def woken_ok_def in_state_def)
      ultimately show ?thesis using dir(4) by (simp add: ret_ok_def)
    next
      case full
      have "ok_on (C - {cpu}) (upd_task ?i (\<lambda>t. t\<lparr>send_full_wait := Some ss, tstate := Blocked\<rparr>) s)"
      proof (rule park_ok [OF assms(2,3,6)])
        show "waits s t r \<or> r = Full" if "waits s (t\<lparr>send_full_wait := Some ss, tstate := Blocked\<rparr>) r" for t r
          using that by (cases r) auto
      qed auto
      from switch_away_ok [OF full(2) this assms(4)] show ?thesis using full(1) assms(5) by (simp add: ret_okI)
    next
      case queue
      let ?s = "set_state ?i Blocked s" and ?q = "\<lparr>ps_src = ?me, ps_msg = m\<rparr>"
      have "ok_on (C - {cpu}) ?s" unfolding set_state_def
        by (rule park_ok [OF assms(2,3,6), where rsn = Full]) auto
      moreover have "task_at j ?s = Some t" using ij j(3) by (simp add: task_at_set_state)
      moreover have k: "k < length (pending_senders t)" "pending_senders t ! k = None" using queue(2) by (auto simp: free_slot_Some)
      moreover have "queue_at ?s j k = None" using \<open>task_at j ?s = Some t\<close> k by (simp add: queue_at_def)
      moreover have "task_at ?i ?s = Some (mt\<lparr>tstate := Blocked\<rparr>)" using mt by (simp add: task_at_set_state)
      moreover have "\<not> waits ?s (mt\<lparr>tstate := Blocked\<rparr>) r" for r
        using current_waits [OF assms(2,3) mt(1)] by (simp add: set_state_def waits_upd)
      moreover have "current_idx c ?s \<noteq> ?i" if "c \<in> C - {cpu}" for c
        using assms(2,3,6) that unfolding ok_on_def run_ok_def Let_def by (metis Diff_iff idle_idx_def insertI1 set_state_sel(7))
      ultimately have "ok_on (C - {cpu}) (upd_task j (put_queue k (Some ?q)) ?s)"
        using assms(6) mt(2) by (intro enqueue_ok [where i = ?i and me = "mt\<lparr>tstate := Blocked\<rparr>"]) auto
      then have "ok_on (C - {cpu}) (set_state ?i Blocked (upd_task j (put_queue k (Some ?q)) s))"
        using ij by (simp add: set_state_def upd_task_commute)
      from switch_away_ok [OF queue(3) this assms(4)] show ?thesis using queue(1) assms(5) by (simp add: ret_okI)
    qed
  qed
qed

lemma receive_pending_ok:
  assumes "receive_pending cpu i k p out s = Some (r, s')" "ok_on C s" "woken s = None"
    and "task_at i s = Some t" "k < length (pending_senders t)" "pending_senders t ! k = Some p"
  shows "ret_ok C r s'"
proof -
  let ?s = "upd_task i (put_queue k None) s"
  obtain m where m: "r = Ret (sint (ps_src p))" "s' = (case task_idx (ps_src p) (?s\<lparr>mm := m\<rparr>) of None \<Rightarrow> ?s\<lparr>mm := m\<rparr>
      | Some j \<Rightarrow> if in_state j Zombie (?s\<lparr>mm := m\<rparr>) then ?s\<lparr>mm := m\<rparr>
                   else poke_idle_secondaries (set_woken j (set_state j Ready (?s\<lparr>mm := m\<rparr>))))"
    using assms(1) by (auto simp: receive_pending_def Let_def put_queue_fold split: Option.bind_splits)
  let ?m = "?s\<lparr>mm := m\<rparr>"
  have "ok_on C ?s" by (rule dequeue_ok [OF assms(2,4,5)])
  then have o: "ok_on C ?m" by (subst ok_on_cong) auto
  have wm: "woken ?m = None" using assms(3) by simp
  show ?thesis
  proof (cases "s' = ?m")
    case True
    then show ?thesis using o wm by (simp add: ret_okI)
  next
    case False
    then obtain j where j: "task_idx (ps_src p) ?m = Some j"
        "s' = poke_idle_secondaries (set_woken j (set_state j Ready ?m))"
      using m(2) by (auto split: option.splits if_splits)
    obtain u where u: "task_at j ?m = Some u" "tid u = ps_src p" using task_idx_Some [OF j(1)] by blast
    obtain u' where u': "task_at j s = Some u'" "tid u' = ps_src p" "\<And>r. waits s u r = waits s u' r"
      using u by (cases "j = i") (auto simp: task_at_upd)
    have q: "waits s u' (Queued i k)" using assms(4,5,6) u' by (simp add: queue_at_def)
    have nw: "\<not> waits ?m u r" for r
    proof
      assume r: "waits ?m u r"
      then have "waits ?s u r" by (simp add: waits_cong [of ?m ?s])
      then have "r \<noteq> Queued i k" "waits s u' r" using u' by (auto simp: waits_put [OF assms(4,5)] split: if_splits)
      then show False using assms(2) u' q unfolding ok_on_def waits_ok_def by metis
    qed
    have nc: "current_idx c s \<noteq> j" if "c \<in> C" for c using current_waits [OF assms(2) that, of u' "Queued i k"] q u'(1) by auto
    have "ok_on C (set_state j Ready ?m)" unfolding set_state_def
      by (rule ok_on_upd [OF o]) (use u nw nc in auto)
    then have "ok_on C s'" unfolding j(2) by (intro poke_ok) (subst ok_on_cong, auto simp: set_woken_def)
    moreover have "woken_ok s'" using waits_not_idle [OF assms(2) u'(1) q] u
      by (auto simp: woken_ok_def j(2) set_woken_def in_state_iff task_at_cong [of "poke_idle_secondaries x" x for x] task_at_set_state)
    ultimately show ?thesis using m(1) by (simp add: ret_ok_def)
  qed
qed

lemma receive_staged_ok:
  assumes "receive_staged cpu i ss out s = Some (r, s')" "ok_on C s" "task_at i s = Some t" "send_full_wait t = Some ss"
  shows "ret_ok C r s'"
proof -
  obtain m where m: "r = Ret (sint (ss_src ss))" "s' = poke_idle_secondaries (set_woken i
      (upd_task i (\<lambda>t. t\<lparr>send_full_wait := None, tstate := Ready\<rparr>) (s\<lparr>mm := m\<rparr>)))"
    using assms(1) by (auto simp: receive_staged_def Let_def split: Option.bind_splits)
  let ?s = "s\<lparr>mm := m\<rparr>"
  have o: "ok_on C ?s" using assms(2) by (subst ok_on_cong) auto
  have r: "waits ?s t Full" using assms(4) by simp
  have "ok_on C (upd_task i (\<lambda>t. t\<lparr>send_full_wait := None, tstate := Ready\<rparr>) ?s)"
  proof (rule wake_ok [OF o _ r])
    show "waits ?s t r \<and> r \<noteq> Full" if "waits ?s (t\<lparr>send_full_wait := None, tstate := Ready\<rparr>) r" for r
      using that by (cases r) auto
  qed (use assms(3) in auto)
  then have "ok_on C s'" unfolding m(2) by (intro poke_ok) (subst ok_on_cong, auto simp: set_woken_def)
  moreover have "woken_ok s'" using waits_not_idle [OF o _ r, of i] assms(3)
    by (auto simp: woken_ok_def m(2) set_woken_def in_state_iff task_at_cong [of "poke_idle_secondaries x" x for x] task_at_upd)
  ultimately show ?thesis using m(1) by (simp add: ret_ok_def)
qed

lemma sys_receive_ok:
  assumes "sys_receive cpu filt out s = Some (r, s')" "ok_on C s" "cpu \<in> C" "cpu < MAX_CPUS" "woken s = None"
    and "\<not> idle_idx (current_idx cpu s)"
  shows "ret_ok C r s'"
proof -
  let ?i = "current_idx cpu s"
  obtain me where me: "task_at ?i s = Some me" by (rule current_idE [OF assms(2,3)])
  consider (pend) k p where "find_idx (pending_match filt) (pending_senders me) = Some k" "pending_senders me ! k = Some p"
      "receive_pending cpu ?i k p out s = Some (r, s')"
    | (staged) j t ss where "task_at j s = Some t" "send_full_wait t = Some ss" "receive_staged cpu j ss out s = Some (r, s')"
    | (block) "r = Switched" "switch_away cpu ?i (upd_task ?i (\<lambda>t. t\<lparr>recv_blocked := True, recv_filter := filt,
        recv_buf := out, tstate := Blocked\<rparr>) s) = Some s'"
    using assms(1) me by (auto simp: sys_receive_def Let_def split: option.splits Option.bind_splits)
  then show ?thesis
  proof cases
    case pend
    from receive_pending_ok [OF pend(3) assms(2,5) me find_idx_lt [OF pend(1)] pend(2)] show ?thesis .
  next
    case staged
    from receive_staged_ok [OF staged(3) assms(2) staged(1,2)] show ?thesis .
  next
    case block
    have "ok_on (C - {cpu}) (upd_task ?i (\<lambda>t. t\<lparr>recv_blocked := True, recv_filter := filt,
        recv_buf := out, tstate := Blocked\<rparr>) s)"
    proof (rule park_ok [OF assms(2,3,6)])
      show "waits s t r \<or> r = Recv" if "waits s (t\<lparr>recv_blocked := True, recv_filter := filt, recv_buf := out,
          tstate := Blocked\<rparr>) r" for t r
        using that by (cases r) auto
    qed auto
    from switch_away_ok [OF block(2) this assms(4)] show ?thesis using block(1) assms(5) by (simp add: ret_okI)
  qed
qed

lemma sys_sleep_ok:
  assumes "sys_sleep cpu ms s = Some (r, s')" "ok_on C s" "cpu \<in> C" "cpu < MAX_CPUS" "woken s = None"
    and "\<not> idle_idx (current_idx cpu s)"
  shows "ret_ok C r s'"
proof -
  let ?i = "current_idx cpu s" and ?d = "saturating_add (ticks s) (max 1 (min 60000 (unat ms)))"
  have sw: "switch_away cpu ?i (upd_task ?i (\<lambda>t. t\<lparr>sleep_deadline := ?d, tstate := Blocked\<rparr>) s) = Some s'" "r = Switched"
    using assms(1) by (auto simp: sys_sleep_def Let_def set_state_def upd_task_def task_at_def option.map_comp o_def
        split: Option.bind_splits if_splits)
  have "ok_on (C - {cpu}) (upd_task ?i (\<lambda>t. t\<lparr>sleep_deadline := ?d, tstate := Blocked\<rparr>) s)"
  proof (rule park_ok [OF assms(2,3,6)])
    show "keeps (\<lambda>t. t\<lparr>sleep_deadline := ?d, tstate := Blocked\<rparr>)" by (simp add: keeps_def)
    show "waits s t r \<or> r = Asleep" if "waits s (t\<lparr>sleep_deadline := ?d, tstate := Blocked\<rparr>) r" for t r
      using that by (cases r) auto
  qed auto
  from switch_away_ok [OF sw(1) this assms(4)] show ?thesis using sw(2) assms(5) by (simp add: ret_okI)
qed

section \<open>Creating and ending tasks\<close>

lemma idle_id_neq: "c < MAX_CPUS \<Longrightarrow> x \<noteq> 0 \<Longrightarrow> unat x \<le> MAX_TASKS \<Longrightarrow> x \<noteq> idle_id c" for x :: u32
proof
  assume c: "c < MAX_CPUS" and x: "x \<noteq> 0" "unat x \<le> MAX_TASKS" "x = idle_id c"
  have "c \<noteq> 0" using x(1,3) by (cases "c = 0") (auto simp: idle_id_def)
  moreover have "c = 0 \<or> c = 1 \<or> c = 2 \<or> c = 3" using c by linarith
  ultimately have "x = 0x40000001 \<or> x = 0x40000002 \<or> x = 0x40000003" using x(3) by (auto simp: idle_id_def)
  then show False using x(2) by auto
qed

lemma fresh_id:
  assumes "base_ok s"
  shows "next_id s \<notin> used_ids s"
proof
  assume "next_id s \<in> used_ids s"
  then obtain i t where t: "task_at i s = Some t" "tid t = next_id s" by (auto simp: used_ids_def)
  show False
  proof (cases "idle_idx i")
    case True
    then obtain c where "c < MAX_CPUS" "i = idle_slot c" using idle_idxE by blast
    then have "tid t = idle_id c" using assms t unfolding base_ok_def by (metis option.inject)
    moreover have "next_id s \<noteq> 0" "unat (next_id s) \<le> MAX_TASKS" using assms by (simp_all add: base_ok_def)
    ultimately show False using idle_id_neq [OF \<open>c < MAX_CPUS\<close>, of "next_id s"] t(2) by simp
  next
    case False
    then have "tid t < next_id s" using assms t(1) unfolding base_ok_def by blast
    then show False using t(2) by simp
  qed
qed

lemma filter_none_fill:
  assumes "i < length xs" "xs ! i = None"
  shows "length (filter (\<lambda>x. x = None) (xs[i := Some t])) + 1 = length (filter (\<lambda>x. x = None) xs)"
  using assms by (induction xs arbitrary: i) (auto simp: less_Suc_eq_0_disj)

definition add_task :: "nat \<Rightarrow> task \<Rightarrow> kstate \<Rightarrow> kstate" where
  "add_task i t s = s\<lparr>next_id := next_id s + 1, tasks := (tasks s)[i := Some t]\<rparr>"

lemma task_at_add: "i < length (tasks s) \<Longrightarrow> task_at j (add_task i t s) = (if j = i then Some t else task_at j s)"
  by (auto simp: add_task_def task_at_def)

lemma add_task_ok:
  assumes "ok_on C s" "i < MAX_TASKS" "task_at i s = None" "u32_inc (next_id s) = Some nid"
    and "tid t = next_id s" "tstate t = Ready" "\<not> recv_blocked t" "send_full_wait t = None" "sleep_deadline t = 0"
    and "pending_senders t = replicate n None"
  shows "ok_on C (add_task i t s) \<and> \<not> idle_idx i \<and> (\<forall>c. current_idx c (add_task i t s) = current_idx c s)"
proof -
  let ?s = "add_task i t s"
  note b = assms(1) [unfolded ok_on_def, THEN conjunct1]
  note b' = b [unfolded base_ok_def]
  have len: "length (tasks s) = MAX_TASKS" using b' by simp
  note ta = task_at_add [of i s _ t, unfolded len, OF assms(2)]
  have cur: "current_idx c ?s = current_idx c s" for c by (simp add: add_task_def current_idx_def)
  have ni: "\<not> idle_idx i" using idle_idxE [of i] b' assms(3) by force
  have old: "task_at j s = Some u \<Longrightarrow> j \<noteq> i" for j u using assms(3) by auto
  have q: "queue_at ?s j k = queue_at s j k" for j k
    using assms(3,10) by (auto simp: queue_at_def ta split: option.splits)
  have w: "waits ?s u r = waits s u r" for u r by (cases r) (auto simp: q)
  have fresh: "next_id s \<notin> used_ids s" by (rule fresh_id [OF b])
  have nw: "\<not> waits s t r" for r
  proof (cases r)
    case (Queued j k)
    then show ?thesis using b' fresh assms(5) by force
  qed (use assms(7,8,9) in auto)
  have ids: "used_ids ?s = insert (next_id s) (used_ids s)"
    using old assms(5) unfolding used_ids_def by (auto simp: ta)
  have nid: "next_id ?s = next_id s + 1" "unat (next_id ?s) = unat (next_id s) + 1"
    using u32_inc_Some [OF assms(4)] by (auto simp: add_task_def)
  have lt: "x < next_id s \<Longrightarrow> x < next_id ?s" for x
    using nid(2) by (simp add: word_less_nat_alt)
  have "base_ok ?s"
    unfolding base_ok_def
  proof (intro conjI allI impI)
    show "length (tasks ?s) = MAX_TASKS" using len by (simp add: add_task_def)
    show "\<exists>t. task_at (idle_slot c) ?s = Some t \<and> cpu_affinity t = Some c \<and> tid t = idle_id c" if "c < MAX_CPUS" for c
      using b' that ni idle_idx_slot [OF that] by (auto simp: ta)
    have *: "tid u \<noteq> 0 \<and> tid u < next_id ?s" if "task_at j ?s = Some u" "\<not> idle_idx j" for j u
    proof (cases "j = i")
      case True
      then show ?thesis using that b' assms(5) nid(2) by (simp add: ta word_less_nat_alt)
    next
      case False
      then have "task_at j s = Some u" using that by (simp add: ta)
      then have "tid u \<noteq> 0 \<and> tid u < next_id s" using b' that(2) by blast
      then show ?thesis using lt by simp
    qed
    show "tid u \<noteq> 0" "tid u < next_id ?s" if "task_at j ?s = Some u" "\<not> idle_idx j" for j u
      using * [OF that] by simp_all
    show "j = k" if "task_at j ?s = Some u" "task_at k ?s = Some v" "tid u = tid v" for j k u v
    proof -
      have f: "tid x \<noteq> next_id s" if "task_at l s = Some x" for l x using fresh that by (auto simp: used_ids_def)
      show ?thesis
      proof (cases "j = i \<or> k = i")
        case True
        then show ?thesis using that f assms(5) by (auto simp: ta split: if_splits)
      next
        case False
        then have "task_at j s = Some u" "task_at k s = Some v" using that by (auto simp: ta)
        then show ?thesis using b' that(3) by blast
      qed
    qed
    show "next_id ?s \<noteq> 0" using nid(2) by auto
    have "length (filter (\<lambda>x. x = None) (tasks ?s)) + 1 = length (filter (\<lambda>x. x = None) (tasks s))"
      using filter_none_fill [of i "tasks s" t] assms(2,3) len by (simp add: task_at_def add_task_def)
    then show "unat (next_id ?s) + length (filter (\<lambda>x. x = None) (tasks ?s)) \<le> MAX_TASKS" using nid(2) b' by simp
    show "ps_src p \<in> used_ids ?s" if "queue_at ?s j k = Some p" for j k p using that b' ids by (auto simp: q)
  qed
  moreover have "waits_ok ?s"
    using assms(1) nw unfolding ok_on_def waits_ok_def w by (auto simp: ta split: if_splits)
  moreover have "run_ok C ?s"
    unfolding run_ok_def Let_def w cur
  proof (intro ballI)
    fix c assume "c \<in> C"
    with assms(1) old show "(\<exists>u. task_at (current_idx c s) ?s = Some u \<and> (\<not> idle_idx (current_idx c s) \<longrightarrow> tstate u \<noteq> Ready) \<and>
        (\<forall>r. \<not> waits s u r)) \<and> (idle_idx (current_idx c s) \<longrightarrow> current_idx c s = 0 \<or> current_idx c s = idle_slot c) \<and>
        (\<forall>d \<in> C. d \<noteq> c \<longrightarrow> current_idx d s = current_idx c s \<longrightarrow> current_idx c s = 0)"
      unfolding ok_on_def run_ok_def Let_def by (fastforce simp: ta)
  qed
  ultimately show ?thesis using ni cur by (simp add: ok_on_def)
qed

lemma spawn_user_ok:
  assumes "spawn_user name entry_fn ttbr sp0 kst binfo bt ibase iend s = Some (r, s')" "ok_on C s" "woken_ok s"
  shows "ok_on C s' \<and> woken_ok s' \<and> (\<forall>c. current_idx c s' = current_idx c s)"
proof (cases r)
  case None
  then have "s' = s" using assms(1) by (auto simp: spawn_user_def Let_def split: option.splits Option.bind_splits)
  then show ?thesis using assms by simp
next
  case (Some pid)
  then obtain k nid where k: "find_idx (\<lambda>i. task_at i s = None) [1..<MAX_TASKS] = Some k" "u32_inc (next_id s) = Some nid"
    using assms(1) by (auto simp: spawn_user_def Let_def split: option.splits Option.bind_splits)
  let ?i = "[1..<MAX_TASKS] ! k" and ?b = "bt\<lparr>boot_task_id := next_id s\<rparr>"
  let ?t = "(task_new (next_id s) name 0 0 (mm s))\<lparr>boot := ?b, task_ttbr0 := ttbr, image_base := ibase,
      image_end := iend, tctx := context_new_user entry_fn sp0 ttbr kst binfo\<rparr>"
  have i: "?i < MAX_TASKS" "task_at ?i s = None" using k(1) by (auto simp: find_idx_Some)
  have s': "s' = (add_task ?i ?t s)\<lparr>mm := write_boot_info binfo ?b (mm s), woken := Some ?i\<rparr>"
    using assms(1) k u32_inc_Some [OF k(2)] by (auto simp: spawn_user_def Let_def add_task_def)
  have a: "ok_on C (add_task ?i ?t s) \<and> \<not> idle_idx ?i \<and> (\<forall>c. current_idx c (add_task ?i ?t s) = current_idx c s)"
    using i k(2) by (intro add_task_ok [OF assms(2)]) (auto simp: task_new_def)
  have "ok_on C s'" using a unfolding s' by (subst ok_on_cong [of _ "add_task ?i ?t s"]) auto
  moreover have "length (tasks s) = MAX_TASKS" using assms(2) by (simp add: ok_on_def base_ok_def)
  then have "in_state ?i Ready s'" using i unfolding s' by (simp add: in_state_iff task_at_add task_new_def)
  ultimately show ?thesis using a by (auto simp: woken_ok_def s')
qed

lemma push_region_slot_ok:
  assumes "push_region_slot i kind base n s = Some (b, s')" "ok_on C s" "woken_ok s"
  shows "ok_on C s' \<and> woken_ok s' \<and> woken s' = woken s \<and> (\<forall>c. current_idx c s' = current_idx c s)"
proof -
  consider "s' = s" | rs where "s' = upd_task i (\<lambda>t. t\<lparr>regions := rs\<rparr>) s"
    using assms(1) by (auto simp: push_region_slot_def split: option.splits Option.bind_splits)
  then show ?thesis
  proof cases
    case 2
    have "ok_on C s'" unfolding 2 by (rule ok_on_upd_quiet [OF assms(2)]) auto
    then show ?thesis using assms(3) by (auto simp: 2 woken_ok_def in_state_iff task_at_upd)
  qed (use assms in simp)
qed

lemma set_priority_ok:
  "ok_on C s \<Longrightarrow> woken_ok s \<Longrightarrow> ok_on C (set_priority pid p s) \<and> woken_ok (set_priority pid p s) \<and>
    (\<forall>c. current_idx c (set_priority pid p s) = current_idx c s)"
  unfolding set_priority_def upd_task_by_id_def
  by (auto split: option.splits simp: woken_ok_def in_state_iff task_at_upd intro!: ok_on_upd_quiet)

lemma register_server_ok:
  assumes "register_server name pid w s = Some s'" "ok_on C s" "woken_ok s"
  shows "ok_on C s' \<and> woken_ok s' \<and> (\<forall>c. current_idx c s' = current_idx c s)"
proof -
  obtain b s1 p where 1: "push_region_for pid REGION_STACK w (USER_STACK_SIZE div PAGE_SIZE) s = Some (b, s1)"
      "s' = set_priority pid p s1"
    using assms(1) by (auto simp: register_server_def Let_def split: Option.bind_splits)
  have "ok_on C s1 \<and> woken_ok s1 \<and> (\<forall>c. current_idx c s1 = current_idx c s)"
    using 1(1) assms push_region_slot_ok unfolding push_region_for_def by (auto split: if_splits option.splits)
  then show ?thesis unfolding 1(2) using set_priority_ok by auto
qed

lemma mm_ok: "ok_on C s \<Longrightarrow> woken_ok s \<Longrightarrow> ok_on C (s\<lparr>mm := m\<rparr>) \<and> woken_ok (s\<lparr>mm := m\<rparr>) \<and>
    (\<forall>c. current_idx c (s\<lparr>mm := m\<rparr>) = current_idx c s)"
  by (auto simp: woken_ok_def in_state_def ok_on_cong [of "s\<lparr>mm := m\<rparr>" s])

lemma spawn_by_name_ok:
  assumes "spawn_by_name_locked mach bins name s = Some (r, s')" "ok_on C s" "woken_ok s"
  shows "ok_on C s' \<and> woken_ok s' \<and> (\<forall>c. current_idx c s' = current_idx c s)"
proof -
  consider "s' = s" | m where "s' = s\<lparr>mm := m\<rparr>"
    | m r1 ent root ue lim bp b base ie where
        "spawn_user name ent root ue lim bp b base ie (s\<lparr>mm := m\<rparr>) = Some (r1, s')"
    | m r1 ent root ue lim bp b base ie s1 pid where
        "spawn_user name ent root ue lim bp b base ie (s\<lparr>mm := m\<rparr>) = Some (r1, s1)"
        "register_server name pid (bp + PAGE_SIZE) s1 = Some s'"
    using assms(1) unfolding spawn_by_name_locked_def spawn_server_user_locked_def Let_def
    by (auto split: option.splits sum.splits if_splits Option.bind_splits)
  then show ?thesis
  proof cases
    case 2
    then show ?thesis using mm_ok assms by simp
  next
    case 3
    from spawn_user_ok [OF 3] mm_ok assms show ?thesis by auto
  next
    case 4
    from spawn_user_ok [OF 4(1)] mm_ok assms have "ok_on C s1 \<and> woken_ok s1 \<and> (\<forall>c. current_idx c s1 = current_idx c s)"
      by auto
    then show ?thesis using register_server_ok [OF 4(2)] by auto
  qed (use assms in simp)
qed

section \<open>The dispatcher\<close>

text \<open>A call that leaves the task table, the current slots and the hand-over alone keeps the invariant.\<close>

definition quiet :: "kstate \<Rightarrow> kstate \<Rightarrow> bool" where
  "quiet s s' \<longleftrightarrow> tasks s' = tasks s \<and> next_id s' = next_id s \<and> cpus s' = cpus s \<and> woken s' = woken s"

definition call_ok :: "nat set \<Rightarrow> ('a outcome \<times> kstate) option \<Rightarrow> bool" where
  "call_ok C x \<longleftrightarrow> (\<forall>r s'. x = Some (r, s') \<longrightarrow> ret_ok C r s')"

lemma quiet_ok: "quiet s s' \<Longrightarrow> ok_on C s \<Longrightarrow> ok_on C s'"
  unfolding quiet_def by (subst ok_on_cong [of s' s]) (auto simp: current_idx_def)

lemma quiet_ret: "quiet s s' \<Longrightarrow> ok_on C s \<Longrightarrow> woken s = None \<Longrightarrow> ret_ok C r s'"
  by (rule ret_okI [OF quiet_ok]) (auto simp: quiet_def)

lemma quiet_intros [simp]:
  "quiet s s" "quiet s (s\<lparr>mm := m\<rparr>)" "quiet s (s\<lparr>mm := m, sec := w\<rparr>)" "quiet s (s\<lparr>irq_bits := b\<rparr>)"
  "quiet s ((enable_irq irq s)\<lparr>irq_bits := b\<rparr>)"
  by (simp_all add: quiet_def enable_irq_def)

lemma map_into_task_quiet: "map_into_task pid base sz flags s = Some (r, s') \<Longrightarrow> quiet s s'"
  by (auto simp: map_into_task_def split: option.splits if_splits Option.bind_splits)

lemma smc6_quiet: "quiet s (snd (smc6 env fn a0 a1 a2 a3 a4 s))"
  by (simp add: smc6_def split: prod.split)

lemma memory_quiet:
  "sys_alloc_frames cpu n s = Some (u, s') \<Longrightarrow> quiet s s'"
  "sys_free_frames cpu a n s = Some (r, s') \<Longrightarrow> quiet s s'"
  "sys_map_device env cpu a k s = Some (r, s') \<Longrightarrow> quiet s s'"
  "sys_map_cap env cpu a s = Some (u, s') \<Longrightarrow> quiet s s'"
  "sys_map_cow a n pid s = Some (r, s') \<Longrightarrow> quiet s s'"
  "sys_share_frames a n pid s = Some (r, s') \<Longrightarrow> quiet s s'"
  "sys_unshare_frames a n pid s = Some (r, s') \<Longrightarrow> quiet s s'"
  unfolding sys_alloc_frames_def sys_free_frames_def sys_map_device_def sys_map_cap_def sys_map_cow_def
    sys_share_frames_def sys_unshare_frames_def Let_def
  by (auto split: if_splits option.splits Option.bind_splits prod.splits dest: map_into_task_quiet)

lemma quiet_trans: "quiet s s1 \<Longrightarrow> quiet s1 s2 \<Longrightarrow> quiet s s2"
  by (simp add: quiet_def)

lemma secure_quiet:
  "quiet s (snd (smc env fn a0 a1 a2 s))" "quiet s (snd (sys_attest env cpu a0 a1 s))"
  "keybox_call env fn a0 a1 a2 s = Some (u, s') \<Longrightarrow> quiet s s'"
  "sec_storage_call env cpu put a0 a1 a2 s = Some (u, s') \<Longrightarrow> quiet s s'"
proof -
  show 1: "quiet s (snd (smc env fn a0 a1 a2 s))" for fn a0 a1 a2 s by (simp add: smc_def smc6_quiet)
  show "quiet s (snd (sys_attest env cpu a0 a1 s))"
    by (simp add: sys_attest_def smc6_quiet split: prod.split)
  show "keybox_call env fn a0 a1 a2 s = Some (u, s') \<Longrightarrow> quiet s s'"
    using 1 [of s fn a0 a1 a2] by (auto simp: keybox_call_def split: if_splits)
  show "quiet s s'" if "sec_storage_call env cpu put a0 a1 a2 s = Some (u, s')"
  proof -
    have 2: "quiet s (snd (smc env f x y z (s\<lparr>mm := m\<rparr>)))" for f x y z m
      using quiet_trans [OF _ 1] by simp
    show ?thesis using that unfolding sec_storage_call_def Let_def
      by (auto split: if_splits Option.bind_splits) (metis 2 snd_conv)+
  qed
qed

lemma irq_quiet: "quiet s (snd (sys_irq_pending irq s))"
  by (simp add: sys_irq_pending_def Let_def enable_irq_def quiet_def split: prod.split)

lemma call_ok_if: "call_ok C x \<Longrightarrow> call_ok C y \<Longrightarrow> call_ok C (if b then x else y)"
  by simp

lemma call_ok_ret:
  "(\<And>r s'. x = Some (r, s') \<Longrightarrow> ok_on C s' \<and> woken_ok s') \<Longrightarrow> call_ok C (ret_i32 x)"
  "(\<And>r s'. y = Some (r, s') \<Longrightarrow> ok_on C s' \<and> woken_ok s') \<Longrightarrow> call_ok C (ret_of y)"
  by (auto simp: call_ok_def ret_ok_def ret_i32_def ret_of_def)

lemma ret_ok_map [simp]: "ret_ok C (map_ret f r) s = ret_ok C r s"
  by (simp add: ret_ok_def map_ret_def split: outcome.split)

lemma call_ok_out: "(\<And>r s'. x = Some (r, s') \<Longrightarrow> ret_ok C r s') \<Longrightarrow> call_ok C (out_i32 x)"
  by (auto simp: call_ok_def out_i32_def)

lemma sys_spawn_ok:
  "sys_spawn env cpu name s = Some (r, s') \<Longrightarrow> ok_on C s \<Longrightarrow> woken_ok s \<Longrightarrow> ok_on C s' \<and> woken_ok s'"
  unfolding sys_spawn_def by (auto split: Option.bind_splits option.splits dest: spawn_by_name_ok)

lemma sys_exec_ok:
  assumes "sys_exec env cpu name s = Some (r, s')" "ok_on C s" "woken s = None"
  shows "ok_on C s' \<and> woken_ok s'"
proof -
  have "s' = s \<or> (\<exists>nm x s1. spawn_by_name_locked (env_machine env) (env_bins env) nm s1 = Some (x, s') \<and>
      (s1 = s \<or> (\<exists>pid b. kill_task_locked cpu pid s = Some (b, s1))))"
    using assms(1) unfolding sys_exec_def by (auto split: Option.bind_splits option.splits)
  then consider "s' = s" | nm x s1 where "spawn_by_name_locked (env_machine env) (env_bins env) nm s1 = Some (x, s')"
      "s1 = s \<or> (\<exists>pid b. kill_task_locked cpu pid s = Some (b, s1))" by blast
  then show ?thesis
  proof cases
    case 2
    then have "ok_on C s1 \<and> woken s1 = None" using kill_task_locked_ok assms(2,3) by metis
    then have "ok_on C s1" "woken_ok s1" by (simp_all add: woken_ok_def)
    then show ?thesis using spawn_by_name_ok [OF 2(1)] by blast
  qed (use assms in \<open>simp add: woken_ok_def\<close>)
qed

lemma syscall_body_ok:
  assumes "ok_on C s" "cpu \<in> C" "cpu < MAX_CPUS" "woken s = None" "\<not> idle_idx (current_idx cpu s)"
  shows "call_ok C (syscall_body env cpu nr a0 a1 a2 s)"
proof -
  have q: "ok_on C s' \<and> woken_ok s'" if "quiet s s'" for s'
    using quiet_ok [OF that assms(1)] that assms(4) by (simp add: woken_ok_def quiet_def)
  have w: "woken_ok s" using assms(4) by (simp add: woken_ok_def)
  have qr: "call_ok C (ret_of x)" if "\<And>r s'. x = Some (r, s') \<Longrightarrow> quiet s s'" for x :: "(u64 \<times> kstate) option"
    using that q by (intro call_ok_ret) blast
  have qi: "call_ok C (ret_i32 x)" if "\<And>r s'. x = Some (r, s') \<Longrightarrow> quiet s s'" for x
    using that q by (intro call_ok_ret) blast
  have sm: "call_ok C (ret_of (Some x))" if "quiet s (snd x)" for x :: "u64 \<times> kstate"
    using that by (intro qr) (metis option.inject snd_conv)
  have exit_t: "ok_on C s' \<and> woken_ok s'" if "sys_exit_task cpu pid s = Some (r, s')" for pid r s'
    using that kill_task_locked_ok assms(1,4) unfolding sys_exit_task_def
    by (fastforce simp: woken_ok_def split: Option.bind_splits)
  have demand: "ok_on C s' \<and> woken_ok s'" if "sys_map_demand cpu va n s = Some (r, s')" for va n r s'
    using that push_region_slot_ok assms(1) w unfolding sys_map_demand_def push_current_region_def Let_def
    by (auto split: Option.bind_splits if_splits)
  note call = sys_send_ok sys_receive_ok sys_sleep_ok
  show ?thesis
    unfolding syscall_body_def
    apply (intro call_ok_if)
    subgoal by (rule call_ok_out) (rule sys_send_ok [OF _ assms])
    subgoal by (rule call_ok_out) (rule sys_receive_ok [OF _ assms])
    subgoal by (rule call_ok_ret) (rule sys_spawn_ok [OF _ assms(1) w])
    subgoal by (rule qi) auto
    subgoal by (rule call_ok_ret) (rule exit_t)
    subgoal using exit_current_ok assms by (auto simp: call_ok_def sys_exit_def ret_ok_def)
    subgoal by (rule qr) (rule memory_quiet)
    subgoal by (rule qi) (rule memory_quiet)
    subgoal by (rule qi) (rule memory_quiet)
    subgoal by (rule qi) (rule memory_quiet)
    subgoal by (rule call_ok_out) (rule sys_sleep_ok [OF _ assms])
    subgoal by (rule call_ok_ret) (rule sys_exec_ok [OF _ assms(1,4)])
    subgoal by (rule qi) (rule memory_quiet)
    subgoal by (rule call_ok_ret) (rule demand)
    subgoal by (rule qi) (rule memory_quiet)
    subgoal by (rule qr) (rule memory_quiet)
    subgoal by (rule qi) (metis irq_quiet option.inject snd_conv)
    subgoal by (rule sm) (simp add: sys_cache_sync_def)
    subgoal by (rule qr) (rule secure_quiet)
    subgoal by (rule qr) (rule secure_quiet)
    subgoal by (rule sm) (rule secure_quiet)
    subgoal by (rule qr) (rule secure_quiet)
    subgoal by (rule qr) (rule secure_quiet)
    subgoal by (rule sm) (rule secure_quiet)
    subgoal using assms by (auto simp: call_ok_def intro!: ret_okI)
    subgoal using assms by (auto simp: call_ok_def intro!: ret_okI)
    done
qed

lemma yield_ok:
  assumes "yield_cpu cpu s = Some s'" "ok_on C s" "cpu \<in> C" "cpu < MAX_CPUS"
  shows "ok_on C s' \<and> woken s' = woken s"
  using assms switch_best_ok unfolding yield_cpu_def by (auto split: Option.bind_splits)

lemma sys_wait_irq_ok:
  assumes "sys_wait_irq cpu irq s = (r, s')" "ok_on C s"
  shows "ok_on C s' \<and> woken s' = woken s"
proof -
  let ?s1 = "(enable_irq irq s)\<lparr>irq_bits := snd (take_pending irq (irq_bits (enable_irq irq s)))\<rparr>"
  let ?s2 = "upd_task (current_idx cpu ?s1) (\<lambda>t. t\<lparr>irq_wait := Some irq\<rparr>) ?s1"
  have "s' = s \<or> s' = ?s1 \<or> s' = ?s2"
    using assms(1) unfolding sys_wait_irq_def Let_def by (simp add: case_prod_beta split: if_splits)
  moreover have q: "quiet s ?s1" by simp
  then have o: "ok_on C ?s1" using quiet_ok assms(2) by blast
  then have "ok_on C ?s2" by (rule ok_on_upd_quiet) auto
  moreover have "woken ?s1 = woken s" "woken ?s2 = woken s" by (simp_all add: enable_irq_def)
  ultimately show ?thesis using o assms(2) by metis
qed

lemma tanix_syscall_ok:
  assumes "tanix_syscall env cpu nr a0 a1 a2 s = Some (r, s')"
    and "ok_on C s" "cpu \<in> C" "cpu < MAX_CPUS" "woken s = None" "\<not> idle_idx (current_idx cpu s)"
  shows "ok_on C s' \<and> woken s' = None"
proof -
  consider (irq) x where "sys_wait_irq cpu (ucast a0) s = (x, s')" | (yield) "yield_cpu cpu s = Some s'"
    | (sw) "syscall_body env cpu nr a0 a1 a2 s = Some (Switched, s')"
    | (tail) x s1 b where "syscall_body env cpu nr a0 a1 a2 s = Some (Ret x, s1)" "reschedule cpu s1 = Some (b, s')"
    using assms(1) unfolding tanix_syscall_def
    by (cases "sys_wait_irq cpu (ucast a0) s") (auto split: if_splits Option.bind_splits outcome.splits prod.splits)
  then show ?thesis
  proof cases
    case irq
    then show ?thesis using sys_wait_irq_ok assms by metis
  next
    case yield
    then show ?thesis using yield_ok assms by metis
  next
    case sw
    then show ?thesis using syscall_body_ok [OF assms(2-)] by (fastforce simp: call_ok_def ret_ok_def)
  next
    case tail
    then have "ok_on C s1" "woken_ok s1" using syscall_body_ok [OF assms(2-)] by (fastforce simp: call_ok_def ret_ok_def)+
    then show ?thesis using reschedule_ok [OF tail(2)] assms by blast
  qed
qed

end
