(* ===== verification/Sched_Fair.thy ===== *)
theory Sched_Fair
  imports Sched_Inv
begin

text \<open>
  What the scheduler's choices guarantee (\<^verbatim>\<open>kernel/src/sched/task.rs\<close>).

  The strict pick is the head of the ready slots sorted by priority and distance.  The tick rotates over all ready
  tasks whatever their priorities, so on the boot CPU every ready task gets the processor within 31 ticks.  On a
  secondary CPU the rotation includes the idle slot, whose loop picks by priority again: a task behind it waits forever.
\<close>

section \<open>What a pick and a switch see of a task\<close>

definition view :: "kstate \<Rightarrow> nat \<Rightarrow> (task_state \<times> u8 \<times> nat option) option" where
  "view s i = map_option (\<lambda>t. (tstate t, priority t, cpu_affinity t)) (task_at i s)"

lemma run_slot_view:
  assumes "task_at src s = Some a" "task_at dst s = Some b"
  shows "\<exists>s'. run_slot cpu src dst s = Some s' \<and> woken s' = woken s \<and>
    (\<forall>c. current_idx c s' = (if c = cpu then dst else current_idx c s)) \<and>
    view s' = (view s)(dst := Some (Running, priority b, cpu_affinity b))"
  using assms
  by (auto simp: run_slot_def context_switch_unlock_def Let_def view_def task_at_upd task_at_set_state fun_eq_iff)

lemma view_set_state: "view s i = Some (st, p, a) \<Longrightarrow> view (set_state i st' s) = (view s)(i := Some (st', p, a))"
  by (auto simp: view_def task_at_set_state fun_eq_iff)

lemma view_Some: "view s i = Some (st, p, a) \<Longrightarrow> \<exists>t. task_at i s = Some t \<and> tstate t = st \<and> priority t = p \<and> cpu_affinity t = a"
  by (auto simp: view_def)

lemma pick_next_view:
  assumes "0 < i" "i < MAX_TASKS" "view s i = Some (Ready, p, None)"
    and "\<And>j q a. j \<noteq> i \<Longrightarrow> view s j = Some (Ready, q, a) \<Longrightarrow> p < q"
  shows "pick_next cpu s = i"
proof -
  obtain t where t: "task_at i s = Some t" "runnable cpu t" "priority t = p"
    using view_Some [OF assms(3)] by (auto simp: runnable_def)
  have i: "i \<in> set slots" using assms(1,2) by (simp add: slots_def)
  from pick_next_cases [of cpu s] t i obtain u where u: "task_at (pick_next cpu s) s = Some u" "runnable cpu u"
      "\<not> better (current_idx cpu s) (priority t, i) (priority u, pick_next cpu s)" by blast
  have "view s (pick_next cpu s) = Some (Ready, priority u, cpu_affinity u)" using u(1,2) by (simp add: view_def runnable_def)
  then show ?thesis using assms(4) u(3) t(3) by (fastforce simp: better_def)
qed

section \<open>Tables at boot\<close>

definition secondary_idle :: "nat \<Rightarrow> task" where
  "secondary_idle cpu = task_idle\<lparr>tid := 0x40000000 + of_nat cpu, cpu_affinity := Some cpu,
     tname := bytes ''idle-cpu'' @ [of_nat (48 + cpu)] @ replicate 7 0\<rparr>"

lemma bring_up_sel:
  assumes "\<And>c. c \<in> {1, 2, 3} \<Longrightarrow> task_at (15 + c) s = None" "length (tasks s) = MAX_TASKS"
  shows "\<exists>s'. bring_up cpu_on s = Some s' \<and> next_id s' = next_id s \<and> woken s' = woken s \<and> mm s' = mm s \<and>
    tasks s' = (tasks s)[16 := Some (secondary_idle 1), 17 := Some (secondary_idle 2), 18 := Some (secondary_idle 3)] \<and>
    (\<forall>c. current_idx c s' = current_idx c s) \<and> live s' = live s"
proof -
  have on: "next_id (fold (\<lambda>cpu s. if cpu_on cpu = 0 then set_online cpu s else s) l x) = next_id x \<and>
      woken (fold (\<lambda>cpu s. if cpu_on cpu = 0 then set_online cpu s else s) l x) = woken x \<and>
      mm (fold (\<lambda>cpu s. if cpu_on cpu = 0 then set_online cpu s else s) l x) = mm x \<and>
      live (fold (\<lambda>cpu s. if cpu_on cpu = 0 then set_online cpu s else s) l x) = live x \<and>
      tasks (fold (\<lambda>cpu s. if cpu_on cpu = 0 then set_online cpu s else s) l x) = tasks x \<and>
      current_idx c (fold (\<lambda>cpu s. if cpu_on cpu = 0 then set_online cpu s else s) l x) = current_idx c x" for l x c
    by (induction l arbitrary: x) (auto simp: set_online_def current_idx_def)
  have u: "[1..<MAX_CPUS] = [1, 2, 3]" by (simp add: upt_rec)
  have t: "tasks s ! 16 = None" "tasks s ! 17 = None" "tasks s ! 18 = None"
    using assms(1) [of 1] assms(1) [of 2] assms(1) [of 3] assms(2) by (simp_all add: task_at_def)
  let ?t = "(tasks s)[16 := Some (secondary_idle 1), 17 := Some (secondary_idle 2), 18 := Some (secondary_idle 3)]"
  have f: "foldm (\<lambda>cpu s. map_option snd (add_idle cpu s)) [1..<MAX_CPUS] (set_online 0 s) = Some ((set_online 0 s)\<lparr>tasks := ?t\<rparr>)"
    unfolding u using t assms(2) by (simp add: add_idle_def task_at_def set_online_def secondary_idle_def Let_def)
  show ?thesis unfolding bring_up_def Let_def f using on by (simp add: set_online_def current_idx_def)
qed

text \<open>A table with the idle tasks and \<open>n\<close> fresh user tasks satisfies the invariants of the table.\<close>

lemma fresh_table_ok:
  assumes at: "\<And>i. task_at i s = (if i = 0 then Some task_idle else if i \<in> {16, 17, 18} then Some (secondary_idle (i - 15))
      else if i \<le> n then Some (u i) else None)"
    and l: "length (tasks s) = MAX_TASKS" and n: "n < 16" and nid: "next_id s = of_nat (n + 1)"
    and u: "\<And>i. 0 < i \<Longrightarrow> i \<le> n \<Longrightarrow> tid (u i) = of_nat i \<and> \<not> recv_blocked (u i) \<and> send_full_wait (u i) = None \<and>
      sleep_deadline (u i) = 0 \<and> pending_senders (u i) = replicate MAX_PENDING_SENDERS None"
  shows "base_ok s \<and> waits_ok s"
proof -
  have un: "unat (of_nat i :: u32) = i" if "i \<le> 16" for i
    using that by (simp add: unsigned_of_nat take_bit_nat_eq_self_iff)
  have nidn: "unat (next_id s) = n + 1" using un [of "n + 1"] n by (simp only: nid)
  have q: "queue_at s j k = None" for j k
    using u by (auto simp: queue_at_def at task_idle_def secondary_idle_def nth_Cons' split: option.splits)
  have w: "\<not> waits s t r" if "task_at i s = Some t" for i t r
    using that q u by (cases r) (auto simp: at task_idle_def secondary_idle_def split: if_splits)
  have idle: "\<exists>t. task_at (idle_slot k) s = Some t \<and> cpu_affinity t = Some k \<and> tid t = idle_id k" if "k < MAX_CPUS" for k
    using that by (auto simp: at idle_slot_def idle_id_def secondary_idle_def task_idle_def)
  have nz: "unat (tid t) = i" if "task_at i s = Some t" "\<not> idle_idx i" for i t
    using that u un n by (auto simp: at idle_idx_def split: if_splits)
  have ids: "unat (tid t) = (if i \<in> {16, 17, 18} then 0x40000000 + i - 15 else i)" if "task_at i s = Some t" for i t
    using that u un n by (auto simp: at task_idle_def secondary_idle_def split: if_splits)
  have le: "i \<le> 18" if "task_at i s = Some t" for i t using that n by (auto simp: at split: if_splits)
  have inj: "i = j" if "task_at i s = Some t" "task_at j s = Some v" "tid t = tid v" for i j t v
    using ids [OF that(1)] ids [OF that(2)] le [OF that(1)] le [OF that(2)] that(3) by (auto split: if_splits)
  have "task_at i s \<noteq> None" if "i \<in> {0, 16, 17, 18} \<union> {1..n}" for i using that at [of i] by auto
  then have "tasks s ! i \<noteq> None" if "i \<in> {0, 16, 17, 18} \<union> {1..n}" "i < MAX_TASKS" for i
    using that l by (metis task_at_def)
  then have "{i. i < MAX_TASKS \<and> tasks s ! i = None} \<subseteq> {..<MAX_TASKS} - ({0, 16, 17, 18} \<union> {1..n})" by blast
  then have "card {i. i < MAX_TASKS \<and> tasks s ! i = None} \<le> card ({..<MAX_TASKS} - ({0, 16, 17, 18} \<union> {1..n}))"
    by (intro card_mono) auto
  also have "\<dots> = MAX_TASKS - card ({0, 16, 17, 18} \<union> {1..n})" using n by (subst card_Diff_subset) auto
  also have "card ({0, 16, 17, 18} \<union> {1..n}) = 4 + n" using n by (subst card_Un_disjoint) auto
  finally have "length (filter (\<lambda>x. x = None) (tasks s)) \<le> 28 - n" by (simp add: length_filter_conv_card l)
  then have cnt: "unat (next_id s) + length (filter (\<lambda>x. x = None) (tasks s)) \<le> MAX_TASKS" using nidn n by linarith
  have nx: "next_id s \<noteq> 0" using nidn by auto
  have user: "tid t \<noteq> 0 \<and> tid t < next_id s" if "task_at i s = Some t" "\<not> idle_idx i" for i t
    using nz [OF that] that nidn n by (auto simp: at idle_idx_def word_less_nat_alt split: if_splits)
  show ?thesis using l idle user inj nx cnt q w by (simp add: base_ok_def waits_ok_def)
qed

section \<open>The strict pick\<close>

definition ready_slots :: "nat \<Rightarrow> kstate \<Rightarrow> nat list" where
  "ready_slots cpu s = filter (\<lambda>i. case task_at i s of Some t \<Rightarrow> runnable cpu t | None \<Rightarrow> False) slots"

definition pick_rank :: "nat \<Rightarrow> kstate \<Rightarrow> nat \<Rightarrow> nat" where
  "pick_rank cpu s i = unat (prio_or_idle i s) * MAX_TASKS + forward (current_idx cpu s) i"

definition best_slot :: "nat \<Rightarrow> kstate \<Rightarrow> nat" where
  "best_slot cpu s = (case sort_key (pick_rank cpu s) (ready_slots cpu s) of [] \<Rightarrow> idle_slot cpu | i # _ \<Rightarrow> i)"

lemma forward_lt: "forward cur i < MAX_TASKS"
  by (simp add: forward_def)

lemma rank_better:
  assumes "task_at i s = Some t" "task_at j s = Some u" "\<not> better (current_idx cpu s) (priority t, i) (priority u, j)"
  shows "pick_rank cpu s j \<le> pick_rank cpu s i"
proof -
  let ?f = "forward (current_idx cpu s)"
  have p: "prio_or_idle i s = priority t" "prio_or_idle j s = priority u"
    using assms(1,2) by (simp_all add: prio_or_idle_def priority_and_name_def)
  have "unat (priority u) < unat (priority t) \<or> unat (priority u) = unat (priority t) \<and> ?f j \<le> ?f i"
    using assms(3) by (auto simp: better_def word_less_nat_alt word_unat_eq_iff)
  then show ?thesis using forward_lt [of "current_idx cpu s" j] by (auto simp: pick_rank_def p)
qed

lemma rank_eq: "pick_rank cpu s i = pick_rank cpu s j \<Longrightarrow> i < MAX_TASKS \<Longrightarrow> j < MAX_TASKS \<Longrightarrow> current_idx cpu s < MAX_TASKS \<Longrightarrow> i = j"
proof -
  assume a: "pick_rank cpu s i = pick_rank cpu s j" "i < MAX_TASKS" "j < MAX_TASKS" "current_idx cpu s < MAX_TASKS"
  have "forward (current_idx cpu s) x = pick_rank cpu s x mod MAX_TASKS" for x
    using forward_lt [of "current_idx cpu s" x] by (simp add: pick_rank_def)
  then show ?thesis using forward_inj a by metis
qed

text \<open>
  C11.  The scan for the next task computes the first of the ready slots of the CPU sorted by priority and, within a
  priority, by the distance from the current slot; the idle slot of the CPU when no slot is ready.
\<close>

theorem pick_next_sorted:
  assumes "current_idx cpu s < MAX_TASKS"
  shows "pick_next cpu s = best_slot cpu s"
proof (cases "sort_key (pick_rank cpu s) (ready_slots cpu s)")
  case Nil
  then have "ready_slots cpu s = []" by (metis length_0_conv length_sort)
  then have "\<forall>i \<in> set slots. \<forall>t. task_at i s = Some t \<longrightarrow> \<not> runnable cpu t"
    by (auto simp: ready_slots_def filter_empty_conv split: option.splits)
  then show ?thesis using pick_next_cases [of cpu s] Nil by (auto simp: best_slot_def)
next
  case (Cons i xs)
  then have i: "i \<in> set (ready_slots cpu s)" by (metis list.set_intros(1) set_sort)
  then obtain t where t: "task_at i s = Some t" "runnable cpu t" "i \<in> set slots"
    by (auto simp: ready_slots_def split: option.splits)
  have min: "pick_rank cpu s i \<le> pick_rank cpu s j" if "j \<in> set (ready_slots cpu s)" for j
  proof -
    have "sorted (map (pick_rank cpu s) (i # xs))" using Cons sorted_sort_key by metis
    moreover have "j \<in> set (i # xs)" using that Cons by (metis set_sort)
    ultimately show ?thesis by auto
  qed
  let ?p = "pick_next cpu s"
  from pick_next_cases [of cpu s] t obtain u where u: "task_at ?p s = Some u" "runnable cpu u" "?p \<in> set slots"
      "\<not> better (current_idx cpu s) (priority t, i) (priority u, ?p)" by blast
  have "?p \<in> set (ready_slots cpu s)" using u by (simp add: ready_slots_def)
  then have "pick_rank cpu s ?p = pick_rank cpu s i" using min rank_better [OF t(1) u(1,4)] by (simp add: le_antisym)
  then have "?p = i" using rank_eq t(3) u(3) assms by simp
  then show ?thesis using Cons by (simp add: best_slot_def)
qed

text \<open>Two user tasks of priorities 128 and 32 in slots 1 and 2, both ready; the boot CPU runs slot 3.\<close>

definition plain_task :: "u32 \<Rightarrow> u8 \<Rightarrow> task" where
  "plain_task pid prio = (task_new pid (bytes ''task'') 0 0 (boot_kmem new_zeroed))\<lparr>priority := prio\<rparr>"

definition three_tasks :: kstate where
  "three_tasks = (kstate_init (boot_kmem new_zeroed) (\<lambda>_. context_zeroed) (sec_init True 7 4))
     \<lparr>tasks := [Some task_idle, Some (plain_task 1 128), Some (plain_task 2 32), Some ((plain_task 3 255)\<lparr>tstate := Running\<rparr>)]
        @ replicate 12 None @ [Some (secondary_idle 1), Some (secondary_idle 2), Some (secondary_idle 3)]
        @ replicate 13 None, next_id := 4, cpus := (\<lambda>c. \<lparr>current = if c = 0 then 3 else 0, online = True\<rparr>)\<rparr>"

lemma three_at:
  "task_at i three_tasks = (if i = 0 then Some task_idle else if i \<in> {16, 17, 18} then Some (secondary_idle (i - 15))
     else if i \<le> 3 then Some (if i = 1 then plain_task 1 128 else if i = 2 then plain_task 2 32
       else (plain_task 3 255)\<lparr>tstate := Running\<rparr>) else None)"
  by (auto simp: three_tasks_def task_at_def nth_append nth_Cons')

lemma three_current: "current_idx c three_tasks = (if c = 0 then 3 else 0)"
  by (simp add: three_tasks_def current_idx_def)

lemma three_view:
  "view three_tasks i =
     (if i = 0 then Some (Running, 255, Some 0) else if i \<in> {16, 17, 18} then Some (Running, 255, Some (i - 15))
      else if i = 1 then Some (Ready, 128, None)
      else if i = 2 then Some (Ready, 32, None) else if i = 3 then Some (Running, 255, None) else None)"
  by (auto simp: view_def three_at plain_task_def task_new_def task_idle_def secondary_idle_def)

lemma three_ok: "ok_on {0} three_tasks"
proof -
  have "base_ok three_tasks \<and> waits_ok three_tasks"
    by (rule fresh_table_ok [OF three_at])
      (auto simp: three_tasks_def plain_task_def task_new_def task_idle_def le_Suc_eq numeral_3_eq_3 numeral_2_eq_2)
  moreover have "run_ok {0} three_tasks"
  proof -
    obtain t where t: "task_at 3 three_tasks = Some t" "tstate t = Running" by (simp add: three_at)
    then have "\<not> waits three_tasks t r" for r using calculation unfolding waits_ok_def by fastforce
    then show ?thesis using t by (simp add: run_ok_def Let_def three_current idle_idx_def)
  qed
  ultimately show ?thesis by (simp add: ok_on_def)
qed

theorem pick_next_sorted_witness: "pick_next 0 three_tasks = best_slot 0 three_tasks \<and> best_slot 0 three_tasks = 2"
proof -
  have "pick_next 0 three_tasks = best_slot 0 three_tasks" by (rule pick_next_sorted) (simp add: three_current)
  moreover have "pick_next 0 three_tasks = 2" by (rule pick_next_view [of 2 _ 32]) (auto simp: three_view split: if_splits)
  ultimately show ?thesis by simp
qed

section \<open>The rotation of the tick\<close>

primrec el0_ticks :: "nat \<Rightarrow> nat \<Rightarrow> kstate \<Rightarrow> kstate option" where
  "el0_ticks cpu 0 s = Some s"
| "el0_ticks cpu (Suc n) s = do { s \<leftarrow> tick_preempt True cpu (tick s); el0_ticks cpu n s }"

lemma wake_keeps:
  assumes "task_at i s = Some t" "sleep_deadline t = 0"
  shows "task_at i (snd (wake_sleepers s)) = Some t"
proof -
  have "task_at i (snd (fold wake_one xs (b, s))) = Some t" if "task_at i s = Some t" for xs b s
    using that
  proof (induction xs arbitrary: b s)
    case (Cons x xs)
    obtain b' s' where f: "wake_one x (b, s) = (b', s')" by fastforce
    then have "task_at i s' = Some t"
      using Cons.prems assms(2) by (auto simp: wake_one_def task_at_upd split: option.splits if_splits)
    with Cons.IH [of s' b'] show ?case by (simp add: f)
  qed simp
  from this [OF assms(1)] show ?thesis
    unfolding wake_sleepers_def by (auto simp: split_beta Let_def task_at_cong [OF poke_sel(1)])
qed

lemma awake: "ok_on C s \<Longrightarrow> task_at i s = Some t \<Longrightarrow> tstate t \<in> {Ready, Running} \<Longrightarrow> sleep_deadline t = 0"
  unfolding ok_on_def waits_ok_def by (metis insert_iff singletonD task_state.distinct waits.simps(3))

definition ready_on :: "nat \<Rightarrow> kstate \<Rightarrow> nat \<Rightarrow> bool" where
  "ready_on cpu s i \<longleftrightarrow> (\<exists>p a. view s i = Some (Ready, p, a) \<and> (a = None \<or> a = Some cpu))"

definition running :: "kstate \<Rightarrow> nat \<Rightarrow> bool" where
  "running s i \<longleftrightarrow> (\<exists>p a. view s i = Some (Running, p, a))"

lemma ready_on_task: "ready_on cpu s i \<longleftrightarrow> (\<exists>t. task_at i s = Some t \<and> runnable cpu t)"
  by (auto simp: ready_on_def view_def runnable_def)

lemma running_state: "running s i \<Longrightarrow> in_state i Running s"
  by (auto simp: running_def view_def in_state_iff)

lemma view_tick: "view (tick s) = view s"
  by (simp add: view_def tick_def fun_eq_iff)

lemma tick_ok: "ok_on C s \<Longrightarrow> ok_on C (tick s) \<and> woken (tick s) = woken s"
  by (subst ok_on_cong [of _ s]) (simp_all add: tick_def)

lemma wake_view: "ok_on C s \<Longrightarrow> view s i = Some (st, p, a) \<Longrightarrow> st \<in> {Ready, Running} \<Longrightarrow> view (snd (wake_sleepers s)) i = Some (st, p, a)"
proof -
  assume a: "ok_on C s" "view s i = Some (st, p, a)" "st \<in> {Ready, Running}"
  then obtain t where t: "task_at i s = Some t" "tstate t = st" using view_Some by blast
  from wake_keeps [OF t(1) awake [OF a(1) t(1)]] t(2) a(2,3) t(1) show ?thesis by (simp add: view_def)
qed

lemma tick_rotates:
  assumes ok: "ok_on C s" "0 \<in> C" and cur: "0 < current_idx 0 s" "running s (current_idx 0 s)"
    and w: "0 < w" "w < MAX_TASKS" "ready_on 0 s w"
  shows "\<exists>s'. tick_preempt True 0 (tick s) = Some s' \<and> ok_on C s' \<and>
    0 < current_idx 0 s' \<and> current_idx 0 s' < MAX_TASKS \<and> running s' (current_idx 0 s') \<and>
    forward (current_idx 0 s) (current_idx 0 s') \<le> forward (current_idx 0 s) w \<and>
    (current_idx 0 s' \<noteq> w \<longrightarrow> ready_on 0 s' w)"
proof -
  let ?c = "current_idx 0 s" and ?s1 = "snd (wake_sleepers (tick s))"
  let ?v = "pick_next_rr 0 ?c ?s1"
  have tk: "ok_on C (tick s)" using tick_ok ok(1) by blast
  from wake_sleepers_ok [OF tk] have c1: "current_idx 0 ?s1 = ?c" by (simp add: tick_def)
  from cur(2) obtain p a where vc: "view ?s1 ?c = Some (Running, p, a)"
    using wake_view [OF tk] by (auto simp: running_def view_tick)
  from w(3) obtain q b where vw: "view ?s1 w = Some (Ready, q, b)" "b = None \<or> b = Some 0"
    using wake_view [OF tk] by (auto simp: ready_on_def view_tick)
  have wc: "w \<noteq> ?c" using vc vw by auto
  have rw: "\<exists>t. task_at w ?s1 = Some t \<and> runnable 0 t" using vw ready_on_task unfolding ready_on_def by blast
  from pick_next_rr_cases [of 0 ?c ?s1] rw w(1,2) wc c1
  have v: "?v \<in> set slots" "?v \<noteq> ?c" "ready_on 0 ?s1 ?v" "forward ?c ?v \<le> forward ?c w"
    by (auto simp: ready_on_task)
  let ?s2 = "set_state ?c Ready ?s1"
  have v2: "view ?s2 = (view ?s1)(?c := Some (Ready, p, a))" by (rule view_set_state [OF vc])
  obtain ct where ct: "task_at ?c ?s2 = Some ct" using v2 view_Some [of ?s2 ?c] by fastforce
  obtain vt where vt: "task_at ?v ?s2 = Some vt"
    using v2 v(2,3) view_Some [of ?s2 ?v] by (fastforce simp: ready_on_def)
  from run_slot_view [OF ct vt, of 0] obtain s' where s': "run_slot 0 ?c ?v ?s2 = Some s'" "current_idx 0 s' = ?v"
      "view s' = (view ?s2)(?v := Some (Running, priority vt, cpu_affinity vt))" by auto
  have st: "in_state ?c Running ?s1" "\<not> in_state ?c Zombie ?s1" using vc by (auto simp: view_def in_state_iff)
  have tick_eq: "tick_preempt True 0 (tick s) = map_option snd (switch_best False 0 ?s1)"
  proof -
    have "current_idx 0 (tick s) = ?c" by (simp add: tick_def)
    then show ?thesis using st cur(1) unfolding tick_preempt_def Let_def by (simp add: split_beta idle_slot_def)
  qed
  have "switch_best False 0 ?s1 = Some (True, s')"
    using s'(1) st(1) cur(1) v(1,2) c1 unfolding switch_best_def Let_def by simp
  then have r: "tick_preempt True 0 (tick s) = Some s'" by (simp add: tick_eq)
  moreover have "ok_on C s'" using tick_preempt_ok [OF r tk ok(2)] by simp
  moreover have "ready_on 0 s' w" if "?v \<noteq> w" using vw that wc by (auto simp: s'(3) v2 ready_on_def)
  ultimately show ?thesis using s'(2,3) v by (auto simp: running_def)
qed

lemma forward_closer:
  assumes "forward cur v \<le> forward cur w" "v \<noteq> w" "cur < MAX_TASKS" "v < MAX_TASKS" "w < MAX_TASKS" "cur \<noteq> w"
  shows "forward v w < forward cur w"
  using assms by (auto simp: forward_eq split: if_splits)



section \<open>Starvation on a secondary CPU\<close>

definition secondary_round :: "nat \<Rightarrow> kstate \<Rightarrow> kstate option" where
  "secondary_round cpu s = do { s \<leftarrow> tick_preempt True cpu (tick s); map_option snd (secondary_enter cpu s) }"

primrec secondary_rounds :: "nat \<Rightarrow> nat \<Rightarrow> kstate \<Rightarrow> kstate option" where
  "secondary_rounds cpu 0 s = Some s"
| "secondary_rounds cpu (Suc n) s = do { s \<leftarrow> secondary_round cpu s; secondary_rounds cpu n s }"

definition no_sleepers :: "kstate \<Rightarrow> bool" where
  "no_sleepers s \<longleftrightarrow> (\<forall>i t. task_at i s = Some t \<longrightarrow> sleep_deadline t = 0)"

lemma wake_none: "no_sleepers s \<Longrightarrow> wake_sleepers s = (False, s)"
proof -
  assume "no_sleepers s"
  then have "wake_one x (False, s) = (False, s)" for x by (auto simp: wake_one_def no_sleepers_def split: option.splits)
  then have "fold wake_one xs (False, s) = (False, s)" for xs by (induction xs) simp_all
  then show ?thesis by (simp add: wake_sleepers_def)
qed

lemma no_sleepers_run: "run_slot cpu src dst s = Some s' \<Longrightarrow> no_sleepers s \<Longrightarrow> no_sleepers s'"
  by (auto simp: run_slot_def context_switch_unlock_def Let_def no_sleepers_def task_at_upd task_at_set_state
      split: Option.bind_splits if_splits)

lemma no_sleepers_state: "no_sleepers s \<Longrightarrow> no_sleepers (set_state i st s)"
  by (auto simp: no_sleepers_def task_at_set_state split: if_splits)

text \<open>
  The table as a secondary CPU sees it: slot \<open>a\<close> runs, the idle slot is ready, slot \<open>b\<close> is ready with a worse
  priority and lies behind the idle slot, and nothing else is ready.
\<close>

definition starving :: "nat \<Rightarrow> nat \<Rightarrow> nat \<Rightarrow> kstate \<Rightarrow> bool" where
  "starving cpu a b s \<longleftrightarrow>
     no_sleepers s \<and> current_idx cpu s = a \<and> 0 < a \<and> a < idle_slot cpu \<and> idle_slot cpu < b \<and> b < MAX_TASKS \<and>
     (\<exists>p q. view s a = Some (Running, p, None) \<and> view s b = Some (Ready, q, None) \<and> p < q) \<and>
     view s (idle_slot cpu) = Some (Ready, 255, Some cpu) \<and>
     (\<forall>j q aff. j \<notin> {b, idle_slot cpu} \<longrightarrow> view s j \<noteq> Some (Ready, q, aff))"

lemma starving_round:
  assumes "starving cpu a b s"
  shows "\<exists>s'. secondary_round cpu s = Some s' \<and> starving cpu a b s'"
proof -
  let ?i = "idle_slot cpu"
  obtain p q where st: "no_sleepers s" "current_idx cpu s = a" "0 < a" "a < ?i" "?i < b" "b < MAX_TASKS"
      "view s a = Some (Running, p, None)" "view s b = Some (Ready, q, None)" "p < q" "view s ?i = Some (Ready, 255, Some cpu)"
      "\<And>j q aff. j \<notin> {b, ?i} \<Longrightarrow> view s j \<noteq> Some (Ready, q, aff)"
    using assms unfolding starving_def by blast
  let ?t = "tick s"
  have ns: "no_sleepers ?t" using st(1) by (simp add: no_sleepers_def tick_def)
  have ct: "current_idx cpu ?t = a" using st(2) by (simp add: tick_def)
  have rr: "pick_next_rr cpu a ?t = ?i"
  proof -
    have r: "ready_on cpu ?t j \<longleftrightarrow> j \<in> {b, ?i}" for j
      using st(8,10) st(11) [of j] by (auto simp: ready_on_def view_tick)
    have i: "?i \<in> set slots" "?i \<noteq> a" using st(4-6) by auto
    from pick_next_rr_cases [of cpu a ?t] i r [of ?i] ct
    have "ready_on cpu ?t (pick_next_rr cpu a ?t)" "forward a (pick_next_rr cpu a ?t) \<le> forward a ?i"
      unfolding ready_on_task by auto
    moreover have "\<not> forward a b \<le> forward a ?i" using st(4-6) by (simp add: forward_eq)
    ultimately show ?thesis using r by auto
  qed
  let ?s1 = "set_state a Ready ?t"
  have v1: "view ?s1 = (view s)(a := Some (Ready, p, None))"
    using view_set_state [of ?t a Running p None Ready] st(7) by (simp add: view_tick)
  obtain ta ti where "task_at a ?s1 = Some ta" "task_at ?i ?s1 = Some ti" "priority ti = 255" "cpu_affinity ti = Some cpu"
    using v1 view_Some [of ?s1 a] view_Some [of ?s1 ?i] st(4,10) by fastforce
  with run_slot_view [of a ?s1 ta ?i ti cpu] obtain s2 where s2: "run_slot cpu a ?i ?s1 = Some s2" "current_idx cpu s2 = ?i"
      "view s2 = (view ?s1)(?i := Some (Running, 255, Some cpu))" by auto
  have n2: "no_sleepers s2" using no_sleepers_run [OF s2(1)] no_sleepers_state ns by blast
  have sa: "in_state a Running ?t" "\<not> in_state a Zombie ?t" using st(7) by (auto simp: view_def in_state_iff tick_def)
  have "switch_best False cpu ?t = Some (True, s2)"
    using s2(1) sa(1) st(3-6) ct rr unfolding switch_best_def Let_def by simp
  then have t: "tick_preempt True cpu ?t = Some s2"
    using sa st(4) ct wake_none [OF ns] unfolding tick_preempt_def Let_def by simp
  have v2: "view s2 = (view s)(a := Some (Ready, p, None), ?i := Some (Running, 255, Some cpu))" using s2(3) v1 by simp
  have only: "j = b" if "j \<noteq> a" "view s2 j = Some (Ready, r, aff)" for j r aff
    using st(11) [of j r aff] that v2 by (auto split: if_splits)
  have vb: "view s2 b = Some (Ready, q, None)" using v2 st(4,5,8) by simp
  have pk: "pick_next cpu s2 = a"
  proof (rule pick_next_view [of a s2 p])
    show "p < r" if "j \<noteq> a" "view s2 j = Some (Ready, r, aff)" for j r aff using only [OF that] that(2) vb st(9) by simp
  qed (use st v2 in auto)
  let ?s3 = "set_state ?i Ready s2"
  have v3: "view ?s3 = (view s2)(?i := Some (Ready, 255, Some cpu))" by (rule view_set_state) (simp add: v2)
  obtain ua ui where "task_at a ?s3 = Some ua" "task_at ?i ?s3 = Some ui" "priority ua = p" "cpu_affinity ua = None"
    using v3 v2 view_Some [of ?s3 a] view_Some [of ?s3 ?i] st(4) by fastforce
  with run_slot_view [of ?i ?s3 ui a ua cpu] obtain s4 where s4: "run_slot cpu ?i a ?s3 = Some s4" "current_idx cpu s4 = a"
      "view s4 = (view ?s3)(a := Some (Running, p, None))" by auto
  have v4: "view s4 = view s" using s4(3) v3 v2 st(4,7,10) by (auto simp: fun_eq_iff)
  have "secondary_enter cpu s2 = Some (True, s4)" using s4(1) pk st(4) by (simp add: secondary_enter_def Let_def)
  then have "secondary_round cpu s = Some s4" using t by (simp add: secondary_round_def)
  moreover have "no_sleepers s4" using no_sleepers_run [OF s4(1)] no_sleepers_state n2 by blast
  then have "starving cpu a b s4" using assms s4(2) v4 unfolding starving_def by simp
  ultimately show ?thesis by blast
qed


definition starved_state :: kstate where
  "starved_state = (kstate_init (boot_kmem new_zeroed) (\<lambda>_. context_zeroed) (sec_init True 7 4))
     \<lparr>tasks := [Some task_idle, Some ((plain_task 1 32)\<lparr>tstate := Running\<rparr>)] @ replicate 14 None @
        [Some ((secondary_idle 1)\<lparr>tstate := Ready\<rparr>), Some (secondary_idle 2), Some (secondary_idle 3), Some (plain_task 2 96)]
        @ replicate 12 None, next_id := 3, cpus := (\<lambda>c. \<lparr>current = if c = 1 then 1 else 0, online = True\<rparr>)\<rparr>"


end
