(* ===== verification/Kernel_Step.thy ===== *)
theory Kernel_Step
  imports Exception Syscall_Inv Sched_Fair
begin

text \<open>
  The kernel as a transition system: every entry into it, on any CPU and in any order, is a step.

  A system call by the task a CPU runs, a poll of a waiting driver, the tail of a sleep, an interrupt, an
  exception, a round of the loop of a secondary CPU, the boot CPU entering the scheduler; between them, code
  outside the kernel changes registers, memory and the guests' world as it likes.  Each entry takes the scheduler
  lock, so the steps interleave but do not overlap.

  The scheduler's invariant holds in every state reached from one that satisfies it; so no task is ever current on
  two CPUs, whatever the tasks and guests do.  The invariant asks for an empty wake-up note at the start, and that is
  needed: with the note a boot-time spawn leaves behind, one system call puts a task on two CPUs.
\<close>

section \<open>Steps\<close>

inductive kernel_step :: "sys_env \<Rightarrow> u64 \<Rightarrow> kstate \<times> hv_state \<Rightarrow> kstate \<times> hv_state \<Rightarrow> bool" for env stub where
  syscall: "cpu < MAX_CPUS \<Longrightarrow> \<not> idle_idx (current_idx cpu s) \<Longrightarrow>
    tanix_syscall env cpu nr a0 a1 a2 s = Some (r, s') \<Longrightarrow> kernel_step env stub (s, hs) (s', hs)"
| irq_poll: "cpu < MAX_CPUS \<Longrightarrow> sys_wait_irq_poll cpu irq s = (r, s') \<Longrightarrow> kernel_step env stub (s, hs) (s', hs)"
| sleep_end: "cpu < MAX_CPUS \<Longrightarrow> sys_sleep_resume cpu s = (r, s') \<Longrightarrow> kernel_step env stub (s, hs) (s', hs)"
| interrupt: "cpu < MAX_CPUS \<Longrightarrow> irq_handler stub cpu el0 frame intid s hs = Some (e, s', hs') \<Longrightarrow>
    kernel_step env stub (s, hs) (s', hs')"
| trap: "cpu < MAX_CPUS \<Longrightarrow> sync_handler cpu esr elr far frame s hs = Some (e, s', hs') \<Longrightarrow>
    kernel_step env stub (s, hs) (s', hs')"
| boot_enter: "enter 0 s = Some s' \<Longrightarrow> kernel_step env stub (s, hs) (s', hs)"
| idle_round: "cpu < MAX_CPUS \<Longrightarrow> secondary_enter cpu s = Some (b, s') \<Longrightarrow> kernel_step env stub (s, hs) (s', hs)"
| reschedule_now: "cpu < MAX_CPUS \<Longrightarrow> schedule cpu s = Some s' \<Longrightarrow> kernel_step env stub (s, hs) (s', hs)"
| outside: "kernel_step env stub (s, hs) (s\<lparr>mm := m, live := regs, cntpct := now\<rparr>, hs')"

section \<open>The handlers keep the invariant\<close>

lemma poke_other_sel [simp]:
  "tasks (poke_other_cpus me s) = tasks s" "next_id (poke_other_cpus me s) = next_id s"
  "woken (poke_other_cpus me s) = woken s" "current_idx c (poke_other_cpus me s) = current_idx c s"
proof -
  have "tasks (fold (\<lambda>cpu s. if cpu \<noteq> me \<and> is_online cpu s then send_sgi cpu 3 s else s) l s) = tasks s \<and>
      next_id (fold (\<lambda>cpu s. if cpu \<noteq> me \<and> is_online cpu s then send_sgi cpu 3 s else s) l s) = next_id s \<and>
      woken (fold (\<lambda>cpu s. if cpu \<noteq> me \<and> is_online cpu s then send_sgi cpu 3 s else s) l s) = woken s \<and>
      current_idx c (fold (\<lambda>cpu s. if cpu \<noteq> me \<and> is_online cpu s then send_sgi cpu 3 s else s) l s) = current_idx c s" for l
    by (induction l arbitrary: s) (auto simp: send_sgi_def)
  then show "tasks (poke_other_cpus me s) = tasks s" "next_id (poke_other_cpus me s) = next_id s"
    "woken (poke_other_cpus me s) = woken s" "current_idx c (poke_other_cpus me s) = current_idx c s"
    unfolding poke_other_cpus_def by blast+
qed

lemma device_irq_ok: "ok_on C s \<Longrightarrow> ok_on C (device_irq cpu intid s) \<and> woken (device_irq cpu intid s) = woken s"
  by (subst ok_on_cong [of _ s]) (simp_all add: device_irq_def disable_irq_def)

lemma irq_handler_ok:
  assumes "irq_handler stub cpu el0 frame intid s hs = Some (e, s', hs')" "ok_on C s" "cpu \<in> C" "cpu < MAX_CPUS"
  shows "ok_on C s' \<and> woken s' = woken s"
proof -
  have "s' = s \<or> s' = device_irq cpu intid s \<or> s' = tick s \<or> (\<exists>b. tick_preempt b cpu (tick s) = Some s')"
    using assms(1) by (auto simp: irq_handler_def timer_irq_def Let_def split: if_splits option.splits prod.splits Option.bind_splits)
  then show ?thesis
    using assms(2-4) device_irq_ok tick_ok [OF assms(2)] tick_preempt_ok [of _ cpu "tick s" s' C] by metis
qed

lemma kill_faulting_ok:
  assumes "kill_faulting_task cpu s = Some s'" "ok_on C s" "cpu < MAX_CPUS"
  shows "ok_on C s' \<and> woken s' = woken s"
proof -
  let ?i = "current_idx cpu s"
  let ?s = "upd_task ?i (\<lambda>t. t\<lparr>recv_blocked := False, recv_buf := 0\<rparr>) (set_state ?i Zombie s)"
  have r: "run_slot cpu ?i (pick_next cpu ?s) ?s = Some s'" using assms(1) by (simp add: kill_faulting_task_def Let_def)
  have "ok_on C ?s" by (rule ok_on_upd_quiet [OF set_zombie_ok [OF assms(2)]]) (auto simp: keeps_def)
  then have "ok_on (C - {cpu}) ?s" by (rule ok_on_mono) auto
  from run_pick_ok [OF r this assms(3)] show ?thesis by simp
qed

lemma resolve_ok:
  assumes "resolve_user_fault cpu far esr s = Some (b, s')" "ok_on C s"
  shows "ok_on C s' \<and> woken s' = woken s"
proof -
  obtain m where "s' = s\<lparr>mm := m\<rparr>" using resolve_mm [OF assms(1)] by blast
  then show ?thesis using assms(2) by (subst ok_on_cong [of _ s]) auto
qed

lemma sync_handler_ok:
  assumes "sync_handler cpu esr elr far frame s hs = Some (e, s', hs')" "ok_on C s" "cpu < MAX_CPUS"
  shows "ok_on C s' \<and> woken s' = woken s"
proof -
  have m: "ok_on C (s\<lparr>mm := m\<rparr>) \<and> woken (s\<lparr>mm := m\<rparr>) = woken s" for m
    using assms(2) by (subst ok_on_cong [of _ s]) auto
  consider (mem) m where "s' = s\<lparr>mm := m\<rparr>" | (repaired) b where "resolve_user_fault cpu (unat far) esr s = Some (b, s')"
    | (kill) b s1 where "resolve_user_fault cpu (unat far) esr s = Some (b, s1)" "kill_faulting_task cpu s1 = Some s'"
    | (dead) "kill_faulting_task cpu s = Some s'"
    using assms(1) by (auto simp: sync_handler_def abort_exception_def Let_def split: if_splits prod.splits Option.bind_splits)
  then show ?thesis
  proof cases
    case mem
    then show ?thesis using m by simp
  next
    case repaired
    then show ?thesis using resolve_ok assms(2) by blast
  next
    case kill
    then show ?thesis using resolve_ok [OF kill(1) assms(2)] kill_faulting_ok [OF kill(2) _ assms(3)] by metis
  next
    case dead
    then show ?thesis using kill_faulting_ok [OF dead assms(2,3)] by simp
  qed
qed

lemma poll_ok: "sys_wait_irq_poll cpu irq s = (r, s') \<Longrightarrow> ok_on C s \<Longrightarrow> ok_on C s' \<and> woken s' = woken s"
proof -
  assume a: "sys_wait_irq_poll cpu irq s = (r, s')" "ok_on C s"
  have "ok_on C (upd_task (current_idx cpu s) (\<lambda>t. t\<lparr>irq_wait := None\<rparr>) s)"
    by (rule ok_on_upd_quiet [OF a(2)]) (auto simp: keeps_def)
  then have "ok_on C ((upd_task (current_idx cpu s) (\<lambda>t. t\<lparr>irq_wait := None\<rparr>) s)\<lparr>irq_bits := b\<rparr>)" for b
    by (subst ok_on_cong) auto
  then show ?thesis using a by (auto simp: sys_wait_irq_poll_def split: if_splits)
qed

lemma sleep_end_ok: "sys_sleep_resume cpu s = (r, s') \<Longrightarrow> ok_on C s \<Longrightarrow> ok_on C s' \<and> woken s' = woken s"
proof -
  assume a: "sys_sleep_resume cpu s = (r, s')" "ok_on C s"
  have "ok_on C (upd_task (current_idx cpu s) (\<lambda>t. t\<lparr>sleep_deadline := 0\<rparr>) s)"
    by (rule ok_on_upd_quiet [OF a(2)]) (auto simp: keeps_def)
  then show ?thesis using a by (auto simp: sys_sleep_resume_def)
qed

lemma outside_ok: "ok_on C s \<Longrightarrow> ok_on C (s\<lparr>mm := m, live := regs, cntpct := now\<rparr>)"
  by (subst ok_on_cong [of _ s]) (auto simp: current_idx_def)

lemma sched_ok_on: "sched_ok s \<longleftrightarrow> ok_on {..<MAX_CPUS} s \<and> woken s = None"
  by (auto simp: sched_ok_def ok_on_def)

lemma kernel_step_ok: "kernel_step env stub x y \<Longrightarrow> sched_ok (fst x) \<Longrightarrow> sched_ok (fst y)"
proof (induction rule: kernel_step.induct)
  case (syscall cpu s nr a0 a1 a2 r s' hs)
  then show ?case using tanix_syscall_ok [OF syscall(3), of "{..<MAX_CPUS}"] by (simp add: sched_ok_on)
next
  case (irq_poll cpu irq s r s' hs)
  then show ?case using poll_ok [OF irq_poll(2), of "{..<MAX_CPUS}"] by (simp add: sched_ok_on)
next
  case (sleep_end cpu s r s' hs)
  then show ?case using sleep_end_ok [OF sleep_end(2), of "{..<MAX_CPUS}"] by (simp add: sched_ok_on)
next
  case (interrupt cpu el0 frame intid s hs e s' hs')
  then show ?case using irq_handler_ok [OF interrupt(2), of "{..<MAX_CPUS}"] by (simp add: sched_ok_on)
next
  case (trap cpu esr elr far frame s hs e s' hs')
  then show ?case using sync_handler_ok [OF trap(2), of "{..<MAX_CPUS}"] by (simp add: sched_ok_on)
next
  case (boot_enter s s' hs)
  then show ?case using enter_ok [OF boot_enter(1), of "{..<MAX_CPUS}"] by (simp add: sched_ok_on)
next
  case (idle_round cpu s b s' hs)
  then show ?case using secondary_enter_ok [OF idle_round(2), of "{..<MAX_CPUS}"] by (simp add: sched_ok_on)
next
  case (reschedule_now cpu s s' hs)
  then show ?case using schedule_ok [OF reschedule_now(2), of "{..<MAX_CPUS}"] by (simp add: sched_ok_on)
next
  case (outside s hs m regs now hs')
  then show ?case using outside_ok by (simp add: sched_ok_on)
qed

lemma kernel_steps_ok: "(kernel_step env stub)\<^sup>*\<^sup>* x y \<Longrightarrow> sched_ok (fst x) \<Longrightarrow> sched_ok (fst y)"
  by (induction rule: rtranclp_induct) (auto dest: kernel_step_ok)

section \<open>Boot\<close>

text \<open>The state after the secondary CPUs have been released, with no task spawned yet.\<close>

definition cold_state :: kstate where
  "cold_state = kstate_init (boot_kmem new_zeroed) (\<lambda>_. context_zeroed) (sec_init True 7 4)"

lemma boot_sched_ok:
  assumes "bring_up cpu_on cold_state = Some s"
  shows "sched_ok s"
proof -
  have c: "tasks cold_state = scheduler_new" "next_id cold_state = 1" "woken cold_state = None" "current_idx c cold_state = 0" for c
    by (simp_all add: cold_state_def kstate_init_def current_idx_def)
  have l: "length scheduler_new = MAX_TASKS" by (simp add: scheduler_new_def)
  have n: "scheduler_new ! 16 = None" "scheduler_new ! 17 = None" "scheduler_new ! 18 = None" "scheduler_new ! 0 = Some task_idle"
    by (simp_all add: scheduler_new_def)
  have "task_at (15 + k) cold_state = None" if "k \<in> {1, 2, 3}" for k
    using that l n by (auto simp: task_at_def c)
  from bring_up_sel [OF this, of cpu_on] assms c l have s: "next_id s = 1" "woken s = None" "\<And>c. current_idx c s = 0"
      "tasks s = scheduler_new[16 := Some (secondary_idle 1), 17 := Some (secondary_idle 2), 18 := Some (secondary_idle 3)]" by auto
  have at: "task_at i s = (if i = 0 then Some task_idle else if i \<in> {16, 17, 18} then Some (secondary_idle (i - 15)) else None)" for i
    using l by (auto simp: task_at_def s(4) scheduler_new_def nth_Cons' nth_list_update)
  have tab: "base_ok s \<and> waits_ok s"
    by (rule fresh_table_ok [where n = 0]) (use l s in \<open>auto simp: at\<close>)
  obtain t where t: "task_at 0 s = Some t" "tstate t = Running" by (auto simp: at task_idle_def)
  then have "\<not> waits s t r" for r using tab unfolding waits_ok_def by fastforce
  then have "run_ok {..<MAX_CPUS} s" using t by (auto simp: run_ok_def Let_def s idle_idx_def)
  then show ?thesis using tab s(2) by (simp add: sched_ok_def)
qed

lemma bring_up_cold: "\<exists>s. bring_up cpu_on cold_state = Some s"
proof -
  have l: "tasks cold_state = scheduler_new" "length scheduler_new = MAX_TASKS"
    by (simp_all add: cold_state_def kstate_init_def scheduler_new_def)
  have "task_at (15 + k) cold_state = None" if "k \<in> {1, 2, 3}" for k
    using that by (auto simp: task_at_def l scheduler_new_def)
  from bring_up_sel [OF this] l show ?thesis by auto
qed

text \<open>
  C1.  No task runs on two CPUs: in every state the kernel reaches from one that satisfies the scheduler's invariant,
  by any interleaving of system calls, interrupts, exceptions, idle rounds and arbitrary code outside the kernel, two
  CPUs with the same current slot are both still in the boot slot.
\<close>

theorem task_exclusive:
  assumes "sched_ok s" and "(kernel_step env stub)\<^sup>*\<^sup>* (s, hs) (s', hs')"
    and "c < MAX_CPUS" "d < MAX_CPUS" "c \<noteq> d" "current_idx c s' = current_idx d s'"
  shows "current_idx c s' = 0"
proof -
  have "sched_ok s'" using kernel_steps_ok [OF assms(2)] assms(1) by simp
  then show ?thesis using assms(3-6) by (auto simp: sched_ok_def run_ok_def Let_def)
qed
definition demo_env :: sys_env where
  "demo_env = \<lparr>env_machine = default_machine False False, env_bins = (\<lambda>_. None), env_fw_smc = (\<lambda>_. 0), env_scratch = (\<lambda>_. 0)\<rparr>"

theorem task_exclusive_witness:
  "\<exists>s. bring_up (\<lambda>_. 0) cold_state = Some s \<and>
     (kernel_step demo_env 0)\<^sup>*\<^sup>* (s, hv_new) (device_irq 1 48 s, hv_new) \<and>
     current_idx 1 (device_irq 1 48 s) = current_idx 2 (device_irq 1 48 s) \<and> current_idx 1 (device_irq 1 48 s) = 0"
proof -
  obtain s where b: "bring_up (\<lambda>_. 0) cold_state = Some s" using bring_up_cold by blast
  have i: "irq_handler 0 1 False 0 48 s hv_new = Some (Returns, device_irq 1 48 s, hv_new)" by (simp add: irq_handler_def)
  have st: "(kernel_step demo_env 0)\<^sup>*\<^sup>* (s, hv_new) (device_irq 1 48 s, hv_new)"
    by (rule r_into_rtranclp, rule kernel_step.interrupt [OF _ i]) simp
  have "current_idx c s = 0" for c
  proof -
    have "tasks cold_state = scheduler_new" "length scheduler_new = MAX_TASKS" "current_idx c cold_state = 0"
      by (simp_all add: cold_state_def kstate_init_def scheduler_new_def current_idx_def)
    moreover from this have "task_at (15 + k) cold_state = None" if "k \<in> {1, 2, 3}" for k
      using that by (auto simp: task_at_def scheduler_new_def)
    ultimately show ?thesis using bring_up_sel [of cold_state "\<lambda>_. 0"] b by auto
  qed
  then have e: "current_idx 1 (device_irq 1 48 s) = current_idx 2 (device_irq 1 48 s)"
    by (simp add: device_irq_def disable_irq_def)
  from task_exclusive [OF boot_sched_ok [OF b] st _ _ _ e] have "current_idx 1 (device_irq 1 48 s) = 0" by simp
  then show ?thesis using b st e by blast
qed

section \<open>The wake-up note after boot\<close>

text \<open>
  C31.  The note the last spawn of the boot code leaves is trusted by the next system call: when the noted task is
  already running on another CPU and has the better priority, the tail of the call switches to it and the task runs
  on both CPUs.
\<close>

theorem stale_note_runs_twice:
  assumes "woken s = Some w" "current_idx c s = w" "c \<noteq> d" "current_idx d s = b" "b \<noteq> idle_slot d" "b \<noteq> w"
    and "task_at w s = Some t" "task_at b s = Some u" "priority t < priority u"
  shows "\<exists>s'. tanix_syscall env d 17 a0 a1 a2 s = Some (Ret 0, s') \<and> current_idx c s' = w \<and> current_idx d s' = w"
proof -
  let ?s = "set_state b Ready (s\<lparr>woken := None\<rparr>)"
  let ?r = "set_current d w (set_state w Running ?s)"
  have at: "task_at w ?r = Some (t\<lparr>tstate := Running\<rparr>)" "task_at b ?r = Some (u\<lparr>tstate := Ready\<rparr>)"
    using assms(6-8) by (simp_all add: task_at_set_state)
  obtain s' where s': "context_switch_unlock d b w ?r = Some s'"
    using at assms(6) by (auto simp: context_switch_unlock_def Let_def task_at_upd)
  have "reschedule d s = Some (True, s')"
    using assms s' by (simp add: reschedule_def take_woken_def Let_def prio_or_idle_def run_slot_def priority_and_name_def)
  then have "tanix_syscall env d 17 a0 a1 a2 s = Some (Ret 0, s')"
    by (simp add: tanix_syscall_def syscall_body_def sys_cache_sync_def ret_of_def)
  moreover have "current_idx c s' = current_idx c ?r" for c
    using switch_sel [OF s'] by (metis current_idx_simps(1) current_idx_simps(5))
  ultimately show ?thesis using assms(2,3) by simp
qed

text \<open>A boot: two servers spawned, priorities 96 and 32, the second one last; the CPUs released; CPU 0 and CPU 1 enter.\<close>

definition boot_two :: "kstate option" where
  "boot_two =
     do { (_, s) \<leftarrow> spawn_user (bytes ''ping'') 0x48000000 0x40100000 0x48010000 0x40200000 0x48000100
                      \<lparr>boot_task_id = 0, boot_machine = 0\<rparr> 0x48000000 0x48010000 cold_state;
          (_, s) \<leftarrow> spawn_user (bytes ''display'') 0x49000000 0x40110000 0x49010000 0x40210000 0x49000100
                      \<lparr>boot_task_id = 0, boot_machine = 0\<rparr> 0x49000000 0x49010000 (set_priority 1 96 s);
          s \<leftarrow> bring_up (\<lambda>_. 0) (set_priority 2 32 s);
          s \<leftarrow> enter 0 s;
          map_option snd (secondary_enter 1 s) }"

lemma spawn_user_first:
  assumes "find_idx (\<lambda>i. task_at i s = None) [1..<MAX_TASKS] = Some k" "next_id s \<noteq> - 1"
  shows "\<exists>s' t. spawn_user name en ttbr usp ktop bi bt ib ie s = Some (Some (next_id s), s') \<and> woken s' = Some (k + 1) \<and>
    next_id s' = next_id s + 1 \<and> tasks s' = (tasks s)[k + 1 := Some t] \<and> tid t = next_id s \<and> tstate t = Ready \<and>
    cpu_affinity t = None \<and> (\<forall>c. current_idx c s' = current_idx c s)"
  using assms find_idx_lt [OF assms(1)]
  by (auto simp: spawn_user_def u32_inc_def Let_def task_new_def current_idx_def nth_upt)

lemma boot_two_state:
  "\<exists>s. boot_two = Some s \<and> woken s = Some 2 \<and> current_idx 0 s = 2 \<and> current_idx 1 s = 1 \<and>
    view s 2 = Some (Running, 32, None) \<and> view s 1 = Some (Running, 96, None)"
proof -
  have up: "[1..<MAX_TASKS] = 1 # 2 # [3..<MAX_TASKS]" by (simp add: upt_rec)
  have c: "tasks cold_state = Some task_idle # None # None # replicate 29 None" "next_id cold_state = 1" "current_idx k cold_state = 0" for k
    by (simp_all add: cold_state_def kstate_init_def scheduler_new_def numeral_eq_Suc current_idx_def)
  have f1: "find_idx (\<lambda>i. task_at i cold_state = None) [1..<MAX_TASKS] = Some 0" unfolding up by (simp add: task_at_def c)
  from spawn_user_first [OF f1, where name = "bytes ''ping''" and en = "0x48000000" and ttbr = "0x40100000" and usp = "0x48010000" and
      ktop = "0x40200000" and bi = "0x48000100" and bt = "\<lparr>boot_task_id = 0, boot_machine = 0\<rparr>" and ib = "0x48000000" and ie = "0x48010000"] c
  obtain s1 t1 where s1: "spawn_user (bytes ''ping'') 0x48000000 0x40100000 0x48010000 0x40200000 0x48000100
        \<lparr>boot_task_id = 0, boot_machine = 0\<rparr> 0x48000000 0x48010000 cold_state = Some (Some 1, s1)" "next_id s1 = 2"
      "tasks s1 = Some task_idle # Some t1 # None # replicate 29 None" "tid t1 = 1" "tstate t1 = Ready" "cpu_affinity t1 = None"
      "\<And>k. current_idx k s1 = 0" by auto
  define p1 where "p1 = set_priority 1 96 s1"
  have p1: "tasks p1 = Some task_idle # Some (t1\<lparr>priority := 96\<rparr>) # None # replicate 29 None" "next_id p1 = 2" "current_idx k p1 = 0" for k
    using s1 by (simp_all add: p1_def set_priority_def upd_task_by_id_def task_idx_def lookup_slot_def task_idle_def upd_task_def task_at_def)
  have f2: "find_idx (\<lambda>i. task_at i p1 = None) [1..<MAX_TASKS] = Some 1" unfolding up by (simp add: task_at_def p1)
  have n2: "next_id p1 \<noteq> - 1" by (simp add: p1)
  have u2: "(a # b # c # r)[2 := x] = a # b # x # r" for a b c x :: "task option" and r by (simp add: numeral_2_eq_2)
  from spawn_user_first [OF f2 n2, where name = "bytes ''display''" and en = "0x49000000" and ttbr = "0x40110000" and usp = "0x49010000" and
      ktop = "0x40210000" and bi = "0x49000100" and bt = "\<lparr>boot_task_id = 0, boot_machine = 0\<rparr>" and ib = "0x49000000" and ie = "0x49010000"] p1
  obtain s2 t2 where s2: "spawn_user (bytes ''display'') 0x49000000 0x40110000 0x49010000 0x40210000 0x49000100
        \<lparr>boot_task_id = 0, boot_machine = 0\<rparr> 0x49000000 0x49010000 p1 = Some (Some 2, s2)" "woken s2 = Some 2"
      "tasks s2 = Some task_idle # Some (t1\<lparr>priority := 96\<rparr>) # Some t2 # replicate 29 None"
      "tid t2 = 2" "tstate t2 = Ready" "cpu_affinity t2 = None" "\<And>k. current_idx k s2 = 0" by (auto simp: u2)
  define p2 where "p2 = set_priority 2 32 s2"
  have p2: "tasks p2 = Some task_idle # Some (t1\<lparr>priority := 96\<rparr>) # Some (t2\<lparr>priority := 32\<rparr>) # replicate 29 None" "woken p2 = Some 2"
      "current_idx k p2 = 0" for k
    using s1(4) s2 by (simp_all add: p2_def set_priority_def upd_task_by_id_def task_idx_def lookup_slot_def task_idle_def upd_task_def task_at_def)
  have "task_at (15 + k) p2 = None" if "k \<in> {1, 2, 3}" for k
    using that by (auto simp: task_at_def p2 nth_Cons')
  from bring_up_sel [OF this, of "\<lambda>_. 0"] p2 obtain s3 where s3: "bring_up (\<lambda>_. 0) p2 = Some s3" "woken s3 = Some 2"
      "\<And>k. current_idx k s3 = 0" "tasks s3 = (tasks p2)[16 := Some (secondary_idle 1), 17 := Some (secondary_idle 2), 18 := Some (secondary_idle 3)]"
    by auto
  have v3: "view s3 i = (if i = 0 then Some (Running, 255, Some 0) else if i = 1 then Some (Ready, 96, None)
      else if i = 2 then Some (Ready, 32, None) else if i \<in> {16, 17, 18} then Some (Running, 255, Some (i - 15)) else None)" for i
    using s1(5,6) s2(5,6) by (auto simp: view_def task_at_def s3(4) p2 nth_Cons' nth_list_update secondary_idle_def task_idle_def)
  have pk3: "pick_next 0 s3 = 2" by (rule pick_next_view [of 2 s3 32]) (auto simp: v3 split: if_splits)
  obtain a0 a2 where a: "task_at 0 s3 = Some a0" "task_at 2 s3 = Some a2" "priority a2 = 32" "cpu_affinity a2 = None"
    using view_Some [of s3 0] view_Some [of s3 2] v3 by fastforce
  from run_slot_view [OF a(1,2), of 0] obtain s4 where s4: "run_slot 0 0 2 s3 = Some s4" "woken s4 = Some 2"
      "\<And>k. current_idx k s4 = (if k = 0 then 2 else 0)" "view s4 = (view s3)(2 := Some (Running, 32, None))"
    using s3 a by auto
  have pk4: "pick_next 1 s4 = 1" by (rule pick_next_view [of 1 s4 96]) (auto simp: s4(4) v3 split: if_splits)
  let ?s4 = "set_state 16 Ready s4"
  have v4: "view ?s4 = (view s4)(16 := Some (Ready, 255, Some 1))" by (rule view_set_state) (simp add: s4(4) v3)
  obtain b1 b16 where b: "task_at 1 ?s4 = Some b1" "task_at 16 ?s4 = Some b16" "priority b1 = 96" "cpu_affinity b1 = None"
    using view_Some [of ?s4 1] view_Some [of ?s4 16] v4 s4(4) v3 by fastforce
  from run_slot_view [OF b(2,1), of 1] obtain s5 where s5: "run_slot 1 16 1 ?s4 = Some s5" "woken s5 = Some 2"
      "\<And>k. current_idx k s5 = (if k = 1 then 1 else current_idx k s4)" "view s5 = (view ?s4)(1 := Some (Running, 96, None))"
    using s4(2) b by auto
  have "boot_two = Some s5"
    using s1(1) s2(1) s3(1) pk3 pk4 s4(1) s5(1)
    by (simp add: boot_two_def enter_def secondary_enter_def Let_def idle_slot_def flip: p1_def p2_def)
  then show ?thesis using s5 s4(3,4) v4 by auto
qed

theorem stale_note_runs_twice_witness:
  "\<exists>s s'. boot_two = Some s \<and> tanix_syscall demo_env 1 17 0 0 0 s = Some (Ret 0, s') \<and>
     current_idx 0 s' = 2 \<and> current_idx 1 s' = 2"
proof -
  obtain s where s: "boot_two = Some s" "woken s = Some 2" "current_idx 0 s = 2" "current_idx 1 s = 1"
      "view s 2 = Some (Running, 32, None)" "view s 1 = Some (Running, 96, None)" using boot_two_state by blast
  obtain t u where t: "task_at 2 s = Some t" "priority t = 32" "task_at 1 s = Some u" "priority u = 96"
    using view_Some [OF s(5)] view_Some [OF s(6)] by blast
  have "priority t < priority u" using t by simp
  from stale_note_runs_twice [OF s(2,3) _ s(4) _ _ t(1,3) this, of demo_env 0 0 0] s(1)
  show ?thesis by (auto simp: idle_slot_def)
qed

section \<open>Waiting for a device\<close>

lemma poke_other_irq [simp]: "irq_bits (poke_other_cpus me s) = irq_bits s" "gic_on (poke_other_cpus me s) = gic_on s"
proof -
  have "irq_bits (fold (\<lambda>cpu s. if cpu \<noteq> me \<and> is_online cpu s then send_sgi cpu 3 s else s) l s) = irq_bits s \<and>
      gic_on (fold (\<lambda>cpu s. if cpu \<noteq> me \<and> is_online cpu s then send_sgi cpu 3 s else s) l s) = gic_on s" for l
    by (induction l arbitrary: s) (auto simp: send_sgi_def)
  then show "irq_bits (poke_other_cpus me s) = irq_bits s" "gic_on (poke_other_cpus me s) = gic_on s"
    unfolding poke_other_cpus_def by blast+
qed



text \<open>
  C32.  A wait for an INTID from 96 to 1019 is accepted but can never end: the record of deliveries stops at 95, so
  the interrupt is dropped with its line left unmasked, and the poll of the wait loop fails in every state.
\<close>

theorem wait_high_irq_stuck:
  assumes "96 \<le> irq" "irq \<le> 1019"
  shows "\<exists>s'. sys_wait_irq cpu irq s = (Switched, s') \<and> gic_on s' irq \<and>
    irq_handler stub c el0 frame irq s' hs = Some (Returns, s', hs) \<and> (\<forall>x. sys_wait_irq_poll d irq x = (Switched, x))"
proof -
  have n: "\<not> unat irq < IRQ_MAX" using assms(1) by (simp add: word_le_nat_alt)
  have ge: "16 \<le> irq" using assms(1) by (simp add: word_le_nat_alt)
  have ne: "irq \<noteq> 0" "irq \<noteq> 1" "irq \<noteq> 2" "irq \<noteq> 3" "irq \<noteq> 30" using assms(1) by (auto simp: word_le_nat_alt)
  have nl: "\<not> irq < of_nat IRQ_MAX" using assms(1) by simp
  obtain s' where "sys_wait_irq cpu irq s = (Switched, s')" "gic_on s' irq"
    using ge assms(2) n by (auto simp: sys_wait_irq_def Let_def take_pending_def enable_irq_def)
  moreover have "irq_handler stub c el0 frame irq s' hs = Some (Returns, s', hs)"
    using ne nl by (simp add: irq_handler_def)
  ultimately show ?thesis using n by (auto simp: sys_wait_irq_poll_def irq_pending_def)
qed

theorem wait_high_irq_stuck_witness:
  "\<exists>s'. sys_wait_irq 0 100 cold_state = (Switched, s') \<and> (\<forall>x. sys_wait_irq_poll 0 100 x = (Switched, x))"
  using wait_high_irq_stuck [of 100 0 cold_state 0 0 False 0 hv_new 0] by auto

end
