(* ===== verification/Virtio.thy ===== *)
theory Virtio
  imports Hypervisor
begin

text \<open>
  The shared-memory message channel to a guest, \<^verbatim>\<open>kernel/src/virtio\<close>: the split virtqueue (\<^verbatim>\<open>mod.rs\<close>), the
  typed messages (\<^verbatim>\<open>channel.rs\<close>) and the kernel-side transport (\<^verbatim>\<open>transport.rs\<close>).

  Both sides see the same physical memory.  A field of \<open>n\<close> bytes is read and written as \<open>n\<close> little-endian
  bytes (\<open>ld\<close>, \<open>st\<close>); every call is one step, so the barriers have no counterpart.  The two ring indices are
  16-bit words that wrap.  The lemmas show that the available ring is a first-in first-out list of at most
  sixteen descriptors across the wrap of the index, and that a sent message arrives unchanged.
\<close>

section \<open>Memory fields\<close>

definition le_bytes :: "nat \<Rightarrow> nat \<Rightarrow> u8 list" where
  "le_bytes n v = map (\<lambda>i. of_nat (v div 256 ^ i)) [0..<n]"

definition ld :: "phys_addr \<Rightarrow> nat \<Rightarrow> kmem \<Rightarrow> nat" where
  "ld a n m = le_val (pload_bytes a n m)"

definition st :: "phys_addr \<Rightarrow> nat \<Rightarrow> nat \<Rightarrow> kmem \<Rightarrow> kmem" where
  "st a n v m = pstore_bytes a (le_bytes n v) m"

section \<open>Virtqueues\<close>

abbreviation QUEUE_SIZE :: nat where "QUEUE_SIZE \<equiv> 16"
abbreviation DESC_SIZE :: nat where "DESC_SIZE \<equiv> 16"
abbreviation OFF_CONFIG :: nat where "OFF_CONFIG \<equiv> 0"
abbreviation OFF_DESC :: nat where "OFF_DESC \<equiv> 0x40"
abbreviation OFF_AVAIL :: nat where "OFF_AVAIL \<equiv> OFF_DESC + QUEUE_SIZE * DESC_SIZE"
abbreviation OFF_USED :: nat where "OFF_USED \<equiv> 0x1000"
abbreviation OFF_BUFFERS :: nat where "OFF_BUFFERS \<equiv> 0x2000"
abbreviation BUF_SIZE :: nat where "BUF_SIZE \<equiv> 256"
abbreviation VIRTQ_MAGIC :: nat where "VIRTQ_MAGIC \<equiv> 0x56495254"

record virtqueue =
  vq_desc :: phys_addr
  vq_avail :: phys_addr
  vq_used :: phys_addr
  vq_bufs :: phys_addr
  last_used_idx :: u16
  avail_idx :: u16

definition from_phys :: "phys_addr \<Rightarrow> virtqueue" where
  "from_phys base = \<lparr>vq_desc = base + OFF_DESC, vq_avail = base + OFF_AVAIL, vq_used = base + OFF_USED,
     vq_bufs = base + OFF_BUFFERS, last_used_idx = 0, avail_idx = 0\<rparr>"

definition buf_ptr :: "virtqueue \<Rightarrow> nat \<Rightarrow> phys_addr" where
  "buf_ptr vq i = vq_bufs vq + i * BUF_SIZE"

text \<open>Field addresses: of a descriptor, of an entry of the available ring, and of one of the used ring.\<close>

definition desc_at :: "virtqueue \<Rightarrow> nat \<Rightarrow> phys_addr" where
  "desc_at vq i = vq_desc vq + i * DESC_SIZE"

definition avail_at :: "virtqueue \<Rightarrow> nat \<Rightarrow> phys_addr" where
  "avail_at vq i = vq_avail vq + 4 + 2 * i"

definition used_at :: "virtqueue \<Rightarrow> nat \<Rightarrow> phys_addr" where
  "used_at vq i = vq_used vq + 4 + 8 * i"

definition post_avail :: "u16 \<Rightarrow> u32 \<Rightarrow> virtqueue \<Rightarrow> kmem \<Rightarrow> virtqueue \<times> kmem" where
  "post_avail desc_idx len vq m =
     (let d = desc_at vq (unat desc_idx);
          m = st d 8 (vq_bufs vq + unat desc_idx * BUF_SIZE) m;
          m = st (d + 8) 4 (unat len) m;
          m = st (d + 12) 2 0 m;
          m = st (d + 14) 2 0 m;
          ai = unat (avail_idx vq) mod QUEUE_SIZE;
          m = st (avail_at vq ai) 2 (unat desc_idx) m;
          vq = vq\<lparr>avail_idx := avail_idx vq + 1\<rparr>;
          m = st (vq_avail vq + 2) 2 (unat (avail_idx vq)) m
      in (vq, m))"

text \<open>Both polling loops count a 16-bit index up to the one read, so they end after at most 65535 rounds.\<close>

lemma idx_step: "a \<noteq> b \<Longrightarrow> unat (b - (a + 1)) < unat (b - a)" for a b :: u16
proof -
  assume "a \<noteq> b"
  then have "b - a \<noteq> 0" by simp
  then have "unat (b - a - 1) = unat (b - a) - 1" by (rule unat_minus_one)
  moreover have "0 < unat (b - a)" using \<open>b - a \<noteq> 0\<close> by (simp add: unat_gt_0)
  ultimately show ?thesis by (simp add: diff_diff_eq)
qed

function poll_used :: "virtqueue \<Rightarrow> kmem \<Rightarrow> (u16 \<times> u32) list \<times> virtqueue" where
  "poll_used vq m =
     (let used_idx = of_nat (ld (vq_used vq + 2) 2 m) in
      if used_idx = last_used_idx vq then ([], vq)
      else let slot = unat (last_used_idx vq) mod QUEUE_SIZE;
               e = (of_nat (ld (used_at vq slot) 4 m), of_nat (ld (used_at vq slot + 4) 4 m));
               (es, vq) = poll_used (vq\<lparr>last_used_idx := last_used_idx vq + 1\<rparr>) m
           in (e # es, vq))"
  by pat_completeness auto
termination
  by (relation "measure (\<lambda>(vq, m). unat (of_nat (ld (vq_used vq + 2) 2 m) - last_used_idx vq))") (auto simp: idx_step)

function avail_loop :: "u16 \<Rightarrow> virtqueue \<Rightarrow> kmem \<Rightarrow> u16 list \<times> virtqueue" where
  "avail_loop lim vq m =
     (if avail_idx vq = lim then ([], vq)
      else let slot = unat (avail_idx vq) mod QUEUE_SIZE;
               d = of_nat (ld (avail_at vq slot) 2 m);
               (ds, vq) = avail_loop lim (vq\<lparr>avail_idx := avail_idx vq + 1\<rparr>) m
           in (d # ds, vq))"
  by pat_completeness auto
termination
  by (relation "measure (\<lambda>(lim, vq, m). unat (lim - avail_idx vq))") (auto simp: idx_step)

declare poll_used.simps [simp del] avail_loop.simps [simp del]

definition guest_poll_avail :: "virtqueue \<Rightarrow> kmem \<Rightarrow> u16 list \<times> virtqueue" where
  "guest_poll_avail vq m = avail_loop (of_nat (ld (vq_avail vq + 2) 2 m)) vq m"

definition guest_put_used :: "u16 \<Rightarrow> u32 \<Rightarrow> virtqueue \<Rightarrow> kmem \<Rightarrow> virtqueue \<times> kmem" where
  "guest_put_used desc_idx written vq m =
     (let ui = unat (last_used_idx vq) mod QUEUE_SIZE;
          m = st (used_at vq ui) 4 (unat desc_idx) m;
          m = st (used_at vq ui + 4) 4 (unat written) m;
          vq = vq\<lparr>last_used_idx := last_used_idx vq + 1\<rparr>;
          m = st (vq_used vq + 2) 2 (unat (last_used_idx vq)) m
      in (vq, m))"

section \<open>Messages\<close>

datatype opcode = Print | Echo

abbreviation MAX_PAYLOAD :: nat where "MAX_PAYLOAD \<equiv> 252"

definition opcode_of :: "phys_addr \<Rightarrow> kmem \<Rightarrow> opcode option" where
  "opcode_of buf m =
     (let b = pload8 buf m in if b = 1 then Some Print else if b = 2 then Some Echo else None)"

definition payload_len :: "phys_addr \<Rightarrow> kmem \<Rightarrow> nat" where
  "payload_len buf m = unat (pload8 (buf + 3) m)"

definition payload :: "phys_addr \<Rightarrow> kmem \<Rightarrow> u8 list" where
  "payload buf m = pload_bytes (buf + 4) (min (payload_len buf m) MAX_PAYLOAD) m"

definition write_print :: "phys_addr \<Rightarrow> u8 list \<Rightarrow> kmem \<Rightarrow> u32 \<times> kmem" where
  "write_print buf text m =
     (let n = min (length text) MAX_PAYLOAD
      in (of_nat (4 + n), pstore_bytes (buf + 4) (take n text) (pstore_bytes buf [1, 0, 0, of_nat n] m)))"

definition write_echo :: "phys_addr \<Rightarrow> u32 \<Rightarrow> kmem \<Rightarrow> u32 \<times> kmem" where
  "write_echo buf printed m = (8, pstore_bytes (buf + 4) (le_bytes 4 (unat printed)) (pstore_bytes buf [2, 0, 0, 4] m))"

definition read_echo :: "phys_addr \<Rightarrow> kmem \<Rightarrow> u32" where
  "read_echo buf m = of_nat (le_val (pload_bytes (buf + 4) 4 m))"

section \<open>The kernel side\<close>

record virtio_transport =
  vt_shmem :: phys_addr
  vt_vq :: virtqueue
  vt_tx_desc :: u16
  vt_doorbell :: u32

definition transport_new :: "phys_addr \<Rightarrow> u32 \<Rightarrow> kmem \<Rightarrow> virtio_transport \<times> kmem" where
  "transport_new shmem bell m =
     (let m = st (shmem + 4) 4 QUEUE_SIZE m;
          m = st (shmem + 8) 8 (shmem + OFF_DESC) m;
          m = st (shmem + 16) 8 (shmem + OFF_AVAIL) m;
          m = st (shmem + 24) 8 (shmem + OFF_USED) m;
          m = st (shmem + 32) 8 (shmem + OFF_BUFFERS) m;
          m = st (shmem + 40) 4 BUF_SIZE m;
          m = st (shmem + 44) 4 QUEUE_SIZE m;
          m = pstore_bytes (shmem + 48) (replicate 16 0) m;
          m = st shmem 4 VIRTQ_MAGIC m
      in (\<lparr>vt_shmem = shmem, vt_vq = from_phys shmem, vt_tx_desc = 0, vt_doorbell = bell\<rparr>, m))"

text \<open>An error of the doorbell is only logged; its counter overflow is a panic.\<close>

definition send_print ::
  "u8 list \<Rightarrow> virtio_transport \<Rightarrow> kmem \<Rightarrow> hv_state \<Rightarrow> (u16 \<times> virtio_transport \<times> kmem \<times> hv_state) option" where
  "send_print text t m hs =
     (let d = vt_tx_desc t;
          t = t\<lparr>vt_tx_desc := (vt_tx_desc t + 1) mod of_nat QUEUE_SIZE\<rparr>;
          (len, m) = write_print (buf_ptr (vt_vq t) (unat d)) text m;
          (vq, m) = post_avail d len (vt_vq t) m
      in do { (_, hs) \<leftarrow> doorbell_send (vt_doorbell t) hs;
              Some (d, t\<lparr>vt_vq := vq\<rparr>, m, hs) })"

definition reply_of :: "virtqueue \<Rightarrow> kmem \<Rightarrow> u16 \<times> u32 \<Rightarrow> (u16 \<times> opcode \<times> u32) option" where
  "reply_of vq m = (\<lambda>(d, _).
     let buf = buf_ptr vq (unat d) in
     case opcode_of buf m of
       None \<Rightarrow> None
     | Some op \<Rightarrow> Some (d, op, if op = Echo then read_echo buf m else 0))"

definition poll_replies :: "virtio_transport \<Rightarrow> kmem \<Rightarrow> (u16 \<times> opcode \<times> u32) list \<times> virtio_transport" where
  "poll_replies t m =
     (case poll_used (vt_vq t) m of (es, vq) \<Rightarrow> (List.map_filter (reply_of vq m) es, t\<lparr>vt_vq := vq\<rparr>))"

section \<open>Fields\<close>

lemma le_bytes_Suc: "le_bytes (Suc n) v = of_nat v # le_bytes n (v div 256)"
  by (simp add: le_bytes_def upt_conv_Cons map_Suc_upt [symmetric] div_mult2_eq del: upt_Suc)

lemma length_le_bytes [simp]: "length (le_bytes n v) = n"
  by (simp add: le_bytes_def)

lemma le_val_le_bytes: "le_val (le_bytes n v) = v mod 256 ^ n"
proof (induction n arbitrary: v)
  case (Suc n)
  have "unat (of_nat v :: u8) = v mod 256" by (simp add: unsigned_of_nat take_bit_eq_mod)
  moreover have "le_val (of_nat v # le_bytes n (v div 256)) = unat (of_nat v :: u8) + 256 * le_val (le_bytes n (v div 256))"
    by (simp add: le_val_def)
  ultimately show ?case using Suc by (simp add: le_bytes_Suc mod_mult2_eq)
qed (simp add: le_bytes_def le_val_def)

lemma ld_st: "ld a n (st a n v m) = v mod 256 ^ n"
  using pload_pstore_bytes [of a "le_bytes n v" m] by (simp add: ld_def st_def le_val_le_bytes)

lemma pload8_st: "a < b \<or> b + n \<le> a \<Longrightarrow> pload8 a (st b n v m) = pload8 a m"
  by (auto simp: st_def pload8_pstore_bytes)

lemma pload_bytes_cong: "(\<And>i. i < n \<Longrightarrow> pload8 (a + i) m' = pload8 (a + i) m) \<Longrightarrow> pload_bytes a n m' = pload_bytes a n m"
  by (simp add: pload_bytes_def)

lemma ld_cong: "(\<And>i. i < n \<Longrightarrow> pload8 (a + i) m' = pload8 (a + i) m) \<Longrightarrow> ld a n m' = ld a n m"
  using pload_bytes_cong [of n a m' m] unfolding ld_def by presburger

lemma ld_st_other: "a + n \<le> b \<or> b + k \<le> a \<Longrightarrow> ld a n (st b k v m) = ld a n m"
  by (rule ld_cong) (auto intro!: pload8_st)

section \<open>The available ring as a list\<close>

definition vq_at :: "phys_addr \<Rightarrow> virtqueue \<Rightarrow> bool" where
  "vq_at base vq \<longleftrightarrow> vq_desc vq = base + OFF_DESC \<and> vq_avail vq = base + OFF_AVAIL \<and> vq_used vq = base + OFF_USED \<and>
     vq_bufs vq = base + OFF_BUFFERS"

definition avail_pending :: "u16 \<Rightarrow> virtqueue \<Rightarrow> kmem \<Rightarrow> u16 list" where
  "avail_pending lim vq m =
     map (\<lambda>j. of_nat (ld (avail_at vq ((unat (avail_idx vq) + j) mod QUEUE_SIZE)) 2 m)) [0..<unat (lim - avail_idx vq)]"

lemma idx_mod: "unat (a + 1) mod QUEUE_SIZE = (unat a + 1) mod QUEUE_SIZE" for a :: u16
proof -
  have "unat (a + 1) = (unat a + 1) mod 65536" by (simp add: unat_word_ariths)
  then show ?thesis by (simp add: mod_mod_cancel)
qed

lemma idx_diff: "a \<noteq> b \<Longrightarrow> unat (b - a) = Suc (unat (b - (a + 1)))" for a b :: u16
proof -
  assume "a \<noteq> b"
  then have "b - a \<noteq> 0" by simp
  then have "unat (b - a - 1) = unat (b - a) - 1" by (rule unat_minus_one)
  moreover have "0 < unat (b - a)" using \<open>b - a \<noteq> 0\<close> by (simp add: unat_gt_0)
  ultimately show ?thesis by (simp add: diff_diff_eq)
qed

lemma avail_loop_pending: "avail_loop lim vq m = (avail_pending lim vq m, vq\<lparr>avail_idx := lim\<rparr>)"
proof (induction lim vq m rule: avail_loop.induct)
  case (1 lim vq m)
  show ?case
  proof (cases "avail_idx vq = lim")
    case True
    then have "vq\<lparr>avail_idx := lim\<rparr> = vq" by (cases vq) simp
    then show ?thesis using True by (simp add: avail_loop.simps [of lim vq m] avail_pending_def)
  next
    case False
    let ?v = "vq\<lparr>avail_idx := avail_idx vq + 1\<rparr>"
    have "(unat (avail_idx vq + 1) + j) mod QUEUE_SIZE = (unat (avail_idx vq) + Suc j) mod QUEUE_SIZE" for j
      using idx_mod [of "avail_idx vq"] by (metis add_Suc_right add_Suc_shift Suc_eq_plus1 mod_add_left_eq)
    then have "avail_pending lim ?v m =
        map (\<lambda>j. of_nat (ld (avail_at vq ((unat (avail_idx vq) + Suc j) mod QUEUE_SIZE)) 2 m)) [0..<unat (lim - (avail_idx vq + 1))]"
      by (simp add: avail_pending_def avail_at_def)
    then have "avail_pending lim vq m = of_nat (ld (avail_at vq (unat (avail_idx vq) mod QUEUE_SIZE)) 2 m) # avail_pending lim ?v m"
      unfolding avail_pending_def [of lim vq m] idx_diff [OF False]
      by (simp add: upt_conv_Cons map_Suc_upt [symmetric] del: upt_Suc)
    then show ?thesis using 1 False by (simp add: avail_loop.simps [of lim vq m])
  qed
qed

lemma post_avail_mem:
  assumes "post_avail d len vq m = (vq', m')" "vq_at base vq" "unat d < QUEUE_SIZE"
  obtains D A I where "D = desc_at vq (unat d)" "A = avail_at vq (unat (avail_idx vq) mod QUEUE_SIZE)" "I = vq_avail vq + 2"
    "D + 16 \<le> I" "I + 2 \<le> A" "A + 2 \<le> base + OFF_USED" "vq' = vq\<lparr>avail_idx := avail_idx vq + 1\<rparr>"
    "m' = st I 2 (unat (avail_idx vq + 1)) (st A 2 (unat d) (st (D + 14) 2 0 (st (D + 12) 2 0 (st (D + 8) 4 (unat len)
      (st D 8 (vq_bufs vq + unat d * BUF_SIZE) m)))))"
proof
  have ai: "unat (avail_idx vq) mod QUEUE_SIZE < QUEUE_SIZE" by simp
  show "desc_at vq (unat d) + 16 \<le> vq_avail vq + 2" "vq_avail vq + 2 + 2 \<le> avail_at vq (unat (avail_idx vq) mod QUEUE_SIZE)"
    "avail_at vq (unat (avail_idx vq) mod QUEUE_SIZE) + 2 \<le> base + OFF_USED"
    using assms(2,3) ai by (simp_all add: vq_at_def desc_at_def avail_at_def)
qed (use assms(1) in \<open>auto simp: post_avail_def Let_def avail_at_def desc_at_def\<close>)

lemma post_avail_pload8:
  assumes "post_avail d len vq m = (vq', m')" "vq_at base vq" "unat d < QUEUE_SIZE" "base + OFF_USED \<le> a"
  shows "pload8 a m' = pload8 a m"
  by (rule post_avail_mem [OF assms(1-3)]) (use assms(4) in \<open>simp add: pload8_st\<close>)

lemma unat_u16: "unat x mod 65536 = unat x" for x :: u16
proof -
  have "unat x < 2 ^ LENGTH(16)" by (rule unsigned_less)
  then show ?thesis by simp
qed

lemma unat_u32: "unat x mod 4294967296 = unat x" for x :: u32
proof -
  have "unat x < 2 ^ LENGTH(32)" by (rule unsigned_less)
  then show ?thesis by simp
qed

lemma post_avail_fields:
  assumes "post_avail d len vq m = (vq', m')" "vq_at base vq" "unat d < QUEUE_SIZE"
  shows "vq' = vq\<lparr>avail_idx := avail_idx vq + 1\<rparr>"
    "ld (vq_avail vq + 2) 2 m' = unat (avail_idx vq + 1)"
    "ld (avail_at vq (unat (avail_idx vq) mod QUEUE_SIZE)) 2 m' = unat d"
    "ld (desc_at vq (unat d)) 8 m' = (vq_bufs vq + unat d * BUF_SIZE) mod 2 ^ 64"
    "ld (desc_at vq (unat d) + 8) 4 m' = unat len"
  by (rule post_avail_mem [OF assms]; simp add: ld_st_other ld_st unat_u16 unat_u32)+

lemma post_avail_other:
  assumes "post_avail d len vq m = (vq', m')" "vq_at base vq" "unat d < QUEUE_SIZE"
    and "i < QUEUE_SIZE" "i \<noteq> unat (avail_idx vq) mod QUEUE_SIZE"
  shows "ld (avail_at vq i) 2 m' = ld (avail_at vq i) 2 m"
proof (rule post_avail_mem [OF assms(1-3)])
  fix D A I assume h: "D = desc_at vq (unat d)" "A = avail_at vq (unat (avail_idx vq) mod QUEUE_SIZE)" "I = vq_avail vq + 2"
    "D + 16 \<le> I" "I + 2 \<le> A"
    "m' = st I 2 (unat (avail_idx vq + 1)) (st A 2 (unat d) (st (D + 14) 2 0 (st (D + 12) 2 0 (st (D + 8) 4 (unat len)
      (st D 8 (vq_bufs vq + unat d * BUF_SIZE) m)))))"
  define B where "B = avail_at vq i"
  have "I + 2 \<le> B" "B + 2 \<le> A \<or> A + 2 \<le> B" using assms(5) by (auto simp: B_def h avail_at_def)
  then show ?thesis unfolding h(6) B_def [symmetric] using h(4) by (simp add: ld_st_other)
qed

lemma pending_post:
  assumes "post_avail d len k m = (k', m')" "vq_at base k" "vq_at base g" "unat d < QUEUE_SIZE"
    and "unat (avail_idx k - avail_idx g) < QUEUE_SIZE"
  shows "avail_pending (avail_idx k') g m' = avail_pending (avail_idx k) g m @ [d]"
proof -
  let ?n = "unat (avail_idx k - avail_idx g)" and ?a = "unat (avail_idx g)"
  have same: "avail_at g i = avail_at k i" for i using assms(2,3) by (simp add: vq_at_def avail_at_def)
  note f = post_avail_fields [OF assms(1,2,4)]
  have "unat (avail_idx k) = (?a + ?n) mod 65536"
    using unat_word_ariths(1) [of "avail_idx g" "avail_idx k - avail_idx g"] by simp
  then have k: "unat (avail_idx k) mod QUEUE_SIZE = (?a + ?n) mod QUEUE_SIZE" by (simp add: mod_mod_cancel)
  have "avail_idx k + 1 - avail_idx g = (avail_idx k - avail_idx g) + 1" by simp
  moreover have "unat (avail_idx k - avail_idx g + 1) = Suc ?n"
    using unat_word_ariths(1) [of "avail_idx k - avail_idx g" 1] assms(5) by simp
  ultimately have n: "unat (avail_idx k + 1 - avail_idx g) = Suc ?n" by metis
  have "ld (avail_at g ((?a + j) mod QUEUE_SIZE)) 2 m' = ld (avail_at g ((?a + j) mod QUEUE_SIZE)) 2 m" if "j < ?n" for j
    using post_avail_other [OF assms(1,2,4), of "(?a + j) mod QUEUE_SIZE"] ring_apart [OF that assms(5), of ?a]
    by (simp add: same k)
  moreover have "ld (avail_at g ((?a + ?n) mod QUEUE_SIZE)) 2 m' = unat d" using f(3) by (simp add: same k)
  ultimately show ?thesis unfolding f(1) by (simp add: avail_pending_def n)
qed

fun post_all :: "(u16 \<times> u32) list \<Rightarrow> virtqueue \<Rightarrow> kmem \<Rightarrow> virtqueue \<times> kmem" where
  "post_all [] vq m = (vq, m)"
| "post_all ((d, len) # ds) vq m = (case post_avail d len vq m of (vq, m) \<Rightarrow> post_all ds vq m)"

lemma guest_poll_pending:
  "ld (vq_avail g + 2) 2 m = unat i \<Longrightarrow> guest_poll_avail g m = (avail_pending i g m, g\<lparr>avail_idx := i\<rparr>)" for i :: u16
  by (simp add: guest_poll_avail_def avail_loop_pending)

lemma idx_room:
  fixes a b :: u16
  assumes "unat (a - b) + Suc n \<le> QUEUE_SIZE"
  shows "unat (a + 1 - b) + n \<le> QUEUE_SIZE"
proof -
  have "a + 1 - b = (a - b) + 1" by simp
  moreover have "unat (a - b + 1) \<le> Suc (unat (a - b))"
    using unat_word_ariths(1) [of "a - b" 1] assms by simp
  ultimately have "unat (a + 1 - b) \<le> Suc (unat (a - b))" by metis
  then show ?thesis using assms by linarith
qed

lemma post_all_pending:
  "post_all ds k m = (k', m') \<Longrightarrow> vq_at base k \<Longrightarrow> vq_at base g \<Longrightarrow> (\<And>d. d \<in> fst ` set ds \<Longrightarrow> unat d < QUEUE_SIZE) \<Longrightarrow>
     unat (avail_idx k - avail_idx g) + length ds \<le> QUEUE_SIZE \<Longrightarrow> ld (vq_avail g + 2) 2 m = unat (avail_idx k) \<Longrightarrow>
     avail_pending (avail_idx k') g m' = avail_pending (avail_idx k) g m @ map fst ds \<and>
     ld (vq_avail g + 2) 2 m' = unat (avail_idx k') \<and> vq_at base k'"
proof (induction ds arbitrary: k m)
  case (Cons x ds)
  obtain d len where x: "x = (d, len)" by fastforce
  obtain k1 m1 where 1: "post_avail d len k m = (k1, m1)" by fastforce
  have d: "unat d < QUEUE_SIZE" using Cons.prems(4) [of d] by (simp add: x)
  note f = post_avail_fields [OF 1 Cons.prems(2) d]
  have k1: "vq_at base k1" "avail_idx k1 = avail_idx k + 1" using f(1) Cons.prems(2) by (auto simp: vq_at_def)
  have e: "vq_avail g = vq_avail k" using Cons.prems(2,3) by (simp add: vq_at_def)
  have p: "avail_pending (avail_idx k1) g m1 = avail_pending (avail_idx k) g m @ [d]"
    using pending_post [OF 1 Cons.prems(2,3) d] Cons.prems(5) by simp
  have r: "unat (avail_idx k1 - avail_idx g) + length ds \<le> QUEUE_SIZE"
    unfolding k1(2) by (rule idx_room) (use Cons.prems(5) in simp)
  have "post_all ds k1 m1 = (k', m')" using Cons.prems(1) by (simp add: x 1)
  from Cons.IH [OF this k1(1) Cons.prems(3) _ r] Cons.prems(4) f(2) p
  show ?case by (simp add: e k1(2) x)
qed simp

lemma boot_idx: "ld (vq_avail (from_phys 0x50000000) + 2) 2 (boot_kmem fa) = unat (avail_idx (from_phys 0x50000000))"
proof -
  have "pload8 a (boot_kmem fa) = 0" if "0x50000000 \<le> a" for a
  proof -
    have "page_down a \<noteq> 0x40100000" "page_down a \<noteq> 0x40101000" "page_down a \<noteq> 0x40102000"
      using that by (auto simp: page_down_def)
    then show ?thesis by (simp add: pload8_def pload64_def entry_def boot_kmem_def boot_pages_def get_field_def)
  qed
  then show ?thesis by (simp add: ld_def from_phys_def pload_bytes_def le_val_def numeral_2_eq_2)
qed

section \<open>Properties\<close>

text \<open>
  C10.  The available ring is a first-in first-out queue of descriptors, across the wrap of its 16-bit index.
  As long as no more than sixteen descriptors are outstanding, what the guest finds after the kernel has
  posted a list of descriptors is what it would have found before, followed by that list in order, and the
  guest has then caught up with the kernel.
\<close>

theorem avail_ring_fifo:
  assumes "post_all ds k m = (k', m')" "vq_at base k" "vq_at base g" "\<And>d. d \<in> fst ` set ds \<Longrightarrow> unat d < QUEUE_SIZE"
    and "unat (avail_idx k - avail_idx g) + length ds \<le> QUEUE_SIZE" "ld (vq_avail g + 2) 2 m = unat (avail_idx k)"
  shows "guest_poll_avail g m' = (fst (guest_poll_avail g m) @ map fst ds, g\<lparr>avail_idx := avail_idx k'\<rparr>)"
  using post_all_pending [OF assms] assms(6) by (simp add: guest_poll_pending)

theorem avail_ring_fifo_witness:
  "let m = boot_kmem new_zeroed; k = from_phys 0x50000000 in
   case post_all [(3, 8), (4, 12)] k m of (k', m') \<Rightarrow> guest_poll_avail k m' = ([3, 4], k\<lparr>avail_idx := avail_idx k'\<rparr>)"
proof -
  let ?m = "boot_kmem new_zeroed" and ?k = "from_phys 0x50000000"
  obtain k' m' where p: "post_all [(3, 8), (4, 12)] ?k ?m = (k', m')" by fastforce
  have l: "ld (vq_avail ?k + 2) 2 ?m = unat (avail_idx ?k)" by (rule boot_idx)
  then have "fst (guest_poll_avail ?k ?m) = []" by (simp add: guest_poll_pending avail_pending_def)
  moreover have "vq_at 0x50000000 ?k" by (simp add: vq_at_def from_phys_def)
  moreover have "unat d < QUEUE_SIZE" if "d \<in> fst ` set [(3 :: u16, 8 :: u32), (4, 12)]" for d using that by auto
  ultimately show ?thesis using avail_ring_fifo [OF p _ _ _ _ l] p by (simp add: Let_def)
qed

text \<open>
  C24.  A printed text reaches the guest.  After \<open>send_print\<close>, a guest that had caught up finds exactly the
  descriptor used; the descriptor points to the channel's buffer and gives the length of the message, and
  the buffer holds a print message whose payload is the text, cut at 252 bytes.
\<close>

theorem send_print_delivered:
  assumes "send_print text t m hs = Some (d, t', m', hs')" "vq_at base (vt_vq t)" "vq_at base g"
    and "unat (vt_tx_desc t) < QUEUE_SIZE" "base + OFF_BUFFERS + QUEUE_SIZE * BUF_SIZE < 2 ^ 64"
    and "avail_idx g = avail_idx (vt_vq t)" "ld (vq_avail g + 2) 2 m = unat (avail_idx g)"
  shows "fst (guest_poll_avail g m') = [d] \<and>
    ld (desc_at g (unat d)) 8 m' = buf_ptr g (unat d) \<and>
    ld (desc_at g (unat d) + 8) 4 m' = 4 + min (length text) MAX_PAYLOAD \<and>
    opcode_of (buf_ptr g (unat d)) m' = Some Print \<and> payload (buf_ptr g (unat d)) m' = take MAX_PAYLOAD text"
proof -
  let ?k = "vt_vq t" and ?n = "min (length text) MAX_PAYLOAD" and ?buf = "buf_ptr (vt_vq t) (unat (vt_tx_desc t))"
  define m1 where "m1 = pstore_bytes (?buf + 4) (take ?n text) (pstore_bytes ?buf [1, 0, 0, of_nat ?n] m)"
  obtain k1 m2 where p: "post_avail (vt_tx_desc t) (of_nat (4 + ?n)) ?k m1 = (k1, m2)" by fastforce
  have d: "d = vt_tx_desc t" "m' = m2"
    using assms(1) p by (auto simp: send_print_def write_print_def Let_def m1_def buf_ptr_def split: Option.bind_splits prod.splits)
  have bg: "buf_ptr g (unat d) = ?buf" "desc_at g (unat d) = desc_at ?k (unat d)" "vq_avail g = vq_avail ?k"
    using assms(2,3) by (simp_all add: buf_ptr_def vq_at_def desc_at_def d)
  have lo: "base + OFF_BUFFERS \<le> ?buf" "?buf + BUF_SIZE \<le> base + OFF_BUFFERS + QUEUE_SIZE * BUF_SIZE"
    using assms(2,4) by (simp_all add: buf_ptr_def vq_at_def)
  have keep: "pload8 a m1 = pload8 a m" if "a < base + OFF_BUFFERS" for a
    using that lo by (simp add: m1_def pload8_pstore_bytes)
  have "ld (vq_avail g + 2) 2 m1 = ld (vq_avail g + 2) 2 m"
    by (rule ld_cong) (use assms(3) keep in \<open>simp add: vq_at_def\<close>)
  then have idx: "ld (vq_avail g + 2) 2 m1 = unat (avail_idx ?k)" using assms(6,7) by simp
  note f = post_avail_fields [OF p assms(2,4)]
  have "unat (avail_idx ?k - avail_idx g) < QUEUE_SIZE" by (simp add: assms(6))
  from pending_post [OF p assms(2,3,4) this] have "avail_pending (avail_idx k1) g m' = [d]"
    using assms(6) by (simp add: d avail_pending_def)
  moreover have "ld (vq_avail g + 2) 2 m' = unat (avail_idx k1)" using f(1,2) by (simp add: bg d)
  ultimately have 1: "fst (guest_poll_avail g m') = [d]" by (simp add: guest_poll_pending)
  have "unat (of_nat (4 + ?n) :: u32) = 4 + ?n" by (rule unat_of_nat_u32) simp
  then have 2: "ld (desc_at g (unat d)) 8 m' = ?buf" "ld (desc_at g (unat d) + 8) 4 m' = 4 + ?n"
    using f(4,5) lo assms(5) bg(2) unfolding d by (simp_all add: buf_ptr_def)
  have b: "pload8 a m' = pload8 a m1" if "?buf \<le> a" for a
    unfolding d by (rule post_avail_pload8 [OF p assms(2,4)]) (use that lo in simp)
  have hdr: "pload8 ?buf m' = 1" "pload8 (?buf + 3) m' = of_nat ?n"
    by (simp_all add: b m1_def pload8_pstore_bytes)
  have n: "unat (of_nat ?n :: u8) = ?n" by (simp add: unsigned_of_nat take_bit_nat_eq_self_iff)
  have "pload_bytes (?buf + 4) ?n m' = take ?n text"
    by (rule nth_equalityI) (auto simp: pload_bytes_def b m1_def pload8_pstore_bytes)
  then have "payload ?buf m' = take ?n text" using hdr(2) n by (simp add: payload_def payload_len_def)
  moreover have "take ?n text = take MAX_PAYLOAD text" by (simp add: min_def)
  ultimately show ?thesis using 1 2 hdr(1) by (simp add: bg opcode_of_def)
qed

theorem send_print_delivered_witness:
  "let t = \<lparr>vt_shmem = 0x50000000, vt_vq = from_phys 0x50000000, vt_tx_desc = 0, vt_doorbell = 1\<rparr>;
       g = from_phys 0x50000000 in
   \<exists>d t' m' hs'. send_print [72, 105] t (boot_kmem new_zeroed) hv_new = Some (d, t', m', hs') \<and>
     fst (guest_poll_avail g m') = [d] \<and> payload (buf_ptr g (unat d)) m' = [72, 105]"
proof -
  let ?t = "\<lparr>vt_shmem = 0x50000000, vt_vq = from_phys 0x50000000, vt_tx_desc = 0, vt_doorbell = 1\<rparr>"
  have "bell_idx (\<lambda>e. db_handle e = 1) hv_new = None"
    by (simp add: bell_idx_def hv_new_def lookup_slot_def find_idx_None)
  then have "\<exists>d t' m' hs'. send_print [72, 105] ?t (boot_kmem new_zeroed) hv_new = Some (d, t', m', hs')"
    by (simp add: send_print_def Let_def doorbell_send_def ring_sgi_def case_prod_beta)
  then obtain d t' m' hs' where s: "send_print [72, 105] ?t (boot_kmem new_zeroed) hv_new = Some (d, t', m', hs')" by blast
  have v: "vq_at 0x50000000 (from_phys 0x50000000)" by (simp add: vq_at_def from_phys_def)
  from send_print_delivered [OF s _ v] v boot_idx [of new_zeroed] s show ?thesis by (simp add: Let_def)
qed

end
