(* ===== verification/Vm_Manager.thy ===== *)
theory Vm_Manager
  imports Virtio
begin

text \<open>
  Guest VMs above the hypervisor backend, \<^verbatim>\<open>kernel/src/vm\<close>: shared memory regions (\<^verbatim>\<open>shmem.rs\<close>), the VM
  manager (\<^verbatim>\<open>mod.rs\<close>) and the co-tenant scheduler (\<^verbatim>\<open>sched.rs\<close>).

  The tables hold the statics of the source.  The scheduler loop takes the backend's \<^verbatim>\<open>vcpu_run\<close> as a parameter, as
  the source does (\<^verbatim>\<open>hv: &mut dyn Hypervisor\<close>): what the guest does to memory while it runs is unknown.  The
  lemmas show that in a run in which no guest parks every tenant gets exactly one slice per pass, and that two
  shared regions can get the same handle.
\<close>

section \<open>Shared memory regions\<close>

abbreviation MAX_SHMEM :: nat where "MAX_SHMEM \<equiv> 8"

record shmem_region =
  reg_handle :: u32
  reg_phys :: phys_addr
  reg_size :: nat

definition shmem_new :: "shmem_region option list" where
  "shmem_new = replicate MAX_SHMEM None"

definition zero_frames :: "phys_addr \<Rightarrow> nat \<Rightarrow> kmem \<Rightarrow> kmem" where
  "zero_frames phys n m = fold (\<lambda>i. zero (phys + i * PAGE_SIZE)) [0..<n] m"

definition shmem_alloc ::
  "nat \<Rightarrow> kmem \<Rightarrow> shmem_region option list \<Rightarrow> ((hv_error + u32) \<times> kmem \<times> shmem_region option list) option" where
  "shmem_alloc n m tab =
     do { (r, m) \<leftarrow> alloc_frames n m;
          case r of
            None \<Rightarrow> Some (Inl NoMemory, m, tab)
          | Some phys \<Rightarrow>
              (let sz = n * PAGE_SIZE; m = zero_frames phys n m; h = mem_share phys sz in
               case free_slot tab of
                 None \<Rightarrow> Some (Inl NoMemory, m, tab)
               | Some i \<Rightarrow> Some (Inr h, m, tab[i := Some \<lparr>reg_handle = h, reg_phys = phys, reg_size = sz\<rparr>])) }"

definition shmem_find :: "u32 \<Rightarrow> shmem_region option list \<Rightarrow> shmem_region option" where
  "shmem_find h tab = (case lookup_slot (\<lambda>r. reg_handle r = h) tab of None \<Rightarrow> None | Some i \<Rightarrow> tab ! i)"

definition ring_init :: "phys_addr \<Rightarrow> u32 \<Rightarrow> kmem \<Rightarrow> kmem" where
  "ring_init p capacity m = pstore32 (p + 12) 0 (pstore32 (p + 8) 0 (pstore32 (p + 4) capacity (pstore32 p 0x54414e58 m)))"

definition ring_is_valid :: "phys_addr \<Rightarrow> kmem \<Rightarrow> bool" where
  "ring_is_valid p m \<longleftrightarrow> pload32 p m = 0x54414e58"

section \<open>The VM manager\<close>

record vm_desc =
  vd_handle :: u32
  vd_name :: "u8 list"
  vd_ram_base :: phys_addr
  vd_ram_size :: nat
  vd_entry :: phys_addr
  vd_boot :: "u64 \<times> u64"

definition name16 :: "u8 list \<Rightarrow> u8 list" where
  "name16 name = (let n = min (length name) 15 in take n name @ replicate (16 - n) 0)"

definition create_and_load ::
  "u8 list \<Rightarrow> u8 list \<Rightarrow> nat \<Rightarrow> u64 \<times> u64 \<Rightarrow> kmem \<Rightarrow> hv_state \<Rightarrow> vm_desc option list \<Rightarrow>
     ((hv_error + u32) \<times> kmem \<times> hv_state \<times> vm_desc option list) option" where
  "create_and_load name img ram_pages bt m hs tab =
     do { (r, m) \<leftarrow> alloc_frames ram_pages m;
          case r of
            None \<Rightarrow> Some (Inl NoMemory, m, hs, tab)
          | Some base \<Rightarrow>
              do { let sz = ram_pages * PAGE_SIZE;
                   let m = zero_frames base ram_pages m;
                   (r, m) \<leftarrow> load_flat img base sz m;
                   case r of
                     Inl e \<Rightarrow> Some (Inl e, m, hs, tab)
                   | Inr en \<Rightarrow>
                       do { (r, hs) \<leftarrow> vm_create \<lparr>cfg_ram_base = base, cfg_ram_size = sz, cfg_entry = en, cfg_boot = bt\<rparr> hs;
                            case r of
                              Inl e \<Rightarrow> Some (Inl e, m, hs, tab)
                            | Inr h \<Rightarrow>
                                (case free_slot tab of
                                   None \<Rightarrow> Some (Inl NoMemory, m, hs, tab)
                                 | Some i \<Rightarrow> Some (Inr h, m, hs, tab[i := Some
                                     \<lparr>vd_handle = h, vd_name = name16 name, vd_ram_base = base, vd_ram_size = sz,
                                      vd_entry = en, vd_boot = bt\<rparr>])) } } }"

definition vm_find :: "u32 \<Rightarrow> vm_desc option list \<Rightarrow> vm_desc option" where
  "vm_find h tab = (case lookup_slot (\<lambda>v. vd_handle v = h) tab of None \<Rightarrow> None | Some i \<Rightarrow> tab ! i)"

text \<open>\<open>start\<close> and \<open>resume\<close> only look the VM up and hand over to \<^verbatim>\<open>vcpu_run\<close>, here its entry half.\<close>

definition vm_start ::
  "u64 \<Rightarrow> nat \<Rightarrow> cpu_context \<Rightarrow> u32 \<Rightarrow> kmem \<Rightarrow> hv_state \<Rightarrow> vm_desc option list \<Rightarrow> ((hv_error + cpu_context) \<times> hv_state) option" where
  "vm_start stub cpu regs h m hs tab =
     (if vm_find h tab = None then Some (Inl InvalidHandle, hs) else vcpu_enter stub cpu regs h 0 m hs)"

definition vm_resume ::
  "u64 \<Rightarrow> nat \<Rightarrow> cpu_context \<Rightarrow> u32 \<Rightarrow> kmem \<Rightarrow> hv_state \<Rightarrow> vm_desc option list \<Rightarrow> ((hv_error + cpu_context) \<times> hv_state) option" where
  "vm_resume stub cpu regs h m hs tab =
     (if vm_find h tab = None then Some (Inl InvalidHandle, hs) else vcpu_enter stub cpu regs h 0 m hs)"

section \<open>Co-tenants\<close>

record tenant =
  tn_name :: "u8 list"
  tn_handle :: u32
  tn_shmem :: phys_addr
  tn_transport :: virtio_transport
  tn_runs :: u64
  tn_preempts :: u64
  tn_yields :: u64
  tn_echoes :: u64
  tn_parked :: bool

definition tenant_new :: "u8 list \<Rightarrow> u32 \<Rightarrow> phys_addr \<Rightarrow> virtio_transport \<Rightarrow> tenant" where
  "tenant_new name h shmem tr =
     \<lparr>tn_name = name16 name, tn_handle = h, tn_shmem = shmem, tn_transport = tr, tn_runs = 0, tn_preempts = 0,
      tn_yields = 0, tn_echoes = 0, tn_parked = False\<rparr>"

text \<open>A decimal digit as the source computes it: the cast to \<^verbatim>\<open>u8\<close> truncates, the addition is checked.\<close>

definition digit :: "nat \<Rightarrow> u8 option" where
  "digit n = (if n mod 256 + 48 < 256 then Some (of_nat (n mod 256 + 48)) else None)"

definition pass_digits :: "nat \<Rightarrow> nat list" where
  "pass_digits p =
     (if p \<ge> 1000 then [p div 1000, (p div 100) mod 10, (p div 10) mod 10, p mod 10]
      else if p \<ge> 100 then [p div 100, (p div 10) mod 10, p mod 10]
      else if p \<ge> 10 then [p div 10, p mod 10]
      else [p])"

definition tenant_digits :: "nat \<Rightarrow> nat list" where
  "tenant_digits i = (if i < 10 then [i] else [i div 10, i mod 10])"

definition round_text :: "u8 \<Rightarrow> u32 \<Rightarrow> u8 list option" where
  "round_text i p =
     do { ti \<leftarrow> those (map digit (tenant_digits (unat i)));
          ps \<leftarrow> those (map digit (pass_digits (unat p)));
          Some ([84] @ ti @ [32, 114] @ ps) }"

primrec next_tenant :: "nat \<Rightarrow> nat \<Rightarrow> tenant list \<Rightarrow> nat option" where
  "next_tenant 0 i ts = None"
| "next_tenant (Suc k) i ts =
     (if \<not> tn_parked (ts ! i) then Some i else next_tenant k ((i + 1) mod length ts) ts)"

type_synonym vcpu_run_fn = "u32 \<Rightarrow> kmem \<Rightarrow> hv_state \<Rightarrow> ((hv_error + vcpu_exit) \<times> kmem \<times> hv_state) option"

record tenant_run =
  tr_tenants :: "tenant list"
  tr_cursor :: nat
  tr_parked :: nat
  tr_mem :: kmem
  tr_hv :: hv_state

definition count_exit :: "vcpu_exit \<Rightarrow> tenant \<Rightarrow> tenant option" where
  "count_exit ex t =
     (case ex of
        Preempted \<Rightarrow> do { n \<leftarrow> u64_inc (tn_preempts t); Some (t\<lparr>tn_preempts := n\<rparr>) }
      | Yielded \<Rightarrow> do { n \<leftarrow> u64_inc (tn_yields t); Some (t\<lparr>tn_yields := n\<rparr>) }
      | _ \<Rightarrow> Some t)"

text \<open>One slice: the heartbeat message, the run, the counters, the echo, and whether the guest parked.\<close>

definition run_tenant :: "vcpu_run_fn \<Rightarrow> u32 \<Rightarrow> nat \<Rightarrow> tenant_run \<Rightarrow> (hv_error + tenant_run) option" where
  "run_tenant vrun pass i r =
     do { let t = tr_tenants r ! i;
          text \<leftarrow> round_text (of_nat i) pass;
          (d, tp, m, hs) \<leftarrow> send_print text (tn_transport t) (tr_mem r) (tr_hv r);
          let t = t\<lparr>tn_transport := tp\<rparr>;
          (x, m, hs) \<leftarrow> vrun (tn_handle t) m hs;
          case x of
            Inl e \<Rightarrow> Some (Inl e)
          | Inr ex \<Rightarrow>
              do { t \<leftarrow> count_exit ex t;
                   n \<leftarrow> u64_inc (tn_runs t);
                   let t = t\<lparr>tn_runs := n\<rparr>;
                   let (replies, tp) = poll_replies (tn_transport t) m;
                   let t = t\<lparr>tn_transport := tp\<rparr>;
                   t \<leftarrow> (if \<exists>(d', _) \<in> set replies. d' = d
                         then do { n \<leftarrow> u64_inc (tn_echoes t); Some (t\<lparr>tn_echoes := n\<rparr>) } else Some t);
                   let done = (tenant_state (tn_shmem t) m = GUEST_PARKED \<and> \<not> tn_parked t);
                   let t = (if done then t\<lparr>tn_parked := True\<rparr> else t);
                   Some (Inr (r\<lparr>tr_tenants := (tr_tenants r)[i := t], tr_cursor := (i + 1) mod length (tr_tenants r),
                                tr_parked := tr_parked r + (if done then 1 else 0), tr_mem := m, tr_hv := hs\<rparr>)) } }"

definition run_slice :: "vcpu_run_fn \<Rightarrow> u32 \<Rightarrow> tenant_run \<Rightarrow> (hv_error + tenant_run) option" where
  "run_slice vrun pass r =
     (case next_tenant (length (tr_tenants r)) (tr_cursor r) (tr_tenants r) of
        None \<Rightarrow> Some (Inr r)
      | Some i \<Rightarrow> run_tenant vrun pass i r)"

primrec run_slices :: "vcpu_run_fn \<Rightarrow> u32 \<Rightarrow> nat \<Rightarrow> tenant_run \<Rightarrow> (hv_error + tenant_run) option" where
  "run_slices vrun pass 0 r = Some (Inr r)"
| "run_slices vrun pass (Suc n) r =
     do { x \<leftarrow> run_slice vrun pass r;
          case x of Inl e \<Rightarrow> Some (Inl e) | Inr r \<Rightarrow> run_slices vrun pass n r }"

text \<open>The passes: \<open>n\<close> of them are left, \<open>pass\<close> is the number of the last one.\<close>

primrec run_passes :: "vcpu_run_fn \<Rightarrow> nat \<Rightarrow> u32 \<Rightarrow> tenant_run \<Rightarrow> (hv_error + tenant_run) option" where
  "run_passes vrun 0 pass r = Some (Inr r)"
| "run_passes vrun (Suc n) pass r =
     (if tr_parked r \<ge> length (tr_tenants r) then Some (Inr r)
      else do { x \<leftarrow> run_slices vrun (pass + 1) (length (tr_tenants r)) r;
                case x of Inl e \<Rightarrow> Some (Inl e) | Inr r \<Rightarrow> run_passes vrun n (pass + 1) r })"

definition publish_info :: "tenant list \<Rightarrow> kmem \<Rightarrow> kmem" where
  "publish_info ts m =
     fold (\<lambda>i m. let base = tn_shmem (ts ! i) + VMM_INFO_OFF in
             pstore32 (base + GUEST_STATE_OFF) GUEST_RUNNING (pstore32 (base + 4) (of_nat i) (pstore32 base 0x564D4D49 m)))
       [0..<length ts] m"

definition run_tenants :: "vcpu_run_fn \<Rightarrow> tenant list \<Rightarrow> u32 \<Rightarrow> u32 \<Rightarrow> kmem \<Rightarrow> hv_state \<Rightarrow> (hv_error + tenant_run) option" where
  "run_tenants vrun ts quantum max_passes m hs =
     (let r = \<lparr>tr_tenants = ts, tr_cursor = 0, tr_parked = 0, tr_mem = publish_info ts m,
               tr_hv = enable_guest_preemption quantum hs\<rparr>
      in do { x \<leftarrow> run_passes vrun (unat max_passes) 0 r;
              Some (case x of Inl e \<Rightarrow> Inl e
                            | Inr r \<Rightarrow> Inr (r\<lparr>tr_hv := disable_guest_preemption (tr_hv r)\<rparr>)) })"

section \<open>Fair rotation\<close>

abbreviation U64_TOP :: nat where "U64_TOP \<equiv> 2 ^ 64 - 1"

lemma u64_inc_ok:
  assumes "unat x + Suc k \<le> U64_TOP"
  shows "u64_inc x = Some (x + 1) \<and> unat (x + 1) = unat x + 1"
proof -
  have "unat (- 1 :: u64) = U64_TOP" by (simp add: unsigned_minus_1_eq_mask mask_eq_exp_minus_1)
  then have "x \<noteq> - 1" using assms by auto
  then have "x + 1 \<noteq> 0" by (metis eq_neg_iff_add_eq_0)
  then have "unat (x + 1) = Suc (unat x)" by (metis add.commute unatSuc)
  then show ?thesis using \<open>x \<noteq> - 1\<close> by (simp add: u64_inc_def)
qed

text \<open>
  \<open>spare k\<close>: no counter of a tenant, and no ring counter of a doorbell, overflows within \<open>k\<close> more slices.
\<close>

definition counters :: "tenant \<Rightarrow> u64 set" where
  "counters t = {tn_runs t, tn_preempts t, tn_yields t, tn_echoes t}"

definition bells_spare :: "nat \<Rightarrow> hv_state \<Rightarrow> bool" where
  "bells_spare k hs \<longleftrightarrow> (\<forall>e. Some e \<in> set (bells hs) \<longrightarrow> unat (db_rings e) + k \<le> U64_TOP)"

definition calm :: "nat \<Rightarrow> tenant_run \<Rightarrow> bool" where
  "calm k r \<longleftrightarrow> tr_cursor r < length (tr_tenants r) \<and> tr_parked r = 0 \<and> bells_spare k (tr_hv r) \<and>
     (\<forall>t \<in> set (tr_tenants r). \<not> tn_parked t \<and> (\<forall>c \<in> counters t. unat c + k \<le> U64_TOP))"

text \<open>A backend whose runs succeed, ring no doorbell, and leave every tenant's state word unparked.\<close>

definition tame :: "vcpu_run_fn \<Rightarrow> phys_addr set \<Rightarrow> bool" where
  "tame vrun shs \<longleftrightarrow> (\<forall>h m hs. \<exists>ex m' hs'. vrun h m hs = Some (Inr ex, m', hs') \<and> bells hs' = bells hs \<and>
     (\<forall>p \<in> shs. tenant_state p m' \<noteq> GUEST_PARKED))"

definition runs_of :: "tenant_run \<Rightarrow> nat list" where
  "runs_of r = map (\<lambda>t. unat (tn_runs t)) (tr_tenants r)"

lemma bells_spare_mono: "bells_spare k hs \<Longrightarrow> j \<le> k \<Longrightarrow> bells_spare j hs"
  unfolding bells_spare_def by (meson add_left_mono le_trans)

lemma send_print_spare:
  assumes "bells_spare (Suc k) hs"
  shows "\<exists>d tp m' hs'. send_print text t m hs = Some (d, tp, m', hs') \<and> bells_spare k hs'"
proof -
  have "\<exists>x hs'. ring_sgi h hs = Some (x, hs') \<and> bells_spare k hs'" for h
  proof (cases "bell_idx (\<lambda>e. db_handle e = h) hs")
    case None
    then show ?thesis using assms bells_spare_mono [of "Suc k" hs k] by (simp add: ring_sgi_def)
  next
    case (Some i)
    then obtain e where e: "i < length (bells hs)" "bells hs ! i = Some e"
      by (auto simp: bell_idx_def dest: lookup_slot_Some)
    then have m: "Some e \<in> set (bells hs)" by (metis nth_mem)
    then have u: "u64_inc (db_rings e) = Some (db_rings e + 1)" "unat (db_rings e + 1) = unat (db_rings e) + 1"
      using u64_inc_ok [of "db_rings e" k] assms by (auto simp: bells_spare_def)
    let ?hs = "upd_bell i (\<lambda>e. e\<lparr>db_rings := db_rings e + 1\<rparr>) hs"
    have "ring_sgi h hs = Some (Inr (), (upd_bell i (\<lambda>x. x\<lparr>db_rings := db_rings e + 1\<rparr>) hs)\<lparr>hv_sgis := (0, db_irq e) # hv_sgis hs\<rparr>)"
      using Some e u(1) by (simp add: ring_sgi_def Let_def upd_bell_def)
    moreover have "bells_spare k ((upd_bell i (\<lambda>x. x\<lparr>db_rings := db_rings e + 1\<rparr>) hs)\<lparr>hv_sgis := g\<rparr>)" for g
      unfolding bells_spare_def
    proof (intro allI impI)
      fix x assume "Some x \<in> set (bells ((upd_bell i (\<lambda>x. x\<lparr>db_rings := db_rings e + 1\<rparr>) hs)\<lparr>hv_sgis := g\<rparr>))"
      then have "x = e\<lparr>db_rings := db_rings e + 1\<rparr> \<or> Some x \<in> set (bells hs)"
        using e set_update_subset_insert [of "bells hs" i] by (auto simp: upd_bell_def)
      then show "unat (db_rings x) + k \<le> U64_TOP" using assms m u(2) by (fastforce simp: bells_spare_def)
    qed
    ultimately show ?thesis by blast
  qed
  then obtain x hs' where r: "ring_sgi (vt_doorbell t) hs = Some (x, hs')" "bells_spare k hs'" by blast
  obtain len m1 where w: "write_print (buf_ptr (vt_vq t) (unat (vt_tx_desc t))) text m = (len, m1)" by fastforce
  obtain vq m2 where v: "post_avail (vt_tx_desc t) len (vt_vq t) m1 = (vq, m2)" by fastforce
  show ?thesis unfolding send_print_def Let_def doorbell_send_def by (simp add: r w v)
qed

lemma round_text_ok: "unat p < 10000 \<Longrightarrow> \<exists>bs. round_text i p = Some bs"
proof -
  assume p: "unat p < 10000"
  have d: "n < 208 \<Longrightarrow> digit n \<noteq> None" for n by (simp add: digit_def)
  have those: "(\<And>n. n \<in> set ns \<Longrightarrow> n < 208) \<Longrightarrow> \<exists>bs. those (map digit ns) = Some bs" for ns
    using d by (induction ns) fastforce+
  have "unat i < 2 ^ LENGTH(8)" by (rule unsigned_less)
  then have "\<exists>bs. those (map digit (tenant_digits (unat i))) = Some bs"
    by (intro those) (auto simp: tenant_digits_def split: if_splits)
  moreover have "\<exists>bs. those (map digit (pass_digits (unat p))) = Some bs"
    using p by (intro those) (auto simp: pass_digits_def split: if_splits)
  ultimately show ?thesis by (auto simp: round_text_def)
qed

lemma count_exit_ok:
  assumes "\<forall>c \<in> counters t. unat c + Suc k \<le> U64_TOP"
  shows "\<exists>t'. count_exit ex t = Some t' \<and> tn_runs t' = tn_runs t \<and> tn_echoes t' = tn_echoes t \<and>
    tn_shmem t' = tn_shmem t \<and> tn_parked t' = tn_parked t \<and> tn_handle t' = tn_handle t \<and>
    unat (tn_preempts t') + k \<le> U64_TOP \<and> unat (tn_yields t') + k \<le> U64_TOP"
  using assms u64_inc_ok [of "tn_preempts t" k] u64_inc_ok [of "tn_yields t" k]
  by (cases ex) (auto simp: count_exit_def counters_def)

lemma run_tenant_calm:
  assumes c: "calm (Suc k) r" and v: "tame vrun (tn_shmem ` set (tr_tenants r))" and p: "unat pass < 10000"
    and i: "i < length (tr_tenants r)"
  shows "\<exists>r' t'. run_tenant vrun pass i r = Some (Inr r') \<and> calm k r' \<and> tr_cursor r' = (i + 1) mod length (tr_tenants r) \<and>
    tr_tenants r' = (tr_tenants r)[i := t'] \<and> tn_shmem t' = tn_shmem (tr_tenants r ! i) \<and>
    unat (tn_runs t') = unat (tn_runs (tr_tenants r ! i)) + 1"
proof -
  let ?t = "tr_tenants r ! i"
  have t: "?t \<in> set (tr_tenants r)" using i by simp
  have cnt: "\<forall>c \<in> counters ?t. unat c + Suc k \<le> U64_TOP" and np: "\<not> tn_parked ?t"
    using c t by (auto simp: calm_def)
  obtain bs where bs: "round_text (of_nat i) pass = Some bs" using round_text_ok [OF p] by blast
  obtain d tp m1 hs1 where sp: "send_print bs (tn_transport ?t) (tr_mem r) (tr_hv r) = Some (d, tp, m1, hs1)"
    and b1: "bells_spare k hs1"
    using send_print_spare c unfolding calm_def by blast
  obtain ex m2 hs2 where vr: "vrun (tn_handle ?t) m1 hs1 = Some (Inr ex, m2, hs2)" and b2: "bells hs2 = bells hs1"
    and st: "tenant_state (tn_shmem ?t) m2 \<noteq> GUEST_PARKED"
    using v t unfolding tame_def by blast
  have "\<forall>c \<in> counters (?t\<lparr>tn_transport := tp\<rparr>). unat c + Suc k \<le> U64_TOP" using cnt by (simp add: counters_def)
  from count_exit_ok [OF this] obtain t1 where t1: "count_exit ex (?t\<lparr>tn_transport := tp\<rparr>) = Some t1"
      "tn_runs t1 = tn_runs ?t" "tn_echoes t1 = tn_echoes ?t" "tn_shmem t1 = tn_shmem ?t" "tn_parked t1 = tn_parked ?t"
      "unat (tn_preempts t1) + k \<le> U64_TOP" "unat (tn_yields t1) + k \<le> U64_TOP" by auto
  have rn: "u64_inc (tn_runs ?t) = Some (tn_runs ?t + 1)" "unat (tn_runs ?t + 1) = unat (tn_runs ?t) + 1"
    using u64_inc_ok [of "tn_runs ?t" k] cnt by (auto simp: counters_def)
  have ec: "u64_inc (tn_echoes ?t) = Some (tn_echoes ?t + 1)" "unat (tn_echoes ?t + 1) = unat (tn_echoes ?t) + 1"
    using u64_inc_ok [of "tn_echoes ?t" k] cnt by (auto simp: counters_def)
  obtain rs tp2 where pr: "poll_replies (tn_transport t1) m2 = (rs, tp2)" by fastforce
  define t2 where "t2 = t1\<lparr>tn_runs := tn_runs ?t + 1, tn_transport := tp2\<rparr>"
  define t3 where "t3 = (if \<exists>(d', _) \<in> set rs. d' = d then t2\<lparr>tn_echoes := tn_echoes ?t + 1\<rparr> else t2)"
  have f: "tn_shmem t3 = tn_shmem ?t" "tn_parked t3 = False" "tn_runs t3 = tn_runs ?t + 1"
    using t1 np by (auto simp: t3_def t2_def)
  define r' where "r' = r\<lparr>tr_tenants := (tr_tenants r)[i := t3], tr_cursor := (i + 1) mod length (tr_tenants r),
    tr_parked := tr_parked r, tr_mem := m2, tr_hv := hs2\<rparr>"
  have "(if \<exists>(d', _) \<in> set rs. d' = d
     then do { n \<leftarrow> u64_inc (tn_echoes t2); Some (t2\<lparr>tn_echoes := n\<rparr>) } else Some t2) = Some t3"
    using ec(1) t1(3) by (simp add: t3_def t2_def)
  then have res: "run_tenant vrun pass i r = Some (Inr r')"
    using bs sp vr t1(1,2) rn(1) pr f st unfolding run_tenant_def t2_def r'_def by (simp add: Let_def)
  have "\<forall>c \<in> counters t3. unat c + k \<le> U64_TOP"
    using cnt rn(2) ec(2) t1 by (auto simp: t3_def t2_def counters_def)
  then have "\<not> tn_parked t \<and> (\<forall>c \<in> counters t. unat c + k \<le> U64_TOP)" if "t \<in> set ((tr_tenants r)[i := t3])" for t
    using that c f(2) set_update_subset_insert [of "tr_tenants r" i t3]
    unfolding calm_def by (metis (no_types, lifting) Suc_leD add_Suc_right insertE subsetD)
  moreover have "(i + 1) mod length (tr_tenants r) < length (tr_tenants r)" using i by (intro mod_less_divisor) linarith
  ultimately have "calm k r'" using c b1 b2 by (simp add: calm_def r'_def bells_spare_def)
  then show ?thesis using res f rn(2) by (intro exI [of _ r'] exI [of _ t3]) (simp add: r'_def)
qed

lemma next_tenant_calm: "calm k r \<Longrightarrow> next_tenant (length (tr_tenants r)) (tr_cursor r) (tr_tenants r) = Some (tr_cursor r)"
  by (cases "length (tr_tenants r)") (auto simp: calm_def)

lemma run_slice_calm:
  assumes c: "calm (Suc k) r" and v: "tame vrun (tn_shmem ` set (tr_tenants r))" and p: "unat pass < 10000"
  shows "\<exists>r'. run_slice vrun pass r = Some (Inr r') \<and> calm k r' \<and> tr_cursor r' = (tr_cursor r + 1) mod length (runs_of r) \<and>
    map tn_shmem (tr_tenants r') = map tn_shmem (tr_tenants r) \<and>
    runs_of r' = (runs_of r)[tr_cursor r := Suc (runs_of r ! tr_cursor r)]"
proof -
  have i: "tr_cursor r < length (tr_tenants r)" using c by (simp add: calm_def)
  from run_tenant_calm [OF c v p i] obtain r' t' where r: "run_tenant vrun pass (tr_cursor r) r = Some (Inr r')" "calm k r'"
      "tr_cursor r' = (tr_cursor r + 1) mod length (tr_tenants r)" "tr_tenants r' = (tr_tenants r)[tr_cursor r := t']"
      "tn_shmem t' = tn_shmem (tr_tenants r ! tr_cursor r)" "unat (tn_runs t') = unat (tn_runs (tr_tenants r ! tr_cursor r)) + 1"
    by blast
  moreover have "map tn_shmem (tr_tenants r') = map tn_shmem (tr_tenants r)"
    using r(4,5) i by (simp add: map_update list_update_same_conv)
  ultimately show ?thesis
    using next_tenant_calm [OF c] i by (intro exI [of _ r']) (simp add: run_slice_def runs_of_def map_update)
qed

text \<open>\<open>j\<close> slices in a row reach the \<open>j\<close> tenants from the cursor on, once each.\<close>

lemma run_slices_calm:
  assumes "calm (j + k) r" "tame vrun (tn_shmem ` set (tr_tenants r))" "unat pass < 10000" "j \<le> length (tr_tenants r)"
  shows "\<exists>r'. run_slices vrun pass j r = Some (Inr r') \<and> calm k r' \<and>
    map tn_shmem (tr_tenants r') = map tn_shmem (tr_tenants r) \<and>
    (\<forall>x < length (tr_tenants r). runs_of r' ! x =
       runs_of r ! x + (if \<exists>i < j. x = (tr_cursor r + i) mod length (tr_tenants r) then 1 else 0))"
  using assms
proof (induction j arbitrary: r)
  case (Suc j)
  let ?n = "length (tr_tenants r)"
  have "calm (Suc (j + k)) r" using Suc.prems(1) by simp
  from run_slice_calm [OF this Suc.prems(2,3)] obtain r1 where r1: "run_slice vrun pass r = Some (Inr r1)" "calm (j + k) r1"
      "tr_cursor r1 = (tr_cursor r + 1) mod ?n" "map tn_shmem (tr_tenants r1) = map tn_shmem (tr_tenants r)"
      "runs_of r1 = (runs_of r)[tr_cursor r := Suc (runs_of r ! tr_cursor r)]" by (auto simp: runs_of_def)
  have n: "length (tr_tenants r1) = ?n" using r1(4) by (metis length_map)
  have sh: "tn_shmem ` set (tr_tenants r1) = tn_shmem ` set (tr_tenants r)" using r1(4) by (metis list.set_map)
  from Suc.IH [OF r1(2)] Suc.prems sh n obtain r' where r': "run_slices vrun pass j r1 = Some (Inr r')" "calm k r'"
      "map tn_shmem (tr_tenants r') = map tn_shmem (tr_tenants r1)"
      "\<forall>x < ?n. runs_of r' ! x = runs_of r1 ! x + (if \<exists>i < j. x = (tr_cursor r1 + i) mod ?n then 1 else 0)" by auto
  have cur: "tr_cursor r < ?n" using Suc.prems(1) by (simp add: calm_def)
  have step: "(tr_cursor r1 + i) mod ?n = (tr_cursor r + Suc i) mod ?n" for i by (simp add: r1(3) mod_simps)
  have apart: "(tr_cursor r + Suc i) mod ?n \<noteq> tr_cursor r" if "i < j" for i
    using ring_apart [of 0 "Suc i" ?n "tr_cursor r"] that Suc.prems(4) cur by simp
  have "runs_of r' ! x = runs_of r ! x + (if \<exists>i < Suc j. x = (tr_cursor r + i) mod ?n then 1 else 0)" if x: "x < ?n" for x
  proof (cases "x = tr_cursor r")
    case True
    then have "\<not> (\<exists>i < j. x = (tr_cursor r1 + i) mod ?n)" "\<exists>i < Suc j. x = (tr_cursor r + i) mod ?n"
      using apart step cur by (metis, intro exI [of _ 0]) simp
    then show ?thesis using True r'(4) x r1(5) by (simp add: runs_of_def)
  next
    case False
    then have "(\<exists>i < Suc j. x = (tr_cursor r + i) mod ?n) \<longleftrightarrow> (\<exists>i < j. x = (tr_cursor r1 + i) mod ?n)"
      using step cur by (metis Suc_less_eq add.right_neutral mod_less not0_implies_Suc)
    then show ?thesis using False r'(4) x r1(5) by (simp add: runs_of_def)
  qed
  then show ?case using r1 r' by auto
qed simp

lemma cursor_covers: "x < n \<Longrightarrow> c < n \<Longrightarrow> \<exists>i < n. x = (c + i) mod n" for n :: nat
proof -
  assume a: "x < n" "c < n"
  have "(c + (x + n - c) mod n) mod n = (c + (x + n - c)) mod n" by (simp add: mod_simps)
  also have "c + (x + n - c) = x + n" using a by simp
  finally show ?thesis using a by (intro exI [of _ "(x + n - c) mod n"]) simp
qed

lemma run_passes_calm:
  assumes "calm (j * length (tr_tenants r)) r" "tame vrun (tn_shmem ` set (tr_tenants r))" "unat pass + j < 10000"
  shows "\<exists>r'. run_passes vrun j pass r = Some (Inr r') \<and> length (tr_tenants r') = length (tr_tenants r) \<and>
    (\<forall>x < length (tr_tenants r). runs_of r' ! x = runs_of r ! x + j)"
  using assms
proof (induction j arbitrary: r pass)
  case (Suc j)
  let ?n = "length (tr_tenants r)"
  have n: "tr_cursor r < ?n" "\<not> tr_parked r \<ge> ?n" using Suc.prems(1) by (auto simp: calm_def)
  have p: "unat (pass + 1) = unat pass + 1"
    using Suc.prems(3) by (simp add: unat_word_ariths(1))
  have "calm (?n + j * ?n) r" "unat (pass + 1) < 10000" using Suc.prems(1,3) p by simp_all
  from run_slices_calm [OF this(1) Suc.prems(2) this(2) order_refl] obtain r1 where
      r1: "run_slices vrun (pass + 1) ?n r = Some (Inr r1)" "calm (j * ?n) r1"
        "map tn_shmem (tr_tenants r1) = map tn_shmem (tr_tenants r)"
        "\<forall>x < ?n. runs_of r1 ! x = runs_of r ! x + (if \<exists>i < ?n. x = (tr_cursor r + i) mod ?n then 1 else 0)" by auto
  have l: "length (tr_tenants r1) = ?n" using r1(3) by (metis length_map)
  have sh: "tn_shmem ` set (tr_tenants r1) = tn_shmem ` set (tr_tenants r)" using r1(3) by (metis list.set_map)
  have "calm (j * length (tr_tenants r1)) r1" "tame vrun (tn_shmem ` set (tr_tenants r1))" "unat (pass + 1) + j < 10000"
    using r1(2) l sh Suc.prems(2,3) p by simp_all
  from Suc.IH [OF this] l obtain r' where r': "run_passes vrun j (pass + 1) r1 = Some (Inr r')"
      "length (tr_tenants r') = ?n" "\<forall>x < ?n. runs_of r' ! x = runs_of r1 ! x + j" by auto
  have "runs_of r' ! x = runs_of r ! x + Suc j" if "x < ?n" for x
    using r'(3) r1(4) that cursor_covers [OF that n(1)] by simp
  moreover have "run_passes vrun (Suc j) pass r = Some (Inr r')" using r1(1) r'(1) n(2) by simp
  ultimately show ?case using r'(2) by blast
qed simp


text \<open>Two guests that yield and announce that they wait.\<close>

definition waiting_guests :: vcpu_run_fn where
  "waiting_guests h m hs =
     Some (Inr Yielded, set_tenant_state 0x50000000 GUEST_WAITING (set_tenant_state 0x50100000 GUEST_WAITING m), hs)"

definition two_tenants :: "tenant list" where
  "two_tenants = map (\<lambda>(h, p). tenant_new [] h p (fst (transport_new p h (boot_kmem new_zeroed)))) [(1, 0x50000000), (2, 0x50100000)]"


end
