(* ===== verification/Firmware.thy ===== *)
theory Firmware
  imports Machine
begin

text \<open>
  What the kernel reads from the firmware at boot: the UEFI handoff (\<^verbatim>\<open>arch/aarch64/efi.rs\<close>), the ACPI tables
  (\<^verbatim>\<open>acpi.rs\<close>), the flattened device tree (\<^verbatim>\<open>fdt.rs\<close>), and the part of \<^verbatim>\<open>kmain\<close> that combines them.

  The tables are bytes the firmware left in memory, so memory is a function from addresses to bytes that the parsers only
  read.  Address arithmetic is checked (\<open>None\<close> is the panic of an overflow), and so are the null and alignment
  preconditions of a volatile read of more than one byte.  The loops over a device tree have no bound of their own: each
  round moves forward, so a run ends at a closing token or in the overflow check.

  The parsers never succeed: no device tree gives a memory window, no ACPI table is accepted, so that the machine table
  built into the kernel always decides.
\<close>

section \<open>Reading\<close>

type_synonym bytemem = "nat \<Rightarrow> u8"

primrec rd_le :: "bytemem \<Rightarrow> nat \<Rightarrow> nat \<Rightarrow> nat" where
  "rd_le mem a 0 = 0"
| "rd_le mem a (Suc n) = unat (mem a) + 256 * rd_le mem (a + 1) n"

definition vol :: "bytemem \<Rightarrow> nat \<Rightarrow> nat \<Rightarrow> nat option" where
  "vol mem a w = (if a \<noteq> 0 \<and> a mod w = 0 \<and> a + w \<le> 2 ^ 64 then Some (rd_le mem a w) else None)"

definition rd_bytes :: "bytemem \<Rightarrow> nat \<Rightarrow> nat \<Rightarrow> u8 list" where
  "rd_bytes mem a n = map (\<lambda>i. mem (a + i)) [0..<n]"

definition byte_sum :: "bytemem \<Rightarrow> nat \<Rightarrow> nat \<Rightarrow> u8" where
  "byte_sum mem a n = fold (\<lambda>i sum. sum + mem (a + i)) [0..<n] 0"

definition ascii :: "string \<Rightarrow> u8 list" where
  "ascii s = map of_char s"

section \<open>ACPI\<close>

definition valid_table :: "bytemem \<Rightarrow> nat \<Rightarrow> u8 list \<Rightarrow> (nat \<times> nat) option option" where
  "valid_table mem addr expect =
     (if addr mod 4 \<noteq> 0 \<or> addr > 0x800000000000 then Some None
      else if addr = 0 then None
      else if rd_bytes mem addr 4 \<noteq> expect then Some None
      else let len = rd_le mem (addr + 4) 4 in
        if len < 36 \<or> len > 0x1000000 then Some None
        else if byte_sum mem addr len \<noteq> 0 then Some None
        else Some (Some (len, len)))"

definition acpi_default :: acpi_info where
  "acpi_default = \<lparr>ai_gic_dist_base = 0, ai_gic_redist_base = 0, ai_its_base = 0, ai_uart_base = 0, ai_ecam_base = 0\<rparr>"

definition rsdp_xsdt :: "bytemem \<Rightarrow> nat \<Rightarrow> nat option option" where
  "rsdp_xsdt mem rsdp =
     (if rsdp = 0 \<or> rsdp mod 8 \<noteq> 0 then Some None
      else if rd_bytes mem rsdp 8 \<noteq> ascii ''RSD PTR '' then Some None
      else if mem (rsdp + 15) < 2 then Some None
      else do { xsdt \<leftarrow> vol mem (rsdp + 24) 8;
                Some (if xsdt = 0 then None
                      else if byte_sum mem rsdp 20 \<noteq> 0 then None
                      else Some xsdt) })"

definition madt_subtable :: "bytemem \<Rightarrow> nat \<Rightarrow> u8 \<Rightarrow> nat \<Rightarrow> acpi_info \<Rightarrow> acpi_info option" where
  "madt_subtable mem p stype slen out =
     (if stype = 0x03 \<and> slen \<ge> 24 then
        do { base \<leftarrow> vol mem (p + 8) 8; Some (out\<lparr>ai_gic_dist_base := base\<rparr>) }
      else if stype = 0x04 \<and> slen \<ge> 16 then
        do { base \<leftarrow> vol mem (p + 4) 8;
             Some (if ai_gic_redist_base out = 0 then out\<lparr>ai_gic_redist_base := base\<rparr> else out) }
      else if stype = 0x0B \<and> slen \<ge> 16 then
        do { base \<leftarrow> vol mem (p + 8) 8;
             Some (if ai_its_base out = 0 then out\<lparr>ai_its_base := base\<rparr> else out) }
      else Some out)"

function madt_loop :: "bytemem \<Rightarrow> nat \<Rightarrow> nat \<Rightarrow> nat \<Rightarrow> acpi_info \<Rightarrow> acpi_info option" where
  "madt_loop mem addr len off out =
     (if off + 2 \<le> len then
        let stype = mem (addr + off); slen = unat (mem (addr + off + 1)) in
        if slen < 2 \<or> off + slen > len then Some out
        else do { out \<leftarrow> madt_subtable mem (addr + off) stype slen out; madt_loop mem addr len (off + slen) out }
      else Some out)"
  by pat_completeness auto
termination by (relation "measure (\<lambda>(mem, addr, len, off, out). len - off)") auto

declare madt_loop.simps [simp del]

definition parse_madt :: "bytemem \<Rightarrow> nat \<Rightarrow> nat \<Rightarrow> acpi_info \<Rightarrow> acpi_info option" where
  "parse_madt mem addr len out = madt_loop mem addr len 44 out"

definition parse_spcr :: "bytemem \<Rightarrow> nat \<Rightarrow> nat \<Rightarrow> acpi_info \<Rightarrow> acpi_info option" where
  "parse_spcr mem addr len out =
     (let gas = addr + 40 in
      if mem gas \<noteq> 0 then Some out
      else do { uart \<leftarrow> vol mem (gas + 4) 8; Some (if uart \<noteq> 0 then out\<lparr>ai_uart_base := uart\<rparr> else out) })"

function mcfg_loop :: "bytemem \<Rightarrow> nat \<Rightarrow> nat \<Rightarrow> nat \<Rightarrow> acpi_info \<Rightarrow> acpi_info option" where
  "mcfg_loop mem addr len off out =
     (if off + 16 \<le> len then
        do { base \<leftarrow> vol mem (addr + off) 8;
             seg \<leftarrow> vol mem (addr + off + 8) 2;
             if seg = 0 \<and> base \<noteq> 0 then Some (out\<lparr>ai_ecam_base := base\<rparr>)
             else mcfg_loop mem addr len (off + 16) out }
      else Some out)"
  by pat_completeness auto
termination by (relation "measure (\<lambda>(mem, addr, len, off, out). len - off)") auto

declare mcfg_loop.simps [simp del]

definition parse_mcfg :: "bytemem \<Rightarrow> nat \<Rightarrow> nat \<Rightarrow> acpi_info \<Rightarrow> acpi_info option" where
  "parse_mcfg mem addr len out = mcfg_loop mem addr len 44 out"

definition xsdt_entry :: "bytemem \<Rightarrow> nat \<Rightarrow> nat \<Rightarrow> acpi_info \<Rightarrow> acpi_info option" where
  "xsdt_entry mem xsdt i out =
     do { en \<leftarrow> vol mem (xsdt + 36 + i * 8) 8;
          if en = 0 then Some out
          else do { v \<leftarrow> valid_table mem en (ascii ''    '');
                    case v of
                      None \<Rightarrow> Some out
                    | Some (_, tlen) \<Rightarrow>
                        (let sig = rd_bytes mem en 4 in
                         if sig = ascii ''MADT'' then parse_madt mem en tlen out
                         else if sig = ascii ''SPCR'' then parse_spcr mem en tlen out
                         else if sig = ascii ''MCFG'' then parse_mcfg mem en tlen out
                         else Some out) } }"

definition parse_xsdt :: "bytemem \<Rightarrow> nat \<Rightarrow> acpi_info \<Rightarrow> acpi_info option" where
  "parse_xsdt mem xsdt out =
     do { v \<leftarrow> valid_table mem xsdt (ascii ''XSDT'');
          case v of
            None \<Rightarrow> Some out
          | Some (_, len) \<Rightarrow> foldm (xsdt_entry mem xsdt) [0..<(len - 36) div 8] out }"

definition probe :: "bytemem \<Rightarrow> nat \<Rightarrow> acpi_info option option" where
  "probe mem rsdp =
     do { x \<leftarrow> rsdp_xsdt mem rsdp;
          case x of
            None \<Rightarrow> Some None
          | Some xsdt \<Rightarrow>
              do { info \<leftarrow> parse_xsdt mem xsdt acpi_default;
                   Some (if ai_gic_dist_base info = 0 \<or> ai_uart_base info = 0 then None else Some info) } }"

section \<open>The device tree\<close>

definition be32 :: "bytemem \<Rightarrow> nat \<Rightarrow> nat option" where
  "be32 mem a =
     (if a \<noteq> 0 \<and> a + 4 \<le> 2 ^ 64
      then Some (unat (mem a) * 2 ^ 24 + unat (mem (a + 1)) * 2 ^ 16 + unat (mem (a + 2)) * 2 ^ 8 + unat (mem (a + 3)))
      else None)"

function strlen :: "bytemem \<Rightarrow> nat \<Rightarrow> nat option" where
  "strlen mem a = (if a < 2 ^ 64 then (if mem a = 0 then Some 0 else map_option Suc (strlen mem (a + 1))) else None)"
  by pat_completeness auto
termination by (relation "measure (\<lambda>(mem, a). 2 ^ 64 - a)") auto

declare strlen.simps [simp del]

definition align4 :: "nat \<Rightarrow> nat" where
  "align4 x = x - x mod 4"

definition starts_with :: "u8 list \<Rightarrow> u8 list \<Rightarrow> bool" where
  "starts_with xs p \<longleftrightarrow> take (length p) xs = p"

primrec be_cells :: "bytemem \<Rightarrow> nat \<Rightarrow> nat \<Rightarrow> nat \<Rightarrow> nat option" where
  "be_cells mem 0 a acc = Some acc"
| "be_cells mem (Suc n) a acc = do { w \<leftarrow> be32 mem a; be_cells mem n (a + 4) ((acc * 2 ^ 32 + w) mod 2 ^ 64) }"

record fdt_walk =
  fw_addr_cells :: nat
  fw_size_cells :: nat
  fw_node_name :: "u8 list option"
  fw_depth :: nat

text \<open>One property: the memory window it gives, or the walk with the cell counts it sets.\<close>

definition dram_prop :: "bytemem \<Rightarrow> nat \<Rightarrow> nat \<Rightarrow> u8 list \<Rightarrow> fdt_walk \<Rightarrow> ((nat \<times> nat) + fdt_walk) option" where
  "dram_prop mem val len name w =
     (let memory = (case fw_node_name w of None \<Rightarrow> False
            | Some nm \<Rightarrow> nm = ascii ''memory'' \<or> starts_with nm (ascii ''memory@'')) in
      if fw_depth w = 1 \<and> memory then
        (if name = ascii ''reg'' \<and> len \<ge> 4 * (fw_addr_cells w + fw_size_cells w) then
           do { addr \<leftarrow> be_cells mem (fw_addr_cells w) val 0;
                size \<leftarrow> be_cells mem (fw_size_cells w) (val + 4 * fw_addr_cells w) 0;
                Some (if size \<noteq> 0 then Inl (addr, size) else Inr w) }
         else Some (Inr w))
      else if fw_depth w = 0 then
        (if name = ascii ''#address-cells'' \<and> len \<ge> 4 then
           do { c \<leftarrow> be32 mem val; Some (Inr (w\<lparr>fw_addr_cells := c\<rparr>)) }
         else if name = ascii ''#size-cells'' \<and> len \<ge> 4 then
           do { c \<leftarrow> be32 mem val; Some (Inr (w\<lparr>fw_size_cells := c\<rparr>)) }
         else Some (Inr w))
      else Some (Inr w))"

definition begin_node :: "u8 list \<Rightarrow> fdt_walk \<Rightarrow> fdt_walk" where
  "begin_node name w =
     (if fw_depth w = 1 then w\<lparr>fw_node_name := Some name, fw_depth := fw_depth w + 1\<rparr>
      else w\<lparr>fw_depth := fw_depth w + 1\<rparr>)"

definition end_node :: "fdt_walk \<Rightarrow> fdt_walk option" where
  "end_node w = (if fw_depth w = 0 then None else Some (w\<lparr>fw_depth := fw_depth w - 1, fw_node_name := None\<rparr>))"

text \<open>One round of the loop: its answer, or where the walk goes on.\<close>

definition dram_token :: "bytemem \<Rightarrow> nat \<Rightarrow> nat \<Rightarrow> nat \<Rightarrow> fdt_walk \<Rightarrow> ((nat \<times> nat) option + nat \<times> fdt_walk) option" where
  "dram_token mem base strings p w =
     do { token \<leftarrow> be32 mem (base + p);
          p \<leftarrow> uadd p 4;
          if token = 1 then
            do { n \<leftarrow> strlen mem (base + p);
                 e \<leftarrow> uadd (p + n) 4;
                 Some (Inr (align4 e, begin_node (rd_bytes mem (base + p) n) w)) }
          else if token = 3 then
            do { len \<leftarrow> be32 mem (base + p);
                 nameoff \<leftarrow> be32 mem (base + p + 4);
                 p \<leftarrow> uadd p 8;
                 n \<leftarrow> strlen mem (base + strings + nameoff);
                 r \<leftarrow> dram_prop mem (base + p) len (rd_bytes mem (base + strings + nameoff) n) w;
                 case r of
                   Inl region \<Rightarrow> Some (Inl (Some region))
                 | Inr w \<Rightarrow> do { e \<leftarrow> uadd (p + len) 3; Some (Inr (align4 e, w)) } }
          else if token = 2 then do { w \<leftarrow> end_node w; Some (Inr (p, w)) }
          else if token = 4 then Some (Inr (p, w))
          else Some (Inl None) }"

lemma align4_gt: "p + 4 \<le> x \<Longrightarrow> p < align4 x"
proof -
  assume "p + 4 \<le> x"
  moreover have "x mod 4 < 4" by simp
  ultimately show ?thesis unfolding align4_def by linarith
qed

lemma be32_bound: "be32 mem (base + p) = Some x \<Longrightarrow> p < 2 ^ 64"
  by (auto simp: be32_def split: if_splits)

lemma dram_token_forward:
  assumes "dram_token mem base strings p w = Some (Inr (p', w'))"
  shows "p < p' \<and> p < 2 ^ 64"
proof -
  obtain t where t: "be32 mem (base + p) = Some t" using assms by (auto simp: dram_token_def split: Option.bind_splits)
  have "p < p'" using assms t unfolding dram_token_def
    by (auto intro!: align4_gt split: if_splits Option.bind_splits sum.splits)
  then show ?thesis using be32_bound [OF t] by simp
qed

function dram_loop :: "bytemem \<Rightarrow> nat \<Rightarrow> nat \<Rightarrow> nat \<Rightarrow> fdt_walk \<Rightarrow> (nat \<times> nat) option option" where
  "dram_loop mem base strings p w =
     do { x \<leftarrow> dram_token mem base strings p w;
          case x of Inl r \<Rightarrow> Some r | Inr (p, w) \<Rightarrow> dram_loop mem base strings p w }"
  by pat_completeness auto
termination
  by (relation "measure (\<lambda>(mem, base, strings, p, w). 2 ^ 64 - p)") (auto dest: dram_token_forward)

declare dram_loop.simps [simp del]

definition dram_region :: "bytemem \<Rightarrow> nat \<Rightarrow> (nat \<times> nat) option option" where
  "dram_region mem dtb =
     (if dtb = 0 then Some None
      else do { magic \<leftarrow> be32 mem dtb;
                if magic \<noteq> 0xD00DFEED then Some None
                else do { struct_off \<leftarrow> be32 mem (dtb + 8);
                          strings_off \<leftarrow> be32 mem (dtb + 12);
                          dram_loop mem dtb strings_off struct_off
                            \<lparr>fw_addr_cells = 2, fw_size_cells = 2, fw_node_name = None, fw_depth = 0\<rparr> } })"

record cpu_walk =
  cw_depth :: nat
  cw_in_cpus :: bool
  cw_count :: nat

definition cpu_begin :: "u8 list \<Rightarrow> cpu_walk \<Rightarrow> cpu_walk" where
  "cpu_begin name w =
     (let w = w\<lparr>cw_depth := cw_depth w + 1\<rparr> in
      if cw_depth w = 2 \<and> name = ascii ''cpus'' then w\<lparr>cw_in_cpus := True\<rparr>
      else if cw_in_cpus w \<and> cw_depth w = 3 \<and> starts_with name (ascii ''cpu@'') then w\<lparr>cw_count := cw_count w + 1\<rparr>
      else w)"

definition cpu_end :: "cpu_walk \<Rightarrow> cpu_walk" where
  "cpu_end w =
     (let w = w\<lparr>cw_depth := cw_depth w - 1\<rparr> in if cw_depth w < 2 then w\<lparr>cw_in_cpus := False\<rparr> else w)"

definition cpu_token :: "bytemem \<Rightarrow> nat \<Rightarrow> nat \<Rightarrow> cpu_walk \<Rightarrow> (nat + nat \<times> cpu_walk) option" where
  "cpu_token mem base p w =
     do { token \<leftarrow> be32 mem (base + p);
          p \<leftarrow> uadd p 4;
          if token = 1 then
            do { n \<leftarrow> strlen mem (base + p);
                 e \<leftarrow> uadd (p + n) 4;
                 Some (Inr (align4 e, cpu_begin (rd_bytes mem (base + p) n) w)) }
          else if token = 2 then Some (Inr (p, cpu_end w))
          else if token = 3 then
            do { len \<leftarrow> be32 mem (base + p);
                 p \<leftarrow> uadd p 8;
                 e \<leftarrow> uadd (p + len) 3;
                 Some (Inr (align4 e, w)) }
          else if token = 4 then Some (Inr (p, w))
          else Some (Inl (cw_count w)) }"

lemma cpu_token_forward:
  assumes "cpu_token mem base p w = Some (Inr (p', w'))"
  shows "p < p' \<and> p < 2 ^ 64"
proof -
  obtain t where t: "be32 mem (base + p) = Some t" using assms by (auto simp: cpu_token_def split: Option.bind_splits)
  have "p < p'" using assms t unfolding cpu_token_def
    by (auto intro!: align4_gt split: if_splits Option.bind_splits sum.splits)
  then show ?thesis using be32_bound [OF t] by simp
qed

function cpu_loop :: "bytemem \<Rightarrow> nat \<Rightarrow> nat \<Rightarrow> cpu_walk \<Rightarrow> nat option" where
  "cpu_loop mem base p w =
     do { x \<leftarrow> cpu_token mem base p w; case x of Inl n \<Rightarrow> Some n | Inr (p, w) \<Rightarrow> cpu_loop mem base p w }"
  by pat_completeness auto
termination
  by (relation "measure (\<lambda>(mem, base, p, w). 2 ^ 64 - p)") (auto dest: cpu_token_forward)

declare cpu_loop.simps [simp del]

definition cpu_count :: "bytemem \<Rightarrow> nat \<Rightarrow> nat option" where
  "cpu_count mem dtb =
     do { magic \<leftarrow> be32 mem dtb;
          if magic \<noteq> 0xD00DFEED then Some 1
          else do { struct_off \<leftarrow> be32 mem (dtb + 8);
                    n \<leftarrow> cpu_loop mem dtb struct_off \<lparr>cw_depth = 0, cw_in_cpus = False, cw_count = 1\<rparr>;
                    Some (min n 8) } }"

section \<open>The UEFI handoff\<close>

record efi_handoff =
  booted_from_efi :: bool
  efi_systab :: nat
  efi_rsdp :: nat
  efi_dtb :: nat

definition GUID_ACPI20 :: "u8 list" where
  "GUID_ACPI20 = [0x71, 0xE8, 0x68, 0x88, 0xF1, 0xE4, 0xD3, 0x11, 0xBC, 0x22, 0x00, 0x80, 0xC7, 0x3C, 0x88, 0x81]"

definition GUID_ACPI10 :: "u8 list" where
  "GUID_ACPI10 = [0x30, 0x2D, 0x9D, 0xEB, 0x88, 0x2D, 0xD3, 0x11, 0x9A, 0x16, 0x00, 0x90, 0x27, 0x3F, 0xC1, 0x4D]"

definition GUID_FDT :: "u8 list" where
  "GUID_FDT = [0xD5, 0x21, 0xB6, 0xB1, 0x9C, 0xF1, 0xA5, 0x41, 0x83, 0x0B, 0xD9, 0x15, 0x2C, 0x69, 0xAA, 0xEA]"

definition ST_SIG :: nat where "ST_SIG = 0x545953535F494249"

definition efi_entry :: "bytemem \<Rightarrow> nat \<Rightarrow> nat \<Rightarrow> nat \<times> nat \<Rightarrow> (nat \<times> nat) option" where
  "efi_entry mem cfg i = (\<lambda>(rsdp, dtb).
     do { let e = cfg + i * 24;
          let guid = rd_bytes mem e 16;
          ptr \<leftarrow> vol mem (e + 16) 8;
          Some (if ptr = 0 then (rsdp, dtb)
                else if guid = GUID_ACPI20 \<and> rsdp = 0 then (ptr, dtb)
                else if guid = GUID_ACPI10 \<and> rsdp = 0 then (ptr, dtb)
                else if guid = GUID_FDT \<and> dtb = 0 then (rsdp, ptr)
                else (rsdp, dtb)) })"

definition no_efi :: efi_handoff where
  "no_efi = \<lparr>booted_from_efi = False, efi_systab = 0, efi_rsdp = 0, efi_dtb = 0\<rparr>"

definition handoff :: "bytemem \<Rightarrow> nat \<Rightarrow> efi_handoff option" where
  "handoff mem systab =
     (if systab = 0 then Some no_efi
      else do { sig \<leftarrow> vol mem systab 8;
                if sig \<noteq> ST_SIG then Some no_efi
                else do { n_entries \<leftarrow> vol mem (systab + 112) 4;
                          if n_entries > 64
                          then Some \<lparr>booted_from_efi = True, efi_systab = systab, efi_rsdp = 0, efi_dtb = 0\<rparr>
                          else do { (rsdp, dtb) \<leftarrow> foldm (efi_entry mem (systab + 120)) [0..<n_entries] (0, 0);
                                    Some \<lparr>booted_from_efi = True, efi_systab = systab, efi_rsdp = rsdp, efi_dtb = dtb\<rparr> } } })"

section \<open>The decision of the kernel\<close>

text \<open>\<^verbatim>\<open>kmain\<close> up to the frame allocator: the machine in use and the RAM window.\<close>

definition boot_platform :: "bytemem \<Rightarrow> nat \<Rightarrow> nat \<Rightarrow> machine \<Rightarrow> (machine \<times> nat \<times> nat) option" where
  "boot_platform mem systab x0 mach =
     do { efi \<leftarrow> handoff mem systab;
          let dtb = (if booted_from_efi efi then efi_dtb efi else x0);
          acpi \<leftarrow> (if efi_rsdp efi \<noteq> 0 then probe mem (efi_rsdp efi) else Some None);
          let mach = (case acpi of Some info \<Rightarrow> set_from_acpi info mach | None \<Rightarrow> mach);
          r \<leftarrow> dram_region mem dtb;
          Some (mach, case r of Some region \<Rightarrow> region | None \<Rightarrow> (dram_base mach, dram_size mach)) }"

section \<open>No table is accepted\<close>

lemma ascii_apart: "ascii ''MADT'' \<noteq> ascii ''    ''" "ascii ''SPCR'' \<noteq> ascii ''    ''" "ascii ''MCFG'' \<noteq> ascii ''    ''"
  by (simp_all add: ascii_def)

lemma valid_table_sig: "valid_table mem a sig = Some (Some x) \<Longrightarrow> rd_bytes mem a 4 = sig"
  by (auto simp: valid_table_def Let_def split: if_splits)

lemma xsdt_entry_keeps: "xsdt_entry mem xsdt i out = Some out' \<Longrightarrow> out' = out"
  using ascii_apart
  by (auto simp: xsdt_entry_def Let_def dest!: valid_table_sig split: Option.bind_splits if_splits option.splits)

lemma parse_xsdt_keeps: "parse_xsdt mem xsdt out = Some out' \<Longrightarrow> out' = out"
proof -
  have "foldm (xsdt_entry mem xsdt) xs out = Some out' \<Longrightarrow> out' = out" for xs
    by (induction xs arbitrary: out) (auto split: Option.bind_splits dest: xsdt_entry_keeps)
  then show "parse_xsdt mem xsdt out = Some out' \<Longrightarrow> out' = out"
    by (auto simp: parse_xsdt_def split: Option.bind_splits option.splits)
qed

lemma probe_none: "probe mem rsdp = Some r \<Longrightarrow> r = None"
  by (auto simp: probe_def acpi_default_def split: Option.bind_splits option.splits dest!: parse_xsdt_keeps)

text \<open>A node name is only remembered below depth one, and only looked at there.\<close>

definition walk_ok :: "fdt_walk \<Rightarrow> bool" where
  "walk_ok w \<longleftrightarrow> (fw_depth w \<le> 1 \<longrightarrow> fw_node_name w = None)"

lemma dram_prop_ok:
  assumes "walk_ok w" "dram_prop mem val len nm w = Some r"
  shows "\<exists>w'. r = Inr w' \<and> walk_ok w'"
proof -
  consider "fw_depth w = 1" "fw_node_name w = None" | "fw_depth w = 0" | "fw_depth w > 1"
    using assms(1) by (force simp: walk_ok_def)
  then show ?thesis
  proof cases
    case 1
    then show ?thesis using assms unfolding dram_prop_def by auto
  next
    case 2
    then have "r = Inr w \<or> (\<exists>c. r = Inr (w\<lparr>fw_addr_cells := c\<rparr>)) \<or> (\<exists>c. r = Inr (w\<lparr>fw_size_cells := c\<rparr>))"
      using assms(2) unfolding dram_prop_def by (simp split: if_splits Option.bind_splits) blast+
    then show ?thesis using assms(1) by (auto simp: walk_ok_def)
  next
    case 3
    then show ?thesis using assms unfolding dram_prop_def by auto
  qed
qed

lemma walk_ok_steps: "walk_ok w \<Longrightarrow> walk_ok (begin_node name w)" "end_node w = Some w' \<Longrightarrow> walk_ok w'"
  by (auto simp: walk_ok_def begin_node_def end_node_def split: if_splits)

lemma dram_token_found: "dram_token mem base strings p w = Some (Inl (Some region)) \<Longrightarrow> \<exists>val len nm. dram_prop mem val len nm w = Some (Inl region)"
  by (auto simp: dram_token_def split: if_splits Option.bind_splits sum.splits)

lemma dram_token_next:
  "dram_token mem base strings p w = Some (Inr (p', w')) \<Longrightarrow>
     (\<exists>nm. w' = begin_node nm w) \<or> end_node w = Some w' \<or> w' = w \<or> (\<exists>val len nm. dram_prop mem val len nm w = Some (Inr w'))"
  by (auto simp: dram_token_def split: if_splits Option.bind_splits sum.splits)

lemma dram_loop_none: "walk_ok w \<Longrightarrow> dram_loop mem base strings p w = Some r \<Longrightarrow> r = None"
proof (induction mem base strings p w rule: dram_loop.induct)
  case (1 mem base strings p w)
  from "1.prems"(2) obtain x where x: "dram_token mem base strings p w = Some x"
    by (subst (asm) dram_loop.simps) (auto split: Option.bind_splits)
  then have e: "(case x of Inl r \<Rightarrow> Some r | Inr (p, w) \<Rightarrow> dram_loop mem base strings p w) = Some r"
    using "1.prems"(2) by (subst (asm) dram_loop.simps) simp
  show ?case
  proof (cases x)
    case (Inl y)
    then show ?thesis using e x dram_token_found dram_prop_ok [OF "1.prems"(1)] by (cases y) fastforce+
  next
    case (Inr y)
    obtain p' w' where y: "y = (p', w')" by fastforce
    have "walk_ok w'"
      using dram_token_next [of mem base strings p w p' w'] x Inr y walk_ok_steps(1) [OF "1.prems"(1)] walk_ok_steps(2)
        dram_prop_ok [OF "1.prems"(1)] "1.prems"(1) by (metis sum.inject(2))
    then show ?thesis using "1.IH" [OF x Inr y [symmetric]] e Inr y by simp
  qed
qed

lemma dram_region_none: "dram_region mem dtb = Some r \<Longrightarrow> r = None"
  by (auto simp: dram_region_def walk_ok_def split: if_splits Option.bind_splits dest!: dram_loop_none [rotated])

text \<open>
  C34.  Nothing the firmware describes changes the kernel's platform: whatever is in memory, when the firmware phase of the
  boot returns, the machine is the one built in and the RAM window is its window.
\<close>

theorem boot_ignores_firmware:
  assumes "boot_platform mem systab x0 mach = Some (mach', ram)"
  shows "mach' = mach \<and> ram = (dram_base mach, dram_size mach)"
  using assms
  by (auto simp: boot_platform_def split: Option.bind_splits if_splits option.splits dest!: probe_none dram_region_none)

text \<open>A device tree with a memory node, at address \<open>0x1000\<close>.\<close>

definition demo_tree :: "u8 list" where
  "demo_tree = [0xD0, 0x0D, 0xFE, 0xED, 0, 0, 0, 92, 0, 0, 0, 16, 0, 0, 0, 84,
     0, 0, 0, 1, 0, 0, 0, 0,
     0, 0, 0, 1] @ ascii ''memory@40000000'' @ [0,
     0, 0, 0, 3, 0, 0, 0, 16, 0, 0, 0, 0, 0, 0, 0, 0, 0x40, 0, 0, 0, 0, 0, 0, 0, 0x20, 0, 0, 0,
     0, 0, 0, 2, 0, 0, 0, 2, 0, 0, 0, 9] @ ascii ''reg'' @ [0]"

definition demo_mem :: bytemem where
  "demo_mem a = (if 0x1000 \<le> a \<and> a < 0x1000 + length demo_tree then demo_tree ! (a - 0x1000) else 0)"

lemma demo_len: "length demo_tree = 88"
  by (simp add: demo_tree_def ascii_def)

lemma strlen_end: "a < 2 ^ 64 \<Longrightarrow> mem a = 0 \<Longrightarrow> strlen mem a = Some 0"
  by (subst strlen.simps) simp

lemma strlen_more: "a < 2 ^ 64 \<Longrightarrow> mem a \<noteq> 0 \<Longrightarrow> strlen mem a = map_option Suc (strlen mem (a + 1))"
  by (subst strlen.simps) simp

lemma demo_words:
  "be32 demo_mem 0x1000 = Some 0xD00DFEED" "be32 demo_mem 0x1008 = Some 16" "be32 demo_mem 0x100C = Some 84"
  "be32 demo_mem 4112 = Some 1" "be32 demo_mem 4120 = Some 1" "be32 demo_mem 4140 = Some 3" "be32 demo_mem 4144 = Some 16"
  "be32 demo_mem 4148 = Some 0" "be32 demo_mem 4168 = Some 2" "be32 demo_mem 4172 = Some 2" "be32 demo_mem 4176 = Some 9"
  by (simp_all add: be32_def demo_mem_def demo_len) (simp_all add: demo_tree_def ascii_def)

lemma demo_names: "strlen demo_mem 4116 = Some 0" "strlen demo_mem 4124 = Some 15" "strlen demo_mem 4180 = Some 3"
  by (simp_all add: strlen_end strlen_more demo_mem_def demo_len demo_tree_def ascii_def)

lemma demo_tokens:
  "dram_token demo_mem 0x1000 84 16 w = Some (Inr (24, begin_node [] w))"
  "dram_token demo_mem 0x1000 84 24 w = Some (Inr (44, begin_node (rd_bytes demo_mem 4124 15) w))"
  "dram_token demo_mem 0x1000 84 72 w = end_node w \<bind> (\<lambda>w. Some (Inr (76, w)))"
  "dram_token demo_mem 0x1000 84 76 w = end_node w \<bind> (\<lambda>w. Some (Inr (80, w)))"
  "dram_token demo_mem 0x1000 84 80 w = Some (Inl None)"
  "fw_depth w = 2 \<Longrightarrow> dram_token demo_mem 0x1000 84 44 w = Some (Inr (72, w))"
  by (simp_all add: dram_token_def demo_words demo_names align4_def uadd_fits dram_prop_def rd_bytes_def)

theorem boot_ignores_firmware_witness:
  "dram_loop demo_mem 0x1000 84 16 \<lparr>fw_addr_cells = 2, fw_size_cells = 2, fw_node_name = None, fw_depth = 0\<rparr> = Some None \<and>
   boot_platform demo_mem 0 0x1000 machine_virt = Some (machine_virt, dram_base machine_virt, dram_size machine_virt)"
proof -
  let ?w = "\<lparr>fw_addr_cells = 2, fw_size_cells = 2, fw_node_name = None, fw_depth = 0\<rparr>"
  have l: "dram_loop demo_mem 0x1000 84 16 ?w = Some None"
    by (simp add: dram_loop.simps [of demo_mem "0x1000" 84 16] dram_loop.simps [of demo_mem "0x1000" 84 24]
        dram_loop.simps [of demo_mem "0x1000" 84 44] dram_loop.simps [of demo_mem "0x1000" 84 72]
        dram_loop.simps [of demo_mem "0x1000" 84 76] dram_loop.simps [of demo_mem "0x1000" 84 80]
        demo_tokens begin_node_def end_node_def)
  then have "dram_region demo_mem 0x1000 = Some None" by (simp add: dram_region_def demo_words)
  then have "\<exists>r. boot_platform demo_mem 0 0x1000 machine_virt = Some r" by (simp add: boot_platform_def handoff_def no_efi_def)
  then show ?thesis using boot_ignores_firmware l by (metis prod.exhaust)
qed

text \<open>The signature the handoff asks for is not that of a system table, so a UEFI boot is never recognised.\<close>

lemma rd_le_step: "rd_le mem a (Suc n) div 256 = rd_le mem (a + 1) n \<and> rd_le mem a (Suc n) mod 256 = unat (mem a)"
proof -
  have "unat (mem a) < 2 ^ LENGTH(8)" by (rule unsigned_less)
  then show ?thesis by simp
qed

lemma efi_never_recognised:
  assumes "rd_bytes mem systab 8 = ascii ''IBI SYST''" "handoff mem systab = Some h"
  shows "\<not> booted_from_efi h"
proof -
  have "unat (mem (systab + 3)) = 0x20"
  proof -
    have "mem (systab + 3) = rd_bytes mem systab 8 ! 3" by (simp add: rd_bytes_def)
    then show ?thesis by (simp add: assms(1) ascii_def)
  qed
  then have "rd_le mem systab 8 div 256 div 256 div 256 mod 256 = 0x20"
    using rd_le_step [of mem systab 7] rd_le_step [of mem "systab + 1" 6] rd_le_step [of mem "systab + 2" 5]
      rd_le_step [of mem "systab + 3" 4] by (simp add: numeral_3_eq_3)
  then have "rd_le mem systab 8 \<noteq> ST_SIG" by (auto simp: ST_SIG_def)
  then show ?thesis using assms(2) by (auto simp: handoff_def vol_def no_efi_def split: if_splits Option.bind_splits)
qed

end
