(* ===== verification/Net_Frame.thy ===== *)
theory Net_Frame
  imports Tanix_Prelude
begin

text \<open>
  Frames of the network stack, \<^verbatim>\<open>servers/libtanix-net/src\<close>: the Internet checksum (\<^verbatim>\<open>checksum.rs\<close>), the
  outbound frame queue (\<^verbatim>\<open>out.rs\<close>), the Ethernet and IPv4 parsers and field accessors (\<^verbatim>\<open>ip.rs\<close>), the UDP
  endpoints and frame builder (\<^verbatim>\<open>udp.rs\<close>) and the TCP frame builder (\<^verbatim>\<open>tcp.rs\<close>).

  A byte slice is a list; a copy, an access or a subslice out of range is the panic \<open>None\<close>.  Addresses
  are lists of six or four bytes.  The queue keeps its scratch buffer between frames, as the code does:
  what a builder does not write is whatever an earlier frame left there.
\<close>

section \<open>Slices and fields\<close>

definition copy_at :: "nat \<Rightarrow> u8 list \<Rightarrow> u8 list \<Rightarrow> u8 list option" where
  "copy_at off v b =
     (if off + length v \<le> length b then Some (take off b @ v @ drop (off + length v) b) else None)"

definition subslice :: "nat \<Rightarrow> nat \<Rightarrow> u8 list \<Rightarrow> u8 list option" where
  "subslice i j b = (if i \<le> j \<and> j \<le> length b then Some (take (j - i) (drop i b)) else None)"

definition byte_at :: "nat \<Rightarrow> u8 list \<Rightarrow> u8 option" where
  "byte_at i b = (if i < length b then Some (b ! i) else None)"

definition be16 :: "u16 \<Rightarrow> u8 list" where
  "be16 v = [ucast (drop_bit 8 v), ucast v]"

definition put_u16 :: "nat \<Rightarrow> u16 \<Rightarrow> u8 list \<Rightarrow> u8 list option" where
  "put_u16 off v b = copy_at off (be16 v) b"

definition put_u32 :: "nat \<Rightarrow> u32 \<Rightarrow> u8 list \<Rightarrow> u8 list option" where
  "put_u32 off v b =
     do { b \<leftarrow> put_u16 off (ucast (drop_bit 16 v)) b; put_u16 (off + 2) (ucast v) b }"

definition get_u16 :: "nat \<Rightarrow> u8 list \<Rightarrow> u16 option" where
  "get_u16 off b =
     do { hi \<leftarrow> byte_at off b; lo \<leftarrow> byte_at (off + 1) b; Some (push_bit 8 (ucast hi) OR ucast lo) }"

definition get_u32 :: "nat \<Rightarrow> u8 list \<Rightarrow> u32 option" where
  "get_u32 off b =
     do { hi \<leftarrow> get_u16 off b; lo \<leftarrow> get_u16 (off + 2) b; Some (push_bit 16 (ucast hi) OR ucast lo) }"

section \<open>The Internet checksum\<close>

text \<open>The sum is a \<^verbatim>\<open>u32\<close> whose additions are checked.\<close>

fun sum_words :: "u8 list \<Rightarrow> nat \<Rightarrow> nat option" where
  "sum_words (a # b # data) acc =
     (let acc = acc + (unat a * 256 + unat b) in if acc < 2 ^ 32 then sum_words data acc else None)"
| "sum_words [a] acc = (let acc = acc + unat a * 256 in if acc < 2 ^ 32 then Some acc else None)"
| "sum_words [] acc = Some acc"

function fold_carry :: "nat \<Rightarrow> nat" where
  "fold_carry acc = (if acc div 65536 \<noteq> 0 then fold_carry (acc mod 65536 + acc div 65536) else acc)"
  by pat_completeness auto
termination
proof (relation "measure id")
  fix acc :: nat
  assume "acc div 65536 \<noteq> 0"
  moreover have "acc = acc div 65536 * 65536 + acc mod 65536" by simp
  ultimately have "acc mod 65536 + acc div 65536 < acc" by linarith
  then show "(acc mod 65536 + acc div 65536, acc) \<in> measure id" by simp
qed simp

declare fold_carry.simps [simp del]

definition checksum_seed :: "u8 list \<Rightarrow> nat \<Rightarrow> u16 option" where
  "checksum_seed data seed = do { acc \<leftarrow> sum_words data seed; Some (NOT (of_nat (fold_carry acc))) }"

definition checksum :: "u8 list \<Rightarrow> u16 option" where
  "checksum data = checksum_seed data 0"

definition word_at :: "nat \<Rightarrow> u8 list \<Rightarrow> nat" where
  "word_at i b = unat (b ! (2 * i)) * 256 + unat (b ! (2 * i + 1))"

definition pseudo_seed :: "u8 list \<Rightarrow> u8 list \<Rightarrow> u8 \<Rightarrow> u16 \<Rightarrow> nat" where
  "pseudo_seed src dst proto len =
     word_at 0 src + word_at 1 src + word_at 0 dst + word_at 1 dst + unat proto + unat len"

section \<open>The outbound queue\<close>

abbreviation FRAME_MAX :: nat where "FRAME_MAX \<equiv> 1518"
abbreviation OUTQ_FRAMES :: nat where "OUTQ_FRAMES \<equiv> 4"

record out_queue =
  oq_buf :: "u8 list"
  oq_off :: "u16 list"
  oq_n :: nat

definition outq_new :: out_queue where
  "outq_new = \<lparr>oq_buf = replicate FRAME_MAX 0, oq_off = replicate (OUTQ_FRAMES + 1) 0, oq_n = 0\<rparr>"

definition outq_push :: "nat \<Rightarrow> out_queue \<Rightarrow> nat option \<times> out_queue" where
  "outq_push len q =
     (if oq_n q \<ge> OUTQ_FRAMES then (None, q)
      else let start = unat (oq_off q ! oq_n q); fin = start + len in
        if fin > FRAME_MAX then (None, q)
        else (Some start, q\<lparr>oq_off := (oq_off q)[oq_n q + 1 := of_nat fin], oq_n := oq_n q + 1\<rparr>))"

definition outq_is_empty :: "out_queue \<Rightarrow> bool" where
  "outq_is_empty q \<longleftrightarrow> oq_n q = 0"

definition outq_frame :: "nat \<Rightarrow> out_queue \<Rightarrow> u8 list option" where
  "outq_frame i q =
     (if i < oq_n q then subslice (unat (oq_off q ! i)) (unat (oq_off q ! (i + 1))) (oq_buf q) else None)"

definition outq_clear :: "out_queue \<Rightarrow> out_queue" where
  "outq_clear q = q\<lparr>oq_n := 0, oq_off := (oq_off q)[0 := 0]\<rparr>"

section \<open>Ethernet and IPv4\<close>

abbreviation ETHERTYPE_ARP :: u16 where "ETHERTYPE_ARP \<equiv> 0x0806"
abbreviation ETHERTYPE_IPV4 :: u16 where "ETHERTYPE_IPV4 \<equiv> 0x0800"
abbreviation IPPROTO_ICMP :: u8 where "IPPROTO_ICMP \<equiv> 1"
abbreviation IPPROTO_TCP :: u8 where "IPPROTO_TCP \<equiv> 6"
abbreviation IPPROTO_UDP :: u8 where "IPPROTO_UDP \<equiv> 17"

definition parse_eth :: "u8 list \<Rightarrow> (u8 list \<times> u8 list \<times> u16) option" where
  "parse_eth frame =
     (if length frame < 14 then None
      else Some (take 6 frame, take 6 (drop 6 frame), push_bit 8 (ucast (frame ! 12)) OR ucast (frame ! 13)))"

record ip4_hdr =
  ip_src :: "u8 list"
  ip_dst :: "u8 list"
  ip_proto :: u8
  total_len :: nat
  transport :: nat

definition parse_ip4 :: "u8 list \<Rightarrow> ip4_hdr option" where
  "parse_ip4 frame =
     (let p = 14 in
      if length frame < p + 20 then None
      else let vihl = frame ! p in
        if drop_bit 4 vihl \<noteq> 4 then None
        else let ftotal = unat (frame ! (p + 2)) * 256 + unat (frame ! (p + 3)) in
          if length frame < p + ftotal then None
          else let ihl = unat (vihl AND 0x0F) * 4 in
            if ihl < 20 \<or> p + ihl > length frame then None
            else Some \<lparr>ip_src = take 4 (drop (p + 12) frame), ip_dst = take 4 (drop (p + 16) frame),
                       ip_proto = frame ! (p + 9), total_len = ftotal, transport = p + ihl\<rparr>)"

section \<open>Frame builders\<close>

record tx_ctx =
  tx_mac :: "u8 list"
  tx_ip :: "u8 list"
  tx_ip_id :: u16
  tx_q :: out_queue

text \<open>
  Every builder reserves room for one frame and fills it in place; a full queue drops the frame and
  answers false.
\<close>

definition build_frame :: "nat \<Rightarrow> (u8 list \<Rightarrow> u8 list option) \<Rightarrow> out_queue \<Rightarrow> (bool \<times> out_queue) option" where
  "build_frame ftotal fill q =
     (case outq_push ftotal q of
        (None, q) \<Rightarrow> Some (False, q)
      | (Some start, q) \<Rightarrow>
          do { b \<leftarrow> subslice start (start + ftotal) (oq_buf q);
               b \<leftarrow> fill b;
               buf \<leftarrow> copy_at start b (oq_buf q);
               Some (True, q\<lparr>oq_buf := buf\<rparr>) })"

text \<open>\<^verbatim>\<open>total as u16 - k\<close>, checked.\<close>

definition len_minus :: "nat \<Rightarrow> nat \<Rightarrow> u16 option" where
  "len_minus ftotal k = (let t = unat (of_nat ftotal :: u16) in if k \<le> t then Some (of_nat (t - k)) else None)"

text \<open>The Ethernet and IPv4 headers the UDP and TCP builders write, each byte of them.\<close>

definition put_eth_ip4 :: "u8 list \<Rightarrow> u8 list \<Rightarrow> u8 list \<Rightarrow> u16 \<Rightarrow> u8 \<Rightarrow> nat \<Rightarrow> u8 list \<Rightarrow> u8 list option" where
  "put_eth_ip4 dst_mac mac ips ident proto ftotal b =
     do { b \<leftarrow> copy_at 0 dst_mac b;
          b \<leftarrow> copy_at 6 mac b;
          b \<leftarrow> put_u16 12 ETHERTYPE_IPV4 b;
          b \<leftarrow> copy_at 14 [0x45, 0] b;
          len \<leftarrow> len_minus ftotal 14;
          b \<leftarrow> put_u16 16 len b;
          b \<leftarrow> put_u16 18 ident b;
          b \<leftarrow> copy_at 20 [0, 0, 64, proto] b;
          b \<leftarrow> put_u16 24 0 b;
          b \<leftarrow> copy_at 26 ips b;
          hdr \<leftarrow> subslice 14 34 b;
          ip_sum \<leftarrow> checksum_seed hdr 0;
          put_u16 24 ip_sum b }"

definition fill_udp ::
  "u8 list \<Rightarrow> u8 list \<Rightarrow> u8 list \<Rightarrow> u8 list \<Rightarrow> u16 \<Rightarrow> u16 \<Rightarrow> u16 \<Rightarrow> u8 list \<Rightarrow> u8 list \<Rightarrow> u8 list option" where
  "fill_udp dst_mac mac my_ip dst_ip ident src_port dst_port payload b =
     (let ftotal = 14 + 20 + 8 + length payload; udp_len = 8 + length payload in
      do { b \<leftarrow> put_eth_ip4 dst_mac mac (my_ip @ dst_ip) ident IPPROTO_UDP ftotal b;
           b \<leftarrow> put_u16 34 src_port b;
           b \<leftarrow> put_u16 36 dst_port b;
           len \<leftarrow> len_minus ftotal 34;
           b \<leftarrow> put_u16 38 len b;
           b \<leftarrow> put_u16 40 0 b;
           b \<leftarrow> (if payload \<noteq> [] then copy_at 42 payload b else Some b);
           seg \<leftarrow> subslice 34 (34 + udp_len) b;
           s \<leftarrow> checksum_seed seg (pseudo_seed my_ip dst_ip IPPROTO_UDP (of_nat udp_len));
           put_u16 40 s b })"

definition push_udp_frame ::
  "u8 list \<Rightarrow> u8 list \<Rightarrow> u16 \<Rightarrow> u16 \<Rightarrow> u8 list \<Rightarrow> tx_ctx \<Rightarrow> (bool \<times> tx_ctx) option" where
  "push_udp_frame dst_mac dst_ip src_port dst_port payload ctx =
     do { (ok, q) \<leftarrow> build_frame (14 + 20 + 8 + length payload)
            (fill_udp dst_mac (tx_mac ctx) (tx_ip ctx) dst_ip (tx_ip_id ctx) src_port dst_port payload) (tx_q ctx);
          Some (ok, ctx\<lparr>tx_q := q, tx_ip_id := (if ok then tx_ip_id ctx + 1 else tx_ip_id ctx)\<rparr>) }"

definition fill_tcp ::
  "u8 list \<Rightarrow> u8 list \<Rightarrow> u8 list \<Rightarrow> u8 list \<Rightarrow> u16 \<Rightarrow> u16 \<Rightarrow> u16 \<Rightarrow> u32 \<Rightarrow> u32 \<Rightarrow> u8 \<Rightarrow> u16 \<Rightarrow> u8 list \<Rightarrow> u8 list \<Rightarrow> u8 list option" where
  "fill_tcp dst_mac mac my_ip dst_ip ident src_port dst_port seq ack flags wnd payload b =
     (let ftotal = 14 + 20 + 20 + length payload; tcp_len = 20 + length payload in
      do { b \<leftarrow> put_eth_ip4 dst_mac mac (my_ip @ dst_ip) ident IPPROTO_TCP ftotal b;
           b \<leftarrow> put_u16 34 src_port b;
           b \<leftarrow> put_u16 36 dst_port b;
           b \<leftarrow> put_u32 38 seq b;
           b \<leftarrow> put_u32 42 ack b;
           b \<leftarrow> copy_at 46 [0x50, flags] b;
           b \<leftarrow> put_u16 48 wnd b;
           b \<leftarrow> put_u16 50 0 b;
           b \<leftarrow> put_u16 52 0 b;
           b \<leftarrow> (if payload \<noteq> [] then copy_at 54 payload b else Some b);
           seg \<leftarrow> subslice 34 (34 + tcp_len) b;
           s \<leftarrow> checksum_seed seg (pseudo_seed my_ip dst_ip IPPROTO_TCP (of_nat tcp_len));
           put_u16 50 s b })"

definition push_tcp_frame ::
  "u8 list \<Rightarrow> u8 list \<Rightarrow> u16 \<Rightarrow> u16 \<Rightarrow> u32 \<Rightarrow> u32 \<Rightarrow> u8 \<Rightarrow> u16 \<Rightarrow> u8 list \<Rightarrow> tx_ctx \<Rightarrow> (bool \<times> tx_ctx) option" where
  "push_tcp_frame dst_mac dst_ip src_port dst_port seq ack flags wnd payload ctx =
     do { (ok, q) \<leftarrow> build_frame (14 + 20 + 20 + length payload)
            (fill_tcp dst_mac (tx_mac ctx) (tx_ip ctx) dst_ip (tx_ip_id ctx) src_port dst_port seq ack flags wnd payload) (tx_q ctx);
          Some (ok, ctx\<lparr>tx_q := q, tx_ip_id := (if ok then tx_ip_id ctx + 1 else tx_ip_id ctx)\<rparr>) }"

section \<open>UDP endpoints\<close>

abbreviation UDP_BUF :: nat where "UDP_BUF \<equiv> 256"

record udp_ep =
  ep_port :: u16
  ep_rx :: "u8 list"
  ep_rx_len :: nat
  ep_peer_ip :: "u8 list"
  ep_peer_port :: u16
  ep_pending :: bool

definition udp_ep_bind :: "u16 \<Rightarrow> udp_ep" where
  "udp_ep_bind port = \<lparr>ep_port = port, ep_rx = replicate UDP_BUF 0, ep_rx_len = 0,
     ep_peer_ip = replicate 4 0, ep_peer_port = 0, ep_pending = False\<rparr>"

text \<open>\<^verbatim>\<open>unread\<close> answers the bytes it copies into a buffer of \<open>cap\<close> bytes.\<close>

definition unread :: "nat \<Rightarrow> udp_ep \<Rightarrow> u8 list \<times> udp_ep" where
  "unread cap e = (take (min (ep_rx_len e) cap) (ep_rx e), e\<lparr>ep_rx_len := 0, ep_pending := False\<rparr>)"

definition rx_info :: "udp_ep \<Rightarrow> (u8 list \<times> u16 \<times> u16) option" where
  "rx_info e = (if ep_pending e then Some (ep_peer_ip e, ep_peer_port e, of_nat (ep_rx_len e)) else None)"

definition deliver_udp :: "u8 list \<Rightarrow> u16 \<Rightarrow> u8 list \<Rightarrow> udp_ep \<Rightarrow> udp_ep" where
  "deliver_udp peer_ip peer_port data e =
     (let n = min (length data) UDP_BUF in
      e\<lparr>ep_peer_ip := peer_ip, ep_peer_port := peer_port, ep_rx_len := n,
        ep_rx := take n data @ drop n (ep_rx e), ep_pending := True\<rparr>)"

section \<open>The checksum is the one's complement sum\<close>

text \<open>The reference: the sum of the big-endian 16-bit words, an odd byte padded with zero.\<close>

fun wsum :: "u8 list \<Rightarrow> nat" where
  "wsum (a # b # data) = unat a * 256 + unat b + wsum data"
| "wsum [a] = unat a * 256"
| "wsum [] = 0"

lemma unat8_lt [simp]: "unat (a :: u8) < 256"
  using unsigned_less [of a] by simp

lemma unat16_lt [simp]: "unat (a :: u16) < 65536"
  using unsigned_less [of a] by simp

lemma wsum_bound: "wsum data \<le> 65535 * ((length data + 1) div 2)"
proof (induction data rule: wsum.induct)
  case (1 a b data)
  have "unat a \<le> 255" "unat b \<le> 255" using unat8_lt [of a] unat8_lt [of b] by linarith+
  then show ?case using 1 by simp
next
  case (2 a)
  have "unat a \<le> 255" using unat8_lt [of a] by linarith
  then show ?case by simp
qed simp

lemma sum_words_eq:
  "s < 2 ^ 32 \<Longrightarrow> sum_words data s = (if s + wsum data < 2 ^ 32 then Some (s + wsum data) else None)"
  by (induction data s rule: sum_words.induct) (auto simp: Let_def)

lemma sum_words_small:
  assumes "s < 2 ^ 31" "length data \<le> 2000"
  shows "sum_words data s = Some (s + wsum data)"
proof -
  have "(length data + 1) div 2 \<le> 1000" using assms(2) by linarith
  then have "65535 * ((length data + 1) div 2) \<le> 65535 * 1000" by (rule mult_le_mono2)
  then have "wsum data \<le> 65535 * 1000" using wsum_bound [of data] by linarith
  with assms show ?thesis by (simp add: sum_words_eq)
qed

lemma wsum_append: "even (length a) \<Longrightarrow> wsum (a @ b) = wsum a + wsum b"
  by (induction a rule: wsum.induct) auto

lemma fold_carry_small: "s div 65536 = 0 \<Longrightarrow> fold_carry s = s"
  using fold_carry.simps [of s] by (simp only: if_False simp_thms)

lemma fold_carry_big: "s div 65536 \<noteq> 0 \<Longrightarrow> fold_carry s = fold_carry (s mod 65536 + s div 65536)"
  using fold_carry.simps [of s] by (simp only: if_True simp_thms)

lemma carry_mod: "(s mod 65536 + s div 65536) mod 65535 = s mod 65535" for s :: nat
proof -
  have "s = (s mod 65536 + s div 65536) + 65535 * (s div 65536)" by simp
  then show ?thesis by (metis mod_mult_self2)
qed

lemma fold_carry_spec:
  "fold_carry s \<le> 65535 \<and> fold_carry s mod 65535 = s mod 65535 \<and> (fold_carry s = 0 \<longleftrightarrow> s = 0)"
proof (induction s rule: fold_carry.induct)
  case (1 s)
  show ?case
  proof (cases "s div 65536 = 0")
    case True
    then have "s < 65536" by (simp add: div_eq_0_iff)
    with True show ?thesis by (simp add: fold_carry_small)
  next
    case False
    then have "s \<noteq> 0" "s mod 65536 + s div 65536 \<noteq> 0" by (intro notI, simp, simp)
    then show ?thesis using "1.IH" [OF False] by (simp only: fold_carry_big [OF False] carry_mod simp_thms)
  qed
qed

lemmas fold_carry_le = fold_carry_spec [THEN conjunct1]
  and fold_carry_mod = fold_carry_spec [THEN conjunct2, THEN conjunct1]
  and fold_carry_0 = fold_carry_spec [THEN conjunct2, THEN conjunct2]

lemma fold_carry_full: "fold_carry s = 65535 \<longleftrightarrow> s > 0 \<and> s mod 65535 = 0"
proof
  assume "fold_carry s = 65535"
  then show "s > 0 \<and> s mod 65535 = 0" using fold_carry_mod [of s] fold_carry_0 [of s] by auto
next
  assume s: "s > 0 \<and> s mod 65535 = 0"
  then have "fold_carry s mod 65535 = 0" "fold_carry s \<noteq> 0" using fold_carry_mod [of s] fold_carry_0 [of s] by auto
  moreover have "fold_carry s < 65535 \<Longrightarrow> fold_carry s mod 65535 = fold_carry s" by simp
  ultimately show "fold_carry s = 65535" using fold_carry_le [of s] by linarith
qed

lemma unat_not_u16: "n \<le> 65535 \<Longrightarrow> unat (NOT (of_nat n :: u16)) = 65535 - n"
proof -
  assume n: "n \<le> 65535"
  have "NOT (of_nat n :: u16) = of_nat 65535 - of_nat n" by (simp add: not_eq_complement)
  also have "\<dots> = of_nat (65535 - n)" using n by (simp only: of_nat_diff)
  finally show ?thesis by (simp add: unat_of_nat take_bit_eq_mod)
qed

text \<open>What a receiver computes over the words of a header or segment whose checksum field holds \<open>c\<close>.\<close>

definition sum_ok :: "nat \<Rightarrow> bool" where
  "sum_ok s \<longleftrightarrow> fold_carry s = 65535"

lemma sum_ok_iff: "sum_ok s \<longleftrightarrow> s > 0 \<and> s mod 65535 = 0"
  by (simp add: sum_ok_def fold_carry_full)

lemma checksum_closes: "sum_ok (s + unat (NOT (of_nat (fold_carry s) :: u16)))"
proof -
  let ?c = "unat (NOT (of_nat (fold_carry s) :: u16))"
  have c: "?c = 65535 - fold_carry s" by (rule unat_not_u16) (rule fold_carry_le)
  have "(s + ?c) mod 65535 = (fold_carry s + ?c) mod 65535" by (metis fold_carry_mod mod_add_left_eq)
  also have "\<dots> = 0" using fold_carry_le [of s] by (simp add: c)
  finally have "(s + ?c) mod 65535 = 0" .
  moreover have "s + ?c > 0" unfolding c using fold_carry_0 [of s] by (cases "s = 0") auto
  ultimately show ?thesis by (simp add: sum_ok_iff)
qed

section \<open>What the builders write\<close>

lemma be16_length [simp]: "length (be16 v) = 2"
  by (simp add: be16_def)

definition be32_bytes :: "u32 \<Rightarrow> u8 list" where
  "be32_bytes v = be16 (ucast (drop_bit 16 v)) @ be16 (ucast v)"

lemma be32_bytes_length [simp]: "length (be32_bytes v) = 4"
  by (simp add: be32_bytes_def)

lemma copy_at_append:
  "off = length a \<Longrightarrow> length v \<le> length r \<Longrightarrow> copy_at off v (a @ r) = Some ((a @ v) @ drop (length v) r)"
  by (simp add: copy_at_def)

lemma copy_at_patch:
  "off = length a \<Longrightarrow> length v = length w \<Longrightarrow> copy_at off v (a @ w @ c) = Some (a @ v @ c)"
  by (simp add: copy_at_def)

lemma subslice_mid: "i = length a \<Longrightarrow> j = length a + length m \<Longrightarrow> subslice i j (a @ m @ c) = Some m"
  by (simp add: subslice_def)

lemma split_front: "n \<le> length b \<Longrightarrow> \<exists>x r. b = x @ r \<and> length x = n \<and> length r = length b - n"
  by (rule exI [of _ "take n b"], rule exI [of _ "drop n b"]) simp

definition sum16 :: "nat \<Rightarrow> u16" where
  "sum16 s = NOT (of_nat (fold_carry s))"

lemma checksum_seed_small:
  "s < 2 ^ 31 \<Longrightarrow> length data \<le> 2000 \<Longrightarrow> checksum_seed data s = Some (sum16 (s + wsum data))"
  by (simp add: checksum_seed_def sum_words_small sum16_def)

definition ip4_bytes :: "u16 \<Rightarrow> u16 \<Rightarrow> u8 \<Rightarrow> u16 \<Rightarrow> u8 list \<Rightarrow> u8 list" where
  "ip4_bytes len ident proto c ips = [0x45, 0] @ be16 len @ be16 ident @ [0, 0, 64, proto] @ be16 c @ ips"

definition eth_ip4 :: "u8 list \<Rightarrow> u8 list \<Rightarrow> u8 list \<Rightarrow> u16 \<Rightarrow> u8 \<Rightarrow> nat \<Rightarrow> u8 list" where
  "eth_ip4 dst_mac mac ips ident proto len =
     dst_mac @ mac @ be16 ETHERTYPE_IPV4 @
     ip4_bytes (of_nat len) ident proto (sum16 (wsum (ip4_bytes (of_nat len) ident proto 0 ips))) ips"

lemma put_eth_ip4_eq:
  assumes len: "length dst_mac = 6" "length mac = 6" "length ips = 8" "34 \<le> length b"
    and t: "14 \<le> t" "t < 65536"
  shows "put_eth_ip4 dst_mac mac ips ident proto t b =
           Some (eth_ip4 dst_mac mac ips ident proto (t - 14) @ drop 34 b)"
proof -
  let ?len = "of_nat (t - 14) :: u16"
  let ?e = "dst_mac @ mac @ be16 ETHERTYPE_IPV4"
  have l: "len_minus t 14 = Some ?len"
    using t by (simp add: len_minus_def unat_of_nat take_bit_eq_mod)
  have hdr: "do { b \<leftarrow> copy_at 0 dst_mac b; b \<leftarrow> copy_at 6 mac b; b \<leftarrow> put_u16 12 ETHERTYPE_IPV4 b;
          b \<leftarrow> copy_at 14 [0x45, 0] b; b \<leftarrow> put_u16 16 ?len b; b \<leftarrow> put_u16 18 ident b;
          b \<leftarrow> copy_at 20 [0, 0, 64, proto] b; b \<leftarrow> put_u16 24 0 b; copy_at 26 ips b } =
        Some (?e @ ip4_bytes ?len ident proto 0 ips @ drop 34 b)"
    using len by (simp add: copy_at_def put_u16_def ip4_bytes_def, arith)
  have s: "subslice 14 34 (?e @ ip4_bytes ?len ident proto 0 ips @ drop 34 b) = Some (ip4_bytes ?len ident proto 0 ips)"
    using len subslice_mid [of 14 ?e 34 "ip4_bytes ?len ident proto 0 ips"] by (simp add: ip4_bytes_def)
  have p: "put_u16 24 c (?e @ ip4_bytes ?len ident proto 0 ips @ drop 34 b) =
      Some (?e @ ip4_bytes ?len ident proto c ips @ drop 34 b)" for c
    using len by (simp add: copy_at_def put_u16_def ip4_bytes_def)
  have k: "checksum_seed (ip4_bytes ?len ident proto 0 ips) 0 = Some (sum16 (wsum (ip4_bytes ?len ident proto 0 ips)))"
    using len by (simp add: checksum_seed_small ip4_bytes_def)
  show ?thesis
    using arg_cong [OF hdr, of "\<lambda>x. Option.bind x (\<lambda>b. do { hdr \<leftarrow> subslice 14 34 b; ip_sum \<leftarrow> checksum_seed hdr 0; put_u16 24 ip_sum b })"]
    by (simp add: put_eth_ip4_def l eth_ip4_def s [unfolded append_assoc] p [unfolded append_assoc] k bind_assoc)
qed

definition udp_bytes :: "u16 \<Rightarrow> u16 \<Rightarrow> u16 \<Rightarrow> u8 list \<Rightarrow> u8 list" where
  "udp_bytes sport dport c payload = be16 sport @ be16 dport @ be16 (of_nat (8 + length payload)) @ be16 c @ payload"

definition tcp_bytes :: "u16 \<Rightarrow> u16 \<Rightarrow> u32 \<Rightarrow> u32 \<Rightarrow> u8 \<Rightarrow> u16 \<Rightarrow> u16 \<Rightarrow> u8 list \<Rightarrow> u8 list" where
  "tcp_bytes sport dport seq ack flags wnd c payload =
     be16 sport @ be16 dport @ be32_bytes seq @ be32_bytes ack @ [0x50, flags] @ be16 wnd @ be16 c @ be16 0 @ payload"

lemma segment_lengths [simp]:
  "length (udp_bytes sport dport c payload) = 8 + length payload"
  "length (tcp_bytes sport dport seq ack flags wnd c payload) = 20 + length payload"
  by (simp_all add: udp_bytes_def tcp_bytes_def)

lemma eth_ip4_length [simp]:
  "length dst_mac = 6 \<Longrightarrow> length mac = 6 \<Longrightarrow> length ips = 8 \<Longrightarrow>
   length (eth_ip4 dst_mac mac ips ident proto n) = 34"
  by (simp add: eth_ip4_def ip4_bytes_def)

lemma word_at_bound: "word_at i b < 65536"
  using unat8_lt [of "b ! (2 * i)"] unat8_lt [of "b ! (2 * i + 1)"] unfolding word_at_def by linarith

lemma pseudo_seed_small: "pseudo_seed src dst proto len < 2 ^ 31"
  using word_at_bound [of 0 src] word_at_bound [of 1 src] word_at_bound [of 0 dst] word_at_bound [of 1 dst]
    unat8_lt [of proto] unat16_lt [of len]
  unfolding pseudo_seed_def by (simp, linarith)

text \<open>The bytes of a whole frame.\<close>

definition udp_frame :: "u8 list \<Rightarrow> u8 list \<Rightarrow> u8 list \<Rightarrow> u8 list \<Rightarrow> u16 \<Rightarrow> u16 \<Rightarrow> u16 \<Rightarrow> u8 list \<Rightarrow> u8 list" where
  "udp_frame dst_mac mac my_ip dst_ip ident sport dport payload =
     eth_ip4 dst_mac mac (my_ip @ dst_ip) ident IPPROTO_UDP (28 + length payload) @
     udp_bytes sport dport
       (sum16 (pseudo_seed my_ip dst_ip IPPROTO_UDP (of_nat (8 + length payload)) + wsum (udp_bytes sport dport 0 payload)))
       payload"

definition tcp_frame ::
  "u8 list \<Rightarrow> u8 list \<Rightarrow> u8 list \<Rightarrow> u8 list \<Rightarrow> u16 \<Rightarrow> u16 \<Rightarrow> u16 \<Rightarrow> u32 \<Rightarrow> u32 \<Rightarrow> u8 \<Rightarrow> u16 \<Rightarrow> u8 list \<Rightarrow> u8 list" where
  "tcp_frame dst_mac mac my_ip dst_ip ident sport dport seq ack flags wnd payload =
     eth_ip4 dst_mac mac (my_ip @ dst_ip) ident IPPROTO_TCP (40 + length payload) @
     tcp_bytes sport dport seq ack flags wnd
       (sum16 (pseudo_seed my_ip dst_ip IPPROTO_TCP (of_nat (20 + length payload)) +
               wsum (tcp_bytes sport dport seq ack flags wnd 0 payload)))
       payload"

section \<open>The queue of frames\<close>

definition outq_ok :: "out_queue \<Rightarrow> bool" where
  "outq_ok q \<longleftrightarrow> length (oq_buf q) = FRAME_MAX \<and> length (oq_off q) = OUTQ_FRAMES + 1 \<and> oq_n q \<le> OUTQ_FRAMES \<and>
     (\<forall>i < oq_n q. unat (oq_off q ! i) \<le> unat (oq_off q ! (i + 1))) \<and> unat (oq_off q ! oq_n q) \<le> FRAME_MAX"

definition frames_of :: "out_queue \<Rightarrow> u8 list list" where
  "frames_of q = map (\<lambda>i. take (unat (oq_off q ! (i + 1)) - unat (oq_off q ! i)) (drop (unat (oq_off q ! i)) (oq_buf q)))
     [0..<oq_n q]"

definition room :: "nat \<Rightarrow> out_queue \<Rightarrow> bool" where
  "room len q \<longleftrightarrow> oq_n q < OUTQ_FRAMES \<and> unat (oq_off q ! oq_n q) + len \<le> FRAME_MAX"

text \<open>The bytes a builder finds in the room it reserves.\<close>

definition reserved :: "nat \<Rightarrow> out_queue \<Rightarrow> u8 list" where
  "reserved n q = take n (drop (unat (oq_off q ! oq_n q)) (oq_buf q))"

lemma reserved_length: "outq_ok q \<Longrightarrow> room n q \<Longrightarrow> length (reserved n q) = n"
  by (simp add: reserved_def outq_ok_def room_def) linarith

lemma off_mono:
  assumes "outq_ok q" "i \<le> j" "j \<le> oq_n q"
  shows "unat (oq_off q ! i) \<le> unat (oq_off q ! j)"
  using assms(2,3)
proof (induction j rule: dec_induct)
  case (step j)
  then have "unat (oq_off q ! j) \<le> unat (oq_off q ! (j + 1))" using assms(1) by (simp add: outq_ok_def)
  with step show ?case by simp
qed simp

lemma build_frame_full: "\<not> room n q \<Longrightarrow> build_frame n fill q = Some (False, q)"
  by (auto simp: build_frame_def outq_push_def room_def Let_def not_le)

lemma build_frame_room:
  assumes q: "outq_ok q" and r: "room n q"
    and fill: "fill (reserved n q) = Some fr" and fr: "length fr = n"
  shows "\<exists>q'. build_frame n fill q = Some (True, q') \<and> outq_ok q' \<and> frames_of q' = frames_of q @ [fr]
           \<and> oq_n q' = Suc (oq_n q) \<and> unat (oq_off q' ! oq_n q') = unat (oq_off q ! oq_n q) + n"
proof -
  let ?s = "unat (oq_off q ! oq_n q)"
  let ?off = "(oq_off q)[oq_n q + 1 := of_nat (?s + n)]"
  let ?buf = "take ?s (oq_buf q) @ fr @ drop (?s + n) (oq_buf q)"
  let ?q = "q\<lparr>oq_off := ?off, oq_n := oq_n q + 1, oq_buf := ?buf\<rparr>"
  have b: "length (oq_buf q) = FRAME_MAX" "length (oq_off q) = 5" "oq_n q < 4" "?s + n \<le> FRAME_MAX"
    using q r by (auto simp: outq_ok_def room_def)
  have s: "subslice ?s (?s + n) (oq_buf q) = Some (take n (drop ?s (oq_buf q)))"
    using b by (simp add: subslice_def)
  have run: "build_frame n fill q = Some (True, ?q)"
    using b fr s fill [unfolded reserved_def]
    by (simp add: build_frame_def outq_push_def Let_def copy_at_def)
  have last: "unat (?off ! (oq_n q + 1)) = ?s + n"
  proof -
    have "?off ! (oq_n q + 1) = of_nat (?s + n)" using b by (simp del: of_nat_add)
    moreover have "unat (of_nat (?s + n) :: u16) = ?s + n"
      using b by (subst unat_of_nat) (simp add: take_bit_eq_mod)
    ultimately show ?thesis by (simp only:)
  qed
  have old: "?off ! i = oq_off q ! i" if "i \<le> oq_n q" for i using that by simp
  have ok: "outq_ok ?q"
  proof -
    have "unat (?off ! i) \<le> unat (?off ! (i + 1))" if "i < oq_n q + 1" for i
    proof (cases "i = oq_n q")
      case True
      then show ?thesis using last old [of i] by simp
    next
      case False
      then have "i < oq_n q" using that by simp
      then show ?thesis using q old [of i] old [of "i + 1"] by (simp add: outq_ok_def)
    qed
    then show ?thesis using b fr last by (simp add: outq_ok_def)
  qed
  have keep: "take (unat (oq_off q ! (i + 1)) - unat (oq_off q ! i)) (drop (unat (oq_off q ! i)) ?buf) =
      take (unat (oq_off q ! (i + 1)) - unat (oq_off q ! i)) (drop (unat (oq_off q ! i)) (oq_buf q))"
    if "i < oq_n q" for i
  proof -
    have "unat (oq_off q ! i) \<le> unat (oq_off q ! (i + 1))" "unat (oq_off q ! (i + 1)) \<le> ?s"
      using off_mono [OF q, of i "i + 1"] off_mono [OF q, of "i + 1" "oq_n q"] that by auto
    then show ?thesis using b by (simp add: take_drop min_def)
  qed
  have new: "take n (drop ?s ?buf) = fr" using b fr by simp
  have "frames_of ?q = frames_of q @ [fr]"
    using keep old last new by (simp add: frames_of_def)
  then show ?thesis using run ok last by auto
qed

lemma udp_fill:
  assumes len: "length dst_mac = 6" "length mac = 6" "length my_ip = 4" "length dst_ip = 4"
    and b: "length b = 42 + length payload" and pl: "length payload \<le> 1400"
  shows "fill_udp dst_mac mac my_ip dst_ip ident sport dport payload b = Some (udp_frame dst_mac mac my_ip dst_ip ident sport dport payload)"
proof -
  let ?h = "eth_ip4 dst_mac mac (my_ip @ dst_ip) ident IPPROTO_UDP (28 + length payload)"
  have h: "length ?h = 34" using len by simp
  have e: "put_eth_ip4 dst_mac mac (my_ip @ dst_ip) ident IPPROTO_UDP (42 + length payload) b = Some (?h @ drop 34 b)"
    using len b pl by (simp add: put_eth_ip4_eq)
  have l: "len_minus (42 + length payload) 34 = Some (of_nat (8 + length payload))"
    using pl by (simp add: len_minus_def unat_of_nat take_bit_eq_mod del: of_nat_add)
  obtain x r where x: "drop 34 b = x @ r" "length x = 8" "length r = length payload"
    using b split_front [of 8 "drop 34 b"] by auto
  have w: "do { b \<leftarrow> put_u16 34 sport (?h @ drop 34 b); b \<leftarrow> put_u16 36 dport b;
            b \<leftarrow> put_u16 38 (of_nat (8 + length payload)) b; b \<leftarrow> put_u16 40 0 b;
            if payload \<noteq> [] then copy_at 42 payload b else Some b } = Some (?h @ udp_bytes sport dport 0 payload)"
    using h x by (auto simp: copy_at_def put_u16_def udp_bytes_def)
  have s: "subslice 34 (42 + length payload) (?h @ udp_bytes sport dport 0 payload) = Some (udp_bytes sport dport 0 payload)"
    using h by (simp add: subslice_def)
  have k: "checksum_seed (udp_bytes sport dport 0 payload) (pseudo_seed my_ip dst_ip IPPROTO_UDP n) =
      Some (sum16 (pseudo_seed my_ip dst_ip IPPROTO_UDP n + wsum (udp_bytes sport dport 0 payload)))" for n
    using pl pseudo_seed_small by (simp add: checksum_seed_small)
  have p: "put_u16 40 c (?h @ udp_bytes sport dport 0 payload) = Some (?h @ udp_bytes sport dport c payload)" for c
    using h by (simp add: copy_at_def put_u16_def udp_bytes_def)
  show ?thesis
    using arg_cong [OF w, of "\<lambda>x. Option.bind x (\<lambda>b. do { seg \<leftarrow> subslice 34 (34 + (8 + length payload)) b;
            s \<leftarrow> checksum_seed seg (pseudo_seed my_ip dst_ip IPPROTO_UDP (of_nat (8 + length payload)));
            put_u16 40 s b })"]
    by (simp add: fill_udp_def Let_def e l udp_frame_def s p k bind_assoc del: of_nat_add)
qed

lemma tcp_fill:
  assumes len: "length dst_mac = 6" "length mac = 6" "length my_ip = 4" "length dst_ip = 4"
    and b: "length b = 54 + length payload" and pl: "length payload \<le> 1400"
  shows "fill_tcp dst_mac mac my_ip dst_ip ident sport dport seq ack flags wnd payload b = Some (tcp_frame dst_mac mac my_ip dst_ip ident sport dport seq ack flags wnd payload)"
proof -
  let ?h = "eth_ip4 dst_mac mac (my_ip @ dst_ip) ident IPPROTO_TCP (40 + length payload)"
  have h: "length ?h = 34" using len by simp
  have e: "put_eth_ip4 dst_mac mac (my_ip @ dst_ip) ident IPPROTO_TCP (54 + length payload) b = Some (?h @ drop 34 b)"
    using len b pl by (simp add: put_eth_ip4_eq)
  obtain x r where x: "drop 34 b = x @ r" "length x = 20" "length r = length payload"
    using b split_front [of 20 "drop 34 b"] by auto
  have w: "do { b \<leftarrow> put_u16 34 sport (?h @ drop 34 b); b \<leftarrow> put_u16 36 dport b;
            b \<leftarrow> put_u32 38 seq b; b \<leftarrow> put_u32 42 ack b; b \<leftarrow> copy_at 46 [0x50, flags] b;
            b \<leftarrow> put_u16 48 wnd b; b \<leftarrow> put_u16 50 0 b; b \<leftarrow> put_u16 52 0 b;
            if payload \<noteq> [] then copy_at 54 payload b else Some b } = Some (?h @ tcp_bytes sport dport seq ack flags wnd 0 payload)"
    using h x by (auto simp: copy_at_def put_u16_def put_u32_def be32_bytes_def tcp_bytes_def)
  have s: "subslice 34 (54 + length payload) (?h @ tcp_bytes sport dport seq ack flags wnd 0 payload) = Some (tcp_bytes sport dport seq ack flags wnd 0 payload)"
    using h by (simp add: subslice_def)
  have k: "checksum_seed (tcp_bytes sport dport seq ack flags wnd 0 payload) (pseudo_seed my_ip dst_ip IPPROTO_TCP n) =
      Some (sum16 (pseudo_seed my_ip dst_ip IPPROTO_TCP n + wsum (tcp_bytes sport dport seq ack flags wnd 0 payload)))" for n
    using pl pseudo_seed_small by (simp add: checksum_seed_small)
  have p: "put_u16 50 c (?h @ tcp_bytes sport dport seq ack flags wnd 0 payload) = Some (?h @ tcp_bytes sport dport seq ack flags wnd c payload)" for c
    using h by (simp add: copy_at_def put_u16_def put_u32_def be32_bytes_def tcp_bytes_def)
  show ?thesis
    using arg_cong [OF w, of "\<lambda>x. Option.bind x (\<lambda>b. do { seg \<leftarrow> subslice 34 (34 + (20 + length payload)) b;
            s \<leftarrow> checksum_seed seg (pseudo_seed my_ip dst_ip IPPROTO_TCP (of_nat (20 + length payload)));
            put_u16 50 s b })"]
    by (simp add: fill_tcp_def Let_def e tcp_frame_def s p k bind_assoc del: of_nat_add)
qed

section \<open>What a receiver reads\<close>

lemma be16_join: "push_bit 8 (ucast (ucast (drop_bit 8 v) :: u8)) OR ucast (ucast v :: u8) = (v :: u16)"
  by (rule bit_word_eqI) (auto simp: bit_simps)

lemma be32_join: "push_bit 16 (ucast (ucast (drop_bit 16 v) :: u16)) OR ucast (ucast v :: u16) = (v :: u32)"
  by (rule bit_word_eqI) (auto simp: bit_simps)

lemma get_u16_at: "off = length a \<Longrightarrow> get_u16 off (a @ be16 v @ c) = Some v"
  by (simp add: get_u16_def byte_at_def be16_def nth_append be16_join)

lemma get_u32_at: "off = length a \<Longrightarrow> get_u32 off (a @ be32_bytes v @ c) = Some v"
  using get_u16_at [of off a "ucast (drop_bit 16 v)" "be16 (ucast v) @ c"]
    get_u16_at [of "off + 2" "a @ be16 (ucast (drop_bit 16 v))" "ucast v" c]
  by (simp add: get_u32_def be32_bytes_def be32_join)

lemma unat_be16: "unat (ucast (drop_bit 8 v) :: u8) * 256 + unat (ucast v :: u8) = unat (v :: u16)"
proof -
  have "unat (drop_bit 8 v) = drop_bit 8 (unat v)" by (rule unat_drop_bit_eq)
  also have "\<dots> = unat v div 256" by (simp add: drop_bit_eq_div)
  finally have d: "unat (drop_bit 8 v) = unat v div 256" .
  have "unat v div 256 < 256" using unat16_lt [of v] by (simp add: div_less_iff_less_mult)
  then have "unat (ucast (drop_bit 8 v) :: u8) = unat v div 256"
    by (simp add: unsigned_ucast_eq take_bit_eq_mod d)
  moreover have "unat (ucast v :: u8) = unat v mod 256" by (simp add: unsigned_ucast_eq take_bit_eq_mod)
  ultimately show ?thesis by simp
qed

lemma wsum_be16 [simp]: "wsum (be16 v @ r) = unat v + wsum r"
  using unat_be16 [of v] by (simp add: be16_def)

lemma wsum_ip4: "wsum (ip4_bytes len ident proto c ips) = wsum (ip4_bytes len ident proto 0 ips) + unat c"
  by (simp add: ip4_bytes_def)

lemma wsum_udp: "wsum (udp_bytes sport dport c payload) = wsum (udp_bytes sport dport 0 payload) + unat c"
  by (simp add: udp_bytes_def)

lemma wsum_tcp:
  "wsum (tcp_bytes sport dport seq ack flags wnd c payload) =
   wsum (tcp_bytes sport dport seq ack flags wnd 0 payload) + unat c"
  by (simp add: tcp_bytes_def be32_bytes_def)

lemma sum16_closes: "sum_ok (s + unat (sum16 s))"
  by (simp add: sum16_def checksum_closes)

lemma parse_eth_ip4:
  "length dst_mac = 6 \<Longrightarrow> length mac = 6 \<Longrightarrow> parse_eth (eth_ip4 dst_mac mac ips ident proto n @ r) = Some (dst_mac, mac, ETHERTYPE_IPV4)"
  using be16_join [of ETHERTYPE_IPV4]
  by (simp add: parse_eth_def eth_ip4_def be16_def nth_append)

lemma parse_ip4_eth_ip4:
  assumes "length dst_mac = 6" "length mac = 6" "length my_ip = 4" "length dst_ip = 4" "n < 65536" "n = 20 + length r"
  shows "parse_ip4 (eth_ip4 dst_mac mac (my_ip @ dst_ip) ident proto n @ r) =
     Some \<lparr>ip_src = my_ip, ip_dst = dst_ip, ip_proto = proto, total_len = n, transport = 34\<rparr>"
proof -
  have len: "unat (ucast (drop_bit 8 (of_nat n :: u16)) :: u8) * 256 + unat (ucast (of_nat n :: u16) :: u8) = n"
    unfolding unat_be16 using assms(5) by (subst unat_of_nat) (simp add: take_bit_eq_mod)
  have fields: "(eth_ip4 dst_mac mac (my_ip @ dst_ip) ident proto n @ r) ! 14 = 0x45"
    "(eth_ip4 dst_mac mac (my_ip @ dst_ip) ident proto n @ r) ! 16 = ucast (drop_bit 8 (of_nat n :: u16))"
    "(eth_ip4 dst_mac mac (my_ip @ dst_ip) ident proto n @ r) ! 17 = ucast (of_nat n :: u16)"
    "(eth_ip4 dst_mac mac (my_ip @ dst_ip) ident proto n @ r) ! 23 = proto"
    "take 4 (drop 26 (eth_ip4 dst_mac mac (my_ip @ dst_ip) ident proto n @ r)) = my_ip"
    "take 4 (drop 30 (eth_ip4 dst_mac mac (my_ip @ dst_ip) ident proto n @ r)) = dst_ip"
    using assms(1-4) by (simp_all add: eth_ip4_def ip4_bytes_def be16_def nth_append)
  have l: "length (eth_ip4 dst_mac mac (my_ip @ dst_ip) ident proto n @ r) = 14 + n" using assms by simp
  show ?thesis
    unfolding parse_ip4_def Let_def l using fields len assms(6) by simp
qed

section \<open>Frames through the queue\<close>

definition tx_ok :: "tx_ctx \<Rightarrow> bool" where
  "tx_ok ctx \<longleftrightarrow> length (tx_mac ctx) = 6 \<and> length (tx_ip ctx) = 4 \<and> outq_ok (tx_q ctx)"

definition sends :: "tx_ctx \<Rightarrow> u8 list \<Rightarrow> tx_ctx \<Rightarrow> bool" where
  "sends ctx fr ctx' \<longleftrightarrow> tx_ok ctx' \<and> tx_mac ctx' = tx_mac ctx \<and> tx_ip ctx' = tx_ip ctx \<and>
     tx_ip_id ctx' = tx_ip_id ctx + 1 \<and> frames_of (tx_q ctx') = frames_of (tx_q ctx) @ [fr] \<and>
     oq_n (tx_q ctx') = Suc (oq_n (tx_q ctx)) \<and>
     unat (oq_off (tx_q ctx') ! oq_n (tx_q ctx')) = unat (oq_off (tx_q ctx) ! oq_n (tx_q ctx)) + length fr"

lemma build_sends:
  assumes "tx_ok ctx" "room n (tx_q ctx)" "fill (reserved n (tx_q ctx)) = Some fr" "length fr = n"
  shows "\<exists>q. build_frame n fill (tx_q ctx) = Some (True, q) \<and> sends ctx fr (ctx\<lparr>tx_q := q, tx_ip_id := tx_ip_id ctx + 1\<rparr>)"
  using build_frame_room [of "tx_q ctx" n fill fr] assms by (auto simp: tx_ok_def sends_def)

lemma push_tcp_frame_sends:
  assumes "tx_ok ctx" "room (54 + length payload) (tx_q ctx)"
    and "length dst_mac = 6" "length dst_ip = 4" "length payload \<le> 1400"
  shows "\<exists>ctx'. push_tcp_frame dst_mac dst_ip sport dport seq ack flags wnd payload ctx = Some (True, ctx') \<and>
     sends ctx (tcp_frame dst_mac (tx_mac ctx) (tx_ip ctx) dst_ip (tx_ip_id ctx) sport dport seq ack flags wnd payload) ctx'"
proof -
  let ?fr = "tcp_frame dst_mac (tx_mac ctx) (tx_ip ctx) dst_ip (tx_ip_id ctx) sport dport seq ack flags wnd payload"
  have len: "length (tx_mac ctx) = 6" "length (tx_ip ctx) = 4" using assms(1) by (auto simp: tx_ok_def)
  then have l: "length ?fr = 54 + length payload" using assms by (simp add: tcp_frame_def)
  have "length (reserved (54 + length payload) (tx_q ctx)) = 54 + length payload"
    using assms(1,2) by (simp add: tx_ok_def reserved_length)
  then have f: "fill_tcp dst_mac (tx_mac ctx) (tx_ip ctx) dst_ip (tx_ip_id ctx) sport dport seq ack flags wnd payload (reserved (54 + length payload) (tx_q ctx)) = Some ?fr"
    by (rule tcp_fill [OF assms(3) len assms(4) _ assms(5)])
  show ?thesis
    using build_sends [of ctx _ "fill_tcp dst_mac (tx_mac ctx) (tx_ip ctx) dst_ip (tx_ip_id ctx) sport dport seq ack flags wnd payload", OF assms(1,2) f l]
    by (auto simp: push_tcp_frame_def)
qed

lemma push_udp_frame_sends:
  assumes "tx_ok ctx" "room (42 + length payload) (tx_q ctx)"
    and "length dst_mac = 6" "length dst_ip = 4" "length payload \<le> 1400"
  shows "\<exists>ctx'. push_udp_frame dst_mac dst_ip sport dport payload ctx = Some (True, ctx') \<and>
     sends ctx (udp_frame dst_mac (tx_mac ctx) (tx_ip ctx) dst_ip (tx_ip_id ctx) sport dport payload) ctx'"
proof -
  let ?fr = "udp_frame dst_mac (tx_mac ctx) (tx_ip ctx) dst_ip (tx_ip_id ctx) sport dport payload"
  have len: "length (tx_mac ctx) = 6" "length (tx_ip ctx) = 4" using assms(1) by (auto simp: tx_ok_def)
  then have l: "length ?fr = 42 + length payload" using assms by (simp add: udp_frame_def)
  have "length (reserved (42 + length payload) (tx_q ctx)) = 42 + length payload"
    using assms(1,2) by (simp add: tx_ok_def reserved_length)
  then have f: "fill_udp dst_mac (tx_mac ctx) (tx_ip ctx) dst_ip (tx_ip_id ctx) sport dport payload (reserved (42 + length payload) (tx_q ctx)) = Some ?fr"
    by (rule udp_fill [OF assms(3) len assms(4) _ assms(5)])
  show ?thesis
    using build_sends [of ctx _ "fill_udp dst_mac (tx_mac ctx) (tx_ip ctx) dst_ip (tx_ip_id ctx) sport dport payload", OF assms(1,2) f l]
    by (auto simp: push_udp_frame_def)
qed

lemma push_frame_full:
  "\<not> room (54 + length payload) (tx_q ctx) \<Longrightarrow>
   push_tcp_frame dst_mac dst_ip sport dport seq ack flags wnd payload ctx = Some (False, ctx)"
  "\<not> room (42 + length payload) (tx_q ctx) \<Longrightarrow>
   push_udp_frame dst_mac dst_ip sport dport payload ctx = Some (False, ctx)"
  by (simp_all add: push_tcp_frame_def push_udp_frame_def Let_def build_frame_full)

lemma tcp_frame_fields:
  assumes "length dst_mac = 6" "length mac = 6" "length my_ip = 4" "length dst_ip = 4" "length payload \<le> 1400"
    and fr_def: "fr = tcp_frame dst_mac mac my_ip dst_ip ident sport dport seq ack flags wnd payload"
  shows "parse_eth fr = Some (dst_mac, mac, ETHERTYPE_IPV4)"
    and "parse_ip4 fr = Some \<lparr>ip_src = my_ip, ip_dst = dst_ip, ip_proto = IPPROTO_TCP,
           total_len = 40 + length payload, transport = 34\<rparr>"
    and "drop 34 fr = tcp_bytes sport dport seq ack flags wnd
           (sum16 (pseudo_seed my_ip dst_ip IPPROTO_TCP (of_nat (20 + length payload)) +
               wsum (tcp_bytes sport dport seq ack flags wnd 0 payload))) payload"
    and "sum_ok (wsum (take 20 (drop 14 fr)))"
    and "sum_ok (pseudo_seed my_ip dst_ip IPPROTO_TCP (of_nat (20 + length payload)) + wsum (drop 34 fr))"
proof -
  show "parse_eth fr = Some (dst_mac, mac, ETHERTYPE_IPV4)"
    using assms(1,2) by (simp add: fr_def tcp_frame_def parse_eth_ip4)
  show "parse_ip4 fr = Some \<lparr>ip_src = my_ip, ip_dst = dst_ip, ip_proto = IPPROTO_TCP,
           total_len = 40 + length payload, transport = 34\<rparr>"
    unfolding fr_def tcp_frame_def using assms(1-5) by (intro parse_ip4_eth_ip4) auto
  show d: "drop 34 fr = tcp_bytes sport dport seq ack flags wnd
           (sum16 (pseudo_seed my_ip dst_ip IPPROTO_TCP (of_nat (20 + length payload)) +
               wsum (tcp_bytes sport dport seq ack flags wnd 0 payload))) payload"
    using assms(1-4) by (simp add: fr_def tcp_frame_def)
  show "sum_ok (pseudo_seed my_ip dst_ip IPPROTO_TCP (of_nat (20 + length payload)) + wsum (drop 34 fr))"
    unfolding d by (subst wsum_tcp) (metis add.assoc sum16_closes)
  have "take 20 (drop 14 fr) = ip4_bytes (of_nat (40 + length payload)) ident IPPROTO_TCP
      (sum16 (wsum (ip4_bytes (of_nat (40 + length payload)) ident IPPROTO_TCP 0 (my_ip @ dst_ip)))) (my_ip @ dst_ip)"
    using assms(1-4) by (simp add: fr_def tcp_frame_def eth_ip4_def ip4_bytes_def)
  then show "sum_ok (wsum (take 20 (drop 14 fr)))"
    by (simp only:) (subst wsum_ip4, rule sum16_closes)
qed

lemma tcp_bytes_fields:
  "get_u16 0 (tcp_bytes sport dport seq ack flags wnd c payload) = Some sport"
  "get_u16 2 (tcp_bytes sport dport seq ack flags wnd c payload) = Some dport"
  "get_u32 4 (tcp_bytes sport dport seq ack flags wnd c payload) = Some seq"
  "get_u32 8 (tcp_bytes sport dport seq ack flags wnd c payload) = Some ack"
  "tcp_bytes sport dport seq ack flags wnd c payload ! 12 = 0x50"
  "tcp_bytes sport dport seq ack flags wnd c payload ! 13 = flags"
  "get_u16 14 (tcp_bytes sport dport seq ack flags wnd c payload) = Some wnd"
  "drop 20 (tcp_bytes sport dport seq ack flags wnd c payload) = payload"
  unfolding tcp_bytes_def
  using get_u16_at [of 0 "[]" sport] get_u16_at [of 2 "be16 sport" dport]
    get_u32_at [of 4 "be16 sport @ be16 dport" seq] get_u32_at [of 8 "be16 sport @ be16 dport @ be32_bytes seq" ack]
    get_u16_at [of 14 "be16 sport @ be16 dport @ be32_bytes seq @ be32_bytes ack @ [0x50, flags]" wnd]
  by (simp_all add: be16_def be32_bytes_def)

text \<open>
  C15.  A TCP frame the stack queues is read back as it was meant, whatever earlier frames left in the
  scratch buffer: a builder call with room in the queue appends exactly one frame, keeps the frames
  before it, and the parsers find the addresses, the protocol, the lengths, the ports, the sequence and
  acknowledgement numbers, the flags, the window and the payload; the IPv4 header checksum and the TCP
  checksum over the pseudo-header both verify.\<close>

theorem tcp_frame_roundtrip:
  assumes "tx_ok ctx" "room (54 + length payload) (tx_q ctx)"
    and "length dst_mac = 6" "length dst_ip = 4" "length payload \<le> 1400"
  shows "\<exists>ctx' fr. push_tcp_frame dst_mac dst_ip sport dport seq ack flags wnd payload ctx = Some (True, ctx') \<and>
     frames_of (tx_q ctx') = frames_of (tx_q ctx) @ [fr] \<and>
     parse_eth fr = Some (dst_mac, tx_mac ctx, ETHERTYPE_IPV4) \<and>
     parse_ip4 fr = Some \<lparr>ip_src = tx_ip ctx, ip_dst = dst_ip, ip_proto = IPPROTO_TCP,
       total_len = 40 + length payload, transport = 34\<rparr> \<and>
     get_u16 0 (drop 34 fr) = Some sport \<and> get_u16 2 (drop 34 fr) = Some dport \<and>
     get_u32 4 (drop 34 fr) = Some seq \<and> get_u32 8 (drop 34 fr) = Some ack \<and>
     drop 34 fr ! 13 = flags \<and> get_u16 14 (drop 34 fr) = Some wnd \<and> drop 20 (drop 34 fr) = payload \<and>
     sum_ok (wsum (take 20 (drop 14 fr))) \<and>
     sum_ok (pseudo_seed (tx_ip ctx) dst_ip IPPROTO_TCP (of_nat (20 + length payload)) + wsum (drop 34 fr))"
proof -
  let ?fr = "tcp_frame dst_mac (tx_mac ctx) (tx_ip ctx) dst_ip (tx_ip_id ctx) sport dport seq ack flags wnd payload"
  obtain ctx' where ctx': "push_tcp_frame dst_mac dst_ip sport dport seq ack flags wnd payload ctx = Some (True, ctx')"
    "frames_of (tx_q ctx') = frames_of (tx_q ctx) @ [?fr]"
    using push_tcp_frame_sends [OF assms, of sport dport seq ack flags wnd] by (auto simp: sends_def)
  have "length (tx_mac ctx) = 6" "length (tx_ip ctx) = 4" using assms(1) by (auto simp: tx_ok_def)
  note f = tcp_frame_fields [OF assms(3) this assms(4,5) refl]
  show ?thesis
    by (intro exI conjI, rule ctx'(1), rule ctx'(2), rule f(1), rule f(2))
      (simp_all only: f(3) tcp_bytes_fields f(4) f(5) [unfolded f(3)])
qed

theorem tcp_frame_roundtrip_witness:
  "\<exists>ctx' fr. push_tcp_frame [2,0,0,0,0,2] [10,0,2,2] 7777 40000 0xFFFFFFF0 7 0x18 1024 [104, 105, 33]
       \<lparr>tx_mac = [2,0,0,0,0,1], tx_ip = [10,0,2,15], tx_ip_id = 0x1234, tx_q = outq_new\<rparr> = Some (True, ctx') \<and>
     frames_of (tx_q ctx') = [fr] \<and> get_u32 4 (drop 34 fr) = Some 0xFFFFFFF0 \<and> drop 20 (drop 34 fr) = [104, 105, 33]"
  using tcp_frame_roundtrip [of "\<lparr>tx_mac = [2,0,0,0,0,1], tx_ip = [10,0,2,15], tx_ip_id = 0x1234, tx_q = outq_new\<rparr>"
      "[104, 105, 33]" "[2,0,0,0,0,2]" "[10,0,2,2]" 7777 40000 "0xFFFFFFF0" 7 "0x18" 1024]
  by (auto simp: tx_ok_def outq_ok_def outq_new_def room_def frames_of_def)

end
