(* ===== verification/Net_Tcp.thy ===== *)
theory Net_Tcp
  imports Net_Frame
begin

text \<open>
  The TCP socket of the network stack, \<^verbatim>\<open>servers/libtanix-net/src/tcp.rs\<close>: the connection state, the
  calls of the application, the handling of an inbound segment and the polled transmission with its
  retransmissions.

  Sequence numbers are 32-bit words that wrap; buffers are the fixed arrays of the code, with their fill
  levels beside them.  A clock value is a \<open>nat\<close> whose checked additions panic; an index or a slice out of
  range is a panic too.  The frames a call emits go through the builders of \<open>Net_Frame\<close>.
\<close>

abbreviation RX_BUF :: nat where "RX_BUF \<equiv> 512"
abbreviation TX_BUF :: nat where "TX_BUF \<equiv> 512"
abbreviation TCP_MSS :: nat where "TCP_MSS \<equiv> 512"
abbreviation WINDOW :: u16 where "WINDOW \<equiv> 1024"
abbreviation RTO_TICKS :: nat where "RTO_TICKS \<equiv> 800"
abbreviation MAX_RETRIES :: nat where "MAX_RETRIES \<equiv> 8"

abbreviation FLAG_FIN :: u8 where "FLAG_FIN \<equiv> 0x01"
abbreviation FLAG_SYN :: u8 where "FLAG_SYN \<equiv> 0x02"
abbreviation FLAG_RST :: u8 where "FLAG_RST \<equiv> 0x04"
abbreviation FLAG_PSH :: u8 where "FLAG_PSH \<equiv> 0x08"
abbreviation FLAG_ACK :: u8 where "FLAG_ACK \<equiv> 0x10"

definition seq_lt :: "u32 \<Rightarrow> u32 \<Rightarrow> bool" where
  "seq_lt a b \<longleftrightarrow> sint (a - b) < 0"

definition seq_gt :: "u32 \<Rightarrow> u32 \<Rightarrow> bool" where
  "seq_gt a b \<longleftrightarrow> seq_lt b a"

definition seq_ge :: "u32 \<Rightarrow> u32 \<Rightarrow> bool" where
  "seq_ge a b \<longleftrightarrow> a = b \<or> seq_gt a b"

section \<open>Sockets and segments\<close>

datatype tcp_state = Listen | SynSent | SynRcvd | Established | CloseWait

datatype tcp_notify = NoEvent | Accepted | DataReady | PeerFin | ConnClosed

abbreviation N_ACCEPTED :: u8 where "N_ACCEPTED \<equiv> 1"
abbreviation N_DATA :: u8 where "N_DATA \<equiv> 2"
abbreviation N_PEERFIN :: u8 where "N_PEERFIN \<equiv> 4"
abbreviation N_CLOSED :: u8 where "N_CLOSED \<equiv> 8"

record tcp_seg =
  sg_seq :: u32
  sg_ack :: u32
  sg_syn :: bool
  sg_ack_flag :: bool
  sg_fin :: bool
  sg_rst :: bool
  sg_window :: u16
  sg_payload :: "u8 list"
  sg_peer_ip :: "u8 list"
  sg_peer_port :: u16
  sg_peer_mac :: "u8 list"

record tcp_socket =
  sk_state :: tcp_state
  sk_local_port :: u16
  sk_peer_ip :: "u8 list"
  sk_peer_port :: u16
  sk_peer_mac :: "u8 list"
  sk_iss :: u32
  sk_data_base :: u32
  sk_snd_nxt :: u32
  sk_sent :: nat
  sk_inflight :: nat
  sk_rcv_nxt :: u32
  sk_peer_wnd :: u32
  sk_syn_acked :: bool
  sk_fin_req :: bool
  sk_fin_sent :: bool
  sk_fin_seq :: u32
  sk_fin_acked :: bool
  sk_rx_fin :: bool
  sk_out :: "u8 list"
  sk_out_len :: nat
  sk_rx :: "u8 list"
  sk_rx_len :: nat
  sk_rto_deadline :: nat
  sk_retries :: nat
  sk_notify :: u8
  sk_dead :: bool

definition gen_iss :: "u16 \<Rightarrow> nat \<Rightarrow> u32" where
  "gen_iss port now = (of_nat now * 2654435761) XOR (push_bit 16 (ucast port) OR ucast port)"

definition blank :: "u16 \<Rightarrow> tcp_socket" where
  "blank port = \<lparr>sk_state = Listen, sk_local_port = port, sk_peer_ip = replicate 4 0, sk_peer_port = 0,
     sk_peer_mac = replicate 6 0, sk_iss = 0, sk_data_base = 0, sk_snd_nxt = 0, sk_sent = 0, sk_inflight = 0,
     sk_rcv_nxt = 0, sk_peer_wnd = 4096, sk_syn_acked = False, sk_fin_req = False, sk_fin_sent = False,
     sk_fin_seq = 0, sk_fin_acked = False, sk_rx_fin = False, sk_out = replicate TX_BUF 0, sk_out_len = 0,
     sk_rx = replicate RX_BUF 0, sk_rx_len = 0, sk_rto_deadline = 0, sk_retries = 0, sk_notify = 0,
     sk_dead = False\<rparr>"

definition listen :: "u16 \<Rightarrow> tcp_socket" where
  "listen port = blank port"

definition connect :: "u8 list \<Rightarrow> u16 \<Rightarrow> u16 \<Rightarrow> nat \<Rightarrow> tcp_socket option" where
  "connect dst_ip dst_port src_port now =
     do { rto \<leftarrow> uadd now RTO_TICKS;
          let iss = gen_iss src_port now;
          Some ((blank src_port)\<lparr>sk_state := SynSent, sk_peer_ip := dst_ip, sk_peer_port := dst_port, sk_iss := iss,
             sk_snd_nxt := iss + 1, sk_data_base := iss + 1, sk_rto_deadline := rto\<rparr>) }"

section \<open>Application calls\<close>

definition is_established :: "tcp_socket \<Rightarrow> bool" where
  "is_established s \<longleftrightarrow> sk_state s = Established"

fun take_first :: "(u8 \<times> tcp_notify) list \<Rightarrow> tcp_socket \<Rightarrow> tcp_notify \<times> tcp_socket" where
  "take_first [] s = (NoEvent, s)"
| "take_first ((b, ev) # evs) s =
     (if sk_notify s AND b \<noteq> 0 then (ev, s\<lparr>sk_notify := sk_notify s AND NOT b\<rparr>) else take_first evs s)"

definition take_notify :: "tcp_socket \<Rightarrow> tcp_notify \<times> tcp_socket" where
  "take_notify s =
     take_first [(N_ACCEPTED, Accepted), (N_DATA, DataReady), (N_PEERFIN, PeerFin), (N_CLOSED, ConnClosed)] s"

definition app_write :: "u8 list \<Rightarrow> tcp_socket \<Rightarrow> (bool \<times> tcp_socket) option" where
  "app_write data s =
     (if sk_state s \<noteq> Established \<and> sk_state s \<noteq> CloseWait then Some (False, s)
      else if sk_out_len s + length data > TX_BUF then Some (False, s)
      else do { out \<leftarrow> copy_at (sk_out_len s) data (sk_out s);
                let n = sk_out_len s + length data;
                Some (True, s\<lparr>sk_out := out, sk_out_len := n, sk_snd_nxt := sk_data_base s + of_nat n\<rparr>) })"

text \<open>\<^verbatim>\<open>buf.copy_within(from..to, 0)\<close>.\<close>

definition copy_down :: "nat \<Rightarrow> nat \<Rightarrow> u8 list \<Rightarrow> u8 list option" where
  "copy_down i j b = do { v \<leftarrow> subslice i j b; copy_at 0 v b }"

text \<open>The bytes \<^verbatim>\<open>app_read\<close> copies into a buffer of \<open>cap\<close> bytes.\<close>

definition app_read :: "nat \<Rightarrow> tcp_socket \<Rightarrow> (u8 list \<times> tcp_socket) option" where
  "app_read cap s =
     (let n = min (sk_rx_len s) cap in
      do { data \<leftarrow> subslice 0 n (sk_rx s);
           rx \<leftarrow> copy_down n (sk_rx_len s) (sk_rx s);
           Some (data, s\<lparr>sk_rx := rx, sk_rx_len := sk_rx_len s - n\<rparr>) })"

definition app_close :: "tcp_socket \<Rightarrow> tcp_socket" where
  "app_close s = s\<lparr>sk_fin_req := True\<rparr>"

section \<open>Emission\<close>

definition push_tcp :: "tcp_socket \<Rightarrow> u8 list \<Rightarrow> u8 list \<Rightarrow> u32 \<Rightarrow> u32 \<Rightarrow> u8 \<Rightarrow> u16 \<Rightarrow> u8 list \<Rightarrow> tx_ctx \<Rightarrow> tx_ctx option" where
  "push_tcp s dst_mac dst_ip seq ack flags wnd payload ctx =
     map_option snd (push_tcp_frame dst_mac dst_ip (sk_local_port s) (sk_peer_port s) seq ack flags wnd payload ctx)"

definition send_syn :: "tcp_socket \<Rightarrow> u8 list \<Rightarrow> u8 list \<Rightarrow> tx_ctx \<Rightarrow> tx_ctx option" where
  "send_syn s m ip ctx = push_tcp s m ip (sk_iss s) 0 FLAG_SYN WINDOW [] ctx"

definition send_syn_ack :: "tcp_socket \<Rightarrow> u8 list \<Rightarrow> u8 list \<Rightarrow> tx_ctx \<Rightarrow> tx_ctx option" where
  "send_syn_ack s m ip ctx = push_tcp s m ip (sk_iss s) (sk_rcv_nxt s) (FLAG_SYN OR FLAG_ACK) WINDOW [] ctx"

definition send_ack :: "tcp_socket \<Rightarrow> u8 list \<Rightarrow> u8 list \<Rightarrow> tx_ctx \<Rightarrow> tx_ctx option" where
  "send_ack s m ip ctx = push_tcp s m ip (sk_snd_nxt s) (sk_rcv_nxt s) FLAG_ACK WINDOW [] ctx"

definition send_rst :: "tcp_socket \<Rightarrow> u8 list \<Rightarrow> u8 list \<Rightarrow> u32 \<Rightarrow> tx_ctx \<Rightarrow> tx_ctx option" where
  "send_rst s m ip ack ctx = push_tcp s m ip 0 ack (FLAG_RST OR FLAG_ACK) 0 [] ctx"

definition send_data_seg :: "tcp_socket \<Rightarrow> u8 list \<Rightarrow> u8 list \<Rightarrow> u32 \<Rightarrow> u8 list \<Rightarrow> tx_ctx \<Rightarrow> tx_ctx option" where
  "send_data_seg s m ip seq data ctx = push_tcp s m ip seq (sk_rcv_nxt s) (FLAG_ACK OR FLAG_PSH) WINDOW data ctx"

definition send_fin :: "tcp_socket \<Rightarrow> u8 list \<Rightarrow> u8 list \<Rightarrow> u32 \<Rightarrow> tx_ctx \<Rightarrow> tx_ctx option" where
  "send_fin s m ip seq ctx = push_tcp s m ip seq (sk_rcv_nxt s) (FLAG_FIN OR FLAG_ACK) WINDOW [] ctx"

section \<open>Inbound segments\<close>

definition notify_app :: "u8 \<Rightarrow> tcp_socket \<Rightarrow> tcp_socket" where
  "notify_app b s = s\<lparr>sk_notify := sk_notify s OR b\<rparr>"

definition die :: "tcp_socket \<Rightarrow> tcp_socket" where
  "die s = notify_app N_CLOSED (s\<lparr>sk_dead := True\<rparr>)"

definition ack_data :: "u32 \<Rightarrow> tcp_socket \<Rightarrow> tcp_socket option" where
  "ack_data ack s =
     (let adv = min (unat (ack - sk_data_base s)) (sk_sent s) in
      if adv > 0 then
        do { out \<leftarrow> copy_down adv (sk_out_len s) (sk_out s);
             n \<leftarrow> usub (sk_out_len s) adv;
             let base = sk_data_base s + of_nat adv;
             let nxt = base + of_nat n;
             Some (s\<lparr>sk_out := out, sk_out_len := n, sk_snd_nxt := nxt, sk_sent := sk_sent s - adv,
                     sk_inflight := sk_inflight s - adv, sk_data_base := (if n = 0 then nxt else base)\<rparr>) }
      else Some s)"

definition ack_syn :: "u32 \<Rightarrow> tcp_socket \<Rightarrow> tcp_socket" where
  "ack_syn ack s =
     (if \<not> sk_syn_acked s \<and> (sk_state s = SynSent \<or> sk_state s = SynRcvd) \<and> ack = sk_snd_nxt s
      then s\<lparr>sk_syn_acked := True, sk_rto_deadline := 0\<rparr> else s)"

definition ack_fin :: "u32 \<Rightarrow> tcp_socket \<Rightarrow> tcp_socket" where
  "ack_fin ack s =
     (if sk_fin_sent s \<and> seq_gt ack (sk_fin_seq s) \<and> \<not> sk_fin_acked s
      then let s = s\<lparr>sk_fin_acked := True\<rparr> in if sk_rx_fin s then die s else s
      else s)"

definition rx_ack :: "u32 \<Rightarrow> tcp_socket \<Rightarrow> tcp_socket option" where
  "rx_ack ack s = do { s \<leftarrow> ack_data ack s; Some (ack_fin ack (ack_syn ack s)) }"

definition rx_data :: "tcp_seg \<Rightarrow> tcp_socket \<Rightarrow> tx_ctx \<Rightarrow> (tcp_socket \<times> tx_ctx) option" where
  "rx_data g s ctx =
     (if sg_seq g = sk_rcv_nxt s then
        do { free \<leftarrow> usub RX_BUF (sk_rx_len s);
             let n = min (length (sg_payload g)) free;
             rx \<leftarrow> copy_at (sk_rx_len s) (take n (sg_payload g)) (sk_rx s);
             let s = notify_app N_DATA (s\<lparr>sk_rx := rx, sk_rx_len := sk_rx_len s + n,
                       sk_rcv_nxt := sk_rcv_nxt s + of_nat (length (sg_payload g))\<rparr>);
             ctx \<leftarrow> send_ack s (sg_peer_mac g) (sg_peer_ip g) ctx;
             Some (s, ctx) }
      else do { ctx \<leftarrow> send_ack s (sg_peer_mac g) (sg_peer_ip g) ctx; Some (s, ctx) })"

definition rx_fin :: "tcp_seg \<Rightarrow> bool \<Rightarrow> tcp_socket \<Rightarrow> tx_ctx \<Rightarrow> (tcp_socket \<times> tx_ctx) option" where
  "rx_fin g syn_phase s ctx =
     (let fin_seq = sg_seq g + of_nat (length (sg_payload g));
          s = (if seq_ge fin_seq (sk_rcv_nxt s) then
                 let s = notify_app N_PEERFIN (s\<lparr>sk_rcv_nxt := fin_seq + 1, sk_rx_fin := True\<rparr>);
                     s = (if sk_state s = Established \<and> \<not> syn_phase then s\<lparr>sk_state := CloseWait\<rparr> else s)
                 in if sk_fin_sent s \<and> sk_fin_acked s then die s else s
               else s)
      in do { ctx \<leftarrow> send_ack s (sg_peer_mac g) (sg_peer_ip g) ctx; Some (s, ctx) })"

definition rx_syn :: "tcp_seg \<Rightarrow> nat \<Rightarrow> tcp_socket \<Rightarrow> tx_ctx \<Rightarrow> (tcp_socket \<times> tx_ctx) option" where
  "rx_syn g now s ctx =
     do { rto \<leftarrow> uadd now RTO_TICKS;
          let iss = gen_iss (sk_local_port s) now;
          let s = s\<lparr>sk_iss := iss, sk_snd_nxt := iss + 1, sk_data_base := iss + 1, sk_peer_ip := sg_peer_ip g,
                    sk_peer_port := sg_peer_port g, sk_peer_mac := sg_peer_mac g, sk_rcv_nxt := sg_seq g + 1,
                    sk_state := SynRcvd, sk_syn_acked := False, sk_out_len := 0, sk_sent := 0, sk_inflight := 0,
                    sk_rx_len := 0, sk_fin_req := False, sk_fin_sent := False, sk_fin_acked := False,
                    sk_rx_fin := False, sk_retries := 0, sk_rto_deadline := rto\<rparr>;
          ctx \<leftarrow> send_syn_ack s (sg_peer_mac g) (sg_peer_ip g) ctx;
          Some (s, ctx) }"

definition rx_synack :: "tcp_seg \<Rightarrow> tcp_socket \<Rightarrow> tx_ctx \<Rightarrow> (tcp_socket \<times> tx_ctx) option" where
  "rx_synack g s ctx =
     (if \<not> (sg_ack_flag g \<and> sg_ack g = sk_iss s + 1) then Some (s\<lparr>sk_rcv_nxt := sg_seq g + 1\<rparr>, ctx)
      else let s = s\<lparr>sk_rcv_nxt := sg_seq g + 1, sk_syn_acked := True, sk_rto_deadline := 0\<rparr>
           in do { ctx \<leftarrow> send_ack s (sg_peer_mac g) (sg_peer_ip g) ctx; Some (s, ctx) })"

text \<open>The payload and the FIN of a segment, in this order.\<close>

definition rx_body :: "tcp_seg \<Rightarrow> bool \<Rightarrow> tcp_socket \<Rightarrow> tx_ctx \<Rightarrow> (tcp_socket \<times> tx_ctx) option" where
  "rx_body g syn_phase s ctx =
     do { (s, ctx) \<leftarrow> (if sg_payload g \<noteq> [] then rx_data g s ctx else Some (s, ctx));
          if sg_fin g then rx_fin g syn_phase s ctx else Some (s, ctx) }"

definition rx_segment :: "tcp_seg \<Rightarrow> nat \<Rightarrow> tcp_socket \<Rightarrow> tx_ctx \<Rightarrow> (tcp_socket \<times> tx_ctx) option" where
  "rx_segment g now s ctx =
     (if sk_dead s then Some (s, ctx)
      else if sg_rst g then Some (die s, ctx)
      else do {
        s \<leftarrow> (if sg_ack_flag g then rx_ack (sg_ack g) (s\<lparr>sk_peer_wnd := ucast (sg_window g)\<rparr>) else Some s);
        case sk_state s of
          Listen \<Rightarrow> if sg_syn g then rx_syn g now s ctx else Some (die s, ctx)
        | SynSent \<Rightarrow>
            if sg_syn g then
              do { (s, ctx) \<leftarrow> rx_synack g s ctx;
                   let s = (if sk_syn_acked s then notify_app N_ACCEPTED (s\<lparr>sk_state := Established\<rparr>) else s);
                   rx_body g True s ctx }
            else Some (s, ctx)
        | SynRcvd \<Rightarrow>
            if sg_syn g then
              do { rto \<leftarrow> uadd now RTO_TICKS;
                   let s = s\<lparr>sk_rcv_nxt := sg_seq g + 1, sk_rto_deadline := rto, sk_retries := 0\<rparr>;
                   ctx \<leftarrow> send_syn_ack s (sg_peer_mac g) (sg_peer_ip g) ctx;
                   Some (s, ctx) }
            else if sk_syn_acked s then rx_body g True (notify_app N_ACCEPTED (s\<lparr>sk_state := Established\<rparr>)) ctx
            else Some (s, ctx)
        | _ \<Rightarrow>
            do { ctx \<leftarrow> (if sg_syn g then send_ack s (sg_peer_mac g) (sg_peer_ip g) ctx else Some ctx);
                 rx_body g False s ctx } })"

section \<open>Polling\<close>

text \<open>
  The retransmission clause the three phases share: count the attempt and give up after the last one,
  otherwise send again and re-arm the timer.
\<close>

definition retry :: "nat \<Rightarrow> (tcp_socket \<Rightarrow> tx_ctx \<Rightarrow> tx_ctx option) \<Rightarrow> tcp_socket \<Rightarrow> tx_ctx \<Rightarrow> (tcp_socket \<times> tx_ctx) option" where
  "retry now send s ctx =
     (if sk_retries s \<ge> 255 then None
      else let s = s\<lparr>sk_retries := sk_retries s + 1\<rparr> in
        if sk_retries s > MAX_RETRIES then Some (die s, ctx)
        else do { ctx \<leftarrow> send s ctx;
                  rto \<leftarrow> uadd now RTO_TICKS;
                  Some (s\<lparr>sk_rto_deadline := rto\<rparr>, ctx) })"

definition resend_data :: "tcp_socket \<Rightarrow> tx_ctx \<Rightarrow> tx_ctx option" where
  "resend_data s ctx =
     do { start \<leftarrow> usub (sk_sent s) (sk_inflight s);
          data \<leftarrow> subslice start (start + sk_inflight s) (sk_out s);
          send_data_seg s (sk_peer_mac s) (sk_peer_ip s) (sk_data_base s + of_nat start) data ctx }"

definition send_fresh :: "nat \<Rightarrow> tcp_socket \<Rightarrow> tx_ctx \<Rightarrow> (tcp_socket \<times> tx_ctx) option" where
  "send_fresh now s ctx =
     (if sk_peer_wnd s = 0 then Some (s, ctx)
      else let chunk = min (min (sk_out_len s - sk_sent s) TCP_MSS) (unat (sk_peer_wnd s)) in
        if chunk = 0 then Some (s, ctx)
        else do { data \<leftarrow> subslice (sk_sent s) (sk_sent s + chunk) (sk_out s);
                  ctx \<leftarrow> send_data_seg s (sk_peer_mac s) (sk_peer_ip s) (sk_data_base s + of_nat (sk_sent s)) data ctx;
                  rto \<leftarrow> uadd now RTO_TICKS;
                  Some (s\<lparr>sk_sent := sk_sent s + chunk, sk_inflight := chunk, sk_retries := 0,
                          sk_rto_deadline := rto\<rparr>, ctx) })"

definition tcp_poll :: "nat \<Rightarrow> tcp_socket \<Rightarrow> tx_ctx \<Rightarrow> (tcp_socket \<times> tx_ctx) option" where
  "tcp_poll now s ctx =
     (let m = sk_peer_mac s; ip = sk_peer_ip s in
      if sk_dead s then Some (s, ctx)
      else if m = replicate 6 0 then Some (s, ctx)
      else if \<not> sk_syn_acked s \<and> (sk_state s = SynSent \<or> sk_state s = SynRcvd) then
        (if now \<ge> sk_rto_deadline s
         then retry now (\<lambda>s. if sk_state s = SynSent then send_syn s m ip else send_syn_ack s m ip) s ctx
         else Some (s, ctx))
      else if sk_inflight s > 0 then
        (if now \<ge> sk_rto_deadline s then retry now resend_data s ctx else Some (s, ctx))
      else if sk_sent s < sk_out_len s then send_fresh now s ctx
      else if sk_fin_req s \<and> \<not> sk_fin_sent s then
        do { ctx \<leftarrow> send_fin s m ip (sk_snd_nxt s) ctx;
             rto \<leftarrow> uadd now RTO_TICKS;
             Some (s\<lparr>sk_fin_sent := True, sk_fin_seq := sk_snd_nxt s, sk_retries := 0, sk_rto_deadline := rto\<rparr>, ctx) }
      else if sk_fin_sent s \<and> \<not> sk_fin_acked s \<and> now \<ge> sk_rto_deadline s then
        retry now (\<lambda>s. send_fin s m ip (sk_fin_seq s)) s ctx
      else Some (s, ctx))"

section \<open>The socket invariant\<close>

text \<open>
  The arrays keep their sizes, what is in flight is what was sent and is a prefix of the queue, the next
  sequence number is the one behind the queue, and a live socket still has attempts left.
\<close>

definition tcp_ok :: "tcp_socket \<Rightarrow> bool" where
  "tcp_ok s \<longleftrightarrow> length (sk_out s) = TX_BUF \<and> length (sk_rx s) = RX_BUF \<and> sk_inflight s = sk_sent s \<and>
     sk_sent s \<le> sk_out_len s \<and> sk_out_len s \<le> TX_BUF \<and> sk_rx_len s \<le> RX_BUF \<and>
     sk_snd_nxt s = sk_data_base s + of_nat (sk_out_len s) \<and>
     length (sk_peer_mac s) = 6 \<and> length (sk_peer_ip s) = 4 \<and> (\<not> sk_dead s \<longrightarrow> sk_retries s \<le> MAX_RETRIES)"

definition seg_ok :: "tcp_seg \<Rightarrow> bool" where
  "seg_ok g \<longleftrightarrow> length (sg_peer_mac g) = 6 \<and> length (sg_peer_ip g) = 4"

text \<open>What a call may do to the transmission context: append frames.\<close>

definition tx_step :: "tx_ctx \<Rightarrow> tx_ctx \<Rightarrow> bool" where
  "tx_step ctx ctx' \<longleftrightarrow> tx_ok ctx' \<and> tx_mac ctx' = tx_mac ctx \<and> tx_ip ctx' = tx_ip ctx \<and>
     (\<exists>frs. frames_of (tx_q ctx') = frames_of (tx_q ctx) @ frs)"

definition safe :: "tx_ctx \<Rightarrow> (tcp_socket \<times> tx_ctx) option \<Rightarrow> bool" where
  "safe ctx r \<longleftrightarrow> (\<exists>s' ctx'. r = Some (s', ctx') \<and> tcp_ok s' \<and> tx_step ctx ctx')"

lemma tx_step_refl [simp]: "tx_ok ctx \<Longrightarrow> tx_step ctx ctx"
  by (simp add: tx_step_def)

lemma tx_step_trans: "tx_step a b \<Longrightarrow> tx_step b c \<Longrightarrow> tx_step a c"
  by (auto simp: tx_step_def)

lemma push_tcp_step:
  assumes "tx_ok ctx" "length m = 6" "length ip = 4" "length payload \<le> 1400"
  shows "\<exists>ctx'. push_tcp s m ip seq ack flags wnd payload ctx = Some ctx' \<and> tx_step ctx ctx'"
proof (cases "room (54 + length payload) (tx_q ctx)")
  case True
  then show ?thesis
    using push_tcp_frame_sends [OF assms(1) True assms(2-4), of "sk_local_port s" "sk_peer_port s" seq ack flags wnd]
    by (auto simp: push_tcp_def tx_step_def sends_def)
next
  case False
  then show ?thesis using assms(1) by (simp add: push_tcp_def push_frame_full)
qed

lemma send_step:
  assumes "tx_ok ctx" "length m = 6" "length ip = 4"
  shows "\<exists>ctx'. send_syn s m ip ctx = Some ctx' \<and> tx_step ctx ctx'"
    and "\<exists>ctx'. send_syn_ack s m ip ctx = Some ctx' \<and> tx_step ctx ctx'"
    and "\<exists>ctx'. send_ack s m ip ctx = Some ctx' \<and> tx_step ctx ctx'"
    and "\<exists>ctx'. send_fin s m ip seq ctx = Some ctx' \<and> tx_step ctx ctx'"
    and "length data \<le> 1400 \<Longrightarrow> \<exists>ctx'. send_data_seg s m ip seq data ctx = Some ctx' \<and> tx_step ctx ctx'"
  using push_tcp_step [OF assms] by (auto simp: send_syn_def send_syn_ack_def send_ack_def send_fin_def send_data_seg_def)

lemma safe_then_send:
  assumes "tcp_ok s" "\<exists>ctx'. r = Some ctx' \<and> tx_step ctx ctx'"
  shows "safe ctx (do { ctx \<leftarrow> r; Some (s, ctx) })"
  using assms by (auto simp: safe_def)

lemma safe_then_ack:
  assumes "tcp_ok s" "tx_ok ctx" "length m = 6" "length ip = 4"
  shows "safe ctx (do { ctx \<leftarrow> send_ack s m ip ctx; Some (s, ctx) })"
  using send_step(3) [OF assms(2-4), of s] assms(1) by (auto simp: safe_def)

lemma tcp_ok_flags [simp]:
  "tcp_ok (notify_app b s) = tcp_ok s" "tcp_ok (s\<lparr>sk_state := st\<rparr>) = tcp_ok s" "tcp_ok (s\<lparr>sk_rcv_nxt := n\<rparr>) = tcp_ok s"
  "tcp_ok (s\<lparr>sk_syn_acked := b1\<rparr>) = tcp_ok s" "tcp_ok (s\<lparr>sk_rto_deadline := t\<rparr>) = tcp_ok s"
  "tcp_ok (s\<lparr>sk_fin_acked := b1\<rparr>) = tcp_ok s" "tcp_ok (s\<lparr>sk_rx_fin := b1\<rparr>) = tcp_ok s"
  "tcp_ok (s\<lparr>sk_peer_wnd := w\<rparr>) = tcp_ok s" "tcp_ok (s\<lparr>sk_fin_req := b1\<rparr>) = tcp_ok s"
  "tcp_ok (s\<lparr>sk_fin_sent := b1\<rparr>) = tcp_ok s" "tcp_ok (s\<lparr>sk_fin_seq := n\<rparr>) = tcp_ok s"
  by (simp_all add: tcp_ok_def notify_app_def)

lemma tcp_ok_die: "tcp_ok s \<Longrightarrow> tcp_ok (die s)"
  by (simp add: die_def tcp_ok_def notify_app_def)

lemma tcp_ok_listen [simp]: "tcp_ok (listen port)"
  by (simp add: listen_def blank_def tcp_ok_def)

lemma copy_down_ok:
  assumes "i \<le> j" "j \<le> length b"
  shows "\<exists>b'. copy_down i j b = Some b' \<and> length b' = length b \<and> take (j - i) b' = take (j - i) (drop i b)"
  using assms by (simp add: copy_down_def subslice_def copy_at_def)

lemma ack_data_ok:
  assumes "tcp_ok s"
  shows "\<exists>s'. ack_data ack s = Some s' \<and> tcp_ok s' \<and> sk_state s' = sk_state s \<and> sk_peer_mac s' = sk_peer_mac s
           \<and> sk_rcv_nxt s' = sk_rcv_nxt s"
proof (cases "min (unat (ack - sk_data_base s)) (sk_sent s) > 0")
  case True
  let ?adv = "min (unat (ack - sk_data_base s)) (sk_sent s)"
  have le: "?adv \<le> sk_out_len s" "sk_out_len s \<le> length (sk_out s)" using assms by (auto simp: tcp_ok_def)
  obtain out' where out': "copy_down ?adv (sk_out_len s) (sk_out s) = Some out'" "length out' = length (sk_out s)"
    using copy_down_ok [OF le] by blast
  show ?thesis
    using True out' le assms unfolding ack_data_def Let_def usub_def tcp_ok_def by auto
next
  case False
  then show ?thesis using assms by (simp only: ack_data_def Let_def if_False) simp
qed

lemma ack_syn_ok [simp]:
  "tcp_ok (ack_syn ack s) = tcp_ok s" "sk_state (ack_syn ack s) = sk_state s"
  "sk_rcv_nxt (ack_syn ack s) = sk_rcv_nxt s"
  by (simp_all add: ack_syn_def)

lemma ack_fin_ok [simp]:
  "tcp_ok s \<Longrightarrow> tcp_ok (ack_fin ack s)" "sk_state (ack_fin ack s) = sk_state s"
  "sk_rcv_nxt (ack_fin ack s) = sk_rcv_nxt s"
  by (simp_all add: ack_fin_def Let_def tcp_ok_die die_def notify_app_def)
     (simp add: tcp_ok_def)

lemma rx_ack_ok:
  assumes "tcp_ok s"
  shows "\<exists>s'. rx_ack ack s = Some s' \<and> tcp_ok s' \<and> sk_state s' = sk_state s"
  using ack_data_ok [OF assms, of ack] by (auto simp: rx_ack_def)

lemma rx_data_safe:
  assumes "tcp_ok s" "tx_ok ctx" "seg_ok g"
  shows "safe ctx (rx_data g s ctx)"
proof (cases "sg_seq g = sk_rcv_nxt s")
  case True
  let ?n = "min (length (sg_payload g)) (RX_BUF - sk_rx_len s)"
  have "sk_rx_len s \<le> RX_BUF" using assms(1) by (simp add: tcp_ok_def)
  then have fits: "sk_rx_len s + ?n \<le> RX_BUF" by linarith
  have rx: "copy_at (sk_rx_len s) (take ?n (sg_payload g)) (sk_rx s) =
      Some (take (sk_rx_len s) (sk_rx s) @ take ?n (sg_payload g) @ drop (sk_rx_len s + ?n) (sk_rx s))"
    using assms(1) fits by (simp add: copy_at_def tcp_ok_def)
  let ?s = "notify_app N_DATA (s\<lparr>sk_rx := take (sk_rx_len s) (sk_rx s) @ take ?n (sg_payload g) @ drop (sk_rx_len s + ?n) (sk_rx s),
      sk_rx_len := sk_rx_len s + ?n, sk_rcv_nxt := sk_rcv_nxt s + of_nat (length (sg_payload g))\<rparr>)"
  have ok: "tcp_ok ?s" using assms(1) fits by (simp add: tcp_ok_def notify_app_def)
  have u: "usub RX_BUF (sk_rx_len s) = Some (RX_BUF - sk_rx_len s)" using fits by simp
  have "length (sg_peer_mac g) = 6" "length (sg_peer_ip g) = 4" using assms(3) by (auto simp: seg_ok_def)
  from safe_then_ack [OF ok assms(2) this] show ?thesis
    by (simp only: rx_data_def True if_True u Option.bind.simps Let_def rx simp_thms)
next
  case False
  then show ?thesis using safe_then_ack [OF assms(1,2), of "sg_peer_mac g" "sg_peer_ip g"] assms(3)
    by (simp add: rx_data_def seg_ok_def)
qed

lemma rx_fin_safe:
  assumes "tcp_ok s" "tx_ok ctx" "seg_ok g"
  shows "safe ctx (rx_fin g syn_phase s ctx)"
  unfolding rx_fin_def Let_def
  by (rule safe_then_ack) (use assms in \<open>auto simp: seg_ok_def tcp_ok_die\<close>)

lemma safe_bind:
  assumes "safe ctx r" "\<And>s' ctx'. r = Some (s', ctx') \<Longrightarrow> tcp_ok s' \<Longrightarrow> tx_step ctx ctx' \<Longrightarrow> safe ctx' (f s' ctx')"
  shows "safe ctx (do { (s, c) \<leftarrow> r; f s c })"
  using assms by (fastforce simp: safe_def intro: tx_step_trans)

lemma tx_step_ok: "tx_step ctx ctx' \<Longrightarrow> tx_ok ctx'"
  by (simp add: tx_step_def)

lemma safe_Some [simp]: "tx_ok ctx \<Longrightarrow> safe ctx (Some (s, ctx)) = tcp_ok s"
  by (simp add: safe_def)

lemma rx_body_safe:
  assumes "tcp_ok s" "tx_ok ctx" "seg_ok g"
  shows "safe ctx (rx_body g syn_phase s ctx)"
  unfolding rx_body_def
  by (rule safe_bind) (use assms in \<open>auto simp: rx_data_safe rx_fin_safe dest: tx_step_ok\<close>)

lemma rx_syn_safe:
  assumes "tcp_ok s" "tx_ok ctx" "seg_ok g" "now + RTO_TICKS < USIZE_LIMIT"
  shows "safe ctx (rx_syn g now s ctx)"
  using assms unfolding rx_syn_def Let_def uadd_fits [OF assms(4)] Option.bind.simps
  by (intro safe_then_send send_step) (auto simp: tcp_ok_def seg_ok_def)

lemma rx_synack_safe:
  assumes "tcp_ok s" "tx_ok ctx" "seg_ok g"
  shows "safe ctx (rx_synack g s ctx)"
proof (cases "sg_ack_flag g \<and> sg_ack g = sk_iss s + 1")
  case True
  have "tcp_ok (s\<lparr>sk_rcv_nxt := sg_seq g + 1, sk_syn_acked := True, sk_rto_deadline := 0\<rparr>)" using assms(1) by simp
  from safe_then_ack [OF this assms(2), of "sg_peer_mac g" "sg_peer_ip g"] show ?thesis
    using True assms(3) by (simp add: rx_synack_def seg_ok_def Let_def)
next
  case False
  then show ?thesis using assms by (auto simp: rx_synack_def)
qed

lemma safe_bind_send:
  assumes "\<exists>ctx'. r = Some ctx' \<and> tx_step ctx ctx'" "\<And>ctx'. tx_step ctx ctx' \<Longrightarrow> safe ctx' (f ctx')"
  shows "safe ctx (do { c \<leftarrow> r; f c })"
  using assms by (fastforce simp: safe_def intro: tx_step_trans)

lemma rx_segment_safe:
  assumes "tcp_ok s" "tx_ok ctx" "seg_ok g" "now + RTO_TICKS < USIZE_LIMIT"
  shows "safe ctx (rx_segment g now s ctx)"
proof -
  obtain s1 where s1: "(if sg_ack_flag g then rx_ack (sg_ack g) (s\<lparr>sk_peer_wnd := ucast (sg_window g)\<rparr>) else Some s) = Some s1"
    "tcp_ok s1"
    using rx_ack_ok [of "s\<lparr>sk_peer_wnd := ucast (sg_window g)\<rparr>" "sg_ack g"] assms(1) by (cases "sg_ack_flag g") auto
  have g: "length (sg_peer_mac g) = 6" "length (sg_peer_ip g) = 4" using assms(3) by (auto simp: seg_ok_def)
  have syn_sent: "safe ctx (do { (s, ctx) \<leftarrow> rx_synack g s1 ctx;
       rx_body g True (if sk_syn_acked s then notify_app N_ACCEPTED (s\<lparr>sk_state := Established\<rparr>) else s) ctx })"
    by (rule safe_bind [OF rx_synack_safe [OF s1(2) assms(2,3)]], rule rx_body_safe)
      (use assms(3) in \<open>auto dest: tx_step_ok\<close>)
  have again: "safe ctx (do { ctx \<leftarrow> send_syn_ack s' (sg_peer_mac g) (sg_peer_ip g) ctx; Some (s', ctx) })"
    if "tcp_ok s'" for s'
    by (rule safe_then_send [OF that]) (rule send_step [OF assms(2) g])
  have est: "safe ctx (do { ctx \<leftarrow> (if sg_syn g then send_ack s1 (sg_peer_mac g) (sg_peer_ip g) ctx else Some ctx);
       rx_body g False s1 ctx })"
    by (rule safe_bind_send, use send_step(3) [OF assms(2) g] assms(2) in simp)
      (rule rx_body_safe [OF s1(2) tx_step_ok assms(3)])
  have retrans: "tcp_ok (s1\<lparr>sk_rcv_nxt := n, sk_rto_deadline := t, sk_retries := 0\<rparr>)" for n t
    using s1(2) by (simp add: tcp_ok_def)
  show ?thesis
    using s1 assms syn_sent est
    by (auto simp: rx_segment_def tcp_ok_die Let_def rx_syn_safe rx_body_safe again retrans uadd_fits split: tcp_state.splits)
qed

lemma retry_safe:
  assumes "tcp_ok s" "tx_ok ctx" "\<not> sk_dead s" "now + RTO_TICKS < USIZE_LIMIT"
    and "\<And>s'. s' = s\<lparr>sk_retries := sk_retries s + 1\<rparr> \<Longrightarrow> \<exists>ctx'. send s' ctx = Some ctx' \<and> tx_step ctx ctx'"
  shows "safe ctx (retry now send s ctx)"
proof -
  have n: "sk_retries s \<le> 8" using assms(1,3) by (simp add: tcp_ok_def)
  show ?thesis
  proof (cases "sk_retries s = 8")
    case True
    then have "tcp_ok (die (s\<lparr>sk_retries := 9\<rparr>))" using assms(1) by (simp add: die_def tcp_ok_def notify_app_def)
    then show ?thesis using True assms(2) by (simp add: retry_def)
  next
    case False
    then have "tcp_ok (s\<lparr>sk_retries := sk_retries s + 1\<rparr>)" using assms(1) n by (simp add: tcp_ok_def)
    then show ?thesis using assms(4) assms(5) [OF refl] False n
      by (auto simp: retry_def uadd_fits safe_def)
  qed
qed

lemma resend_data_step:
  assumes "tcp_ok s" "tx_ok ctx"
  shows "\<exists>ctx'. resend_data s ctx = Some ctx' \<and> tx_step ctx ctx'"
proof -
  have "length (take (sk_inflight s) (sk_out s)) \<le> 1400" using assms(1) by (simp add: tcp_ok_def)
  from send_step(5) [OF assms(2) _ _ this, of "sk_peer_mac s" "sk_peer_ip s" s "sk_data_base s"] show ?thesis
    using assms(1) by (simp add: resend_data_def tcp_ok_def usub_def subslice_def)
qed

lemma send_fresh_safe:
  assumes "tcp_ok s" "tx_ok ctx" "sk_inflight s = 0" "now + RTO_TICKS < USIZE_LIMIT"
  shows "safe ctx (send_fresh now s ctx)"
proof -
  let ?chunk = "min (min (sk_out_len s - sk_sent s) TCP_MSS) (unat (sk_peer_wnd s))"
  have "sk_sent s \<le> sk_out_len s" "sk_out_len s \<le> TX_BUF" using assms(1) by (simp_all add: tcp_ok_def)
  then have fits: "sk_sent s + ?chunk \<le> TX_BUF" by linarith
  have sl: "subslice (sk_sent s) (sk_sent s + ?chunk) (sk_out s) = Some (take ?chunk (drop (sk_sent s) (sk_out s)))"
    using assms(1) fits by (simp add: tcp_ok_def subslice_def)
  have len: "length (take ?chunk (drop (sk_sent s) (sk_out s))) \<le> 1400" using assms(1) by (simp add: tcp_ok_def)
  have mac: "length (sk_peer_mac s) = 6" "length (sk_peer_ip s) = 4" using assms(1) by (simp_all add: tcp_ok_def)
  have "tcp_ok (s\<lparr>sk_sent := sk_sent s + ?chunk, sk_inflight := ?chunk, sk_retries := 0, sk_rto_deadline := now + RTO_TICKS\<rparr>)"
    using assms(1,3) by (simp add: tcp_ok_def)
  then show ?thesis
    using send_step(5) [OF assms(2) mac len, of s "sk_data_base s + of_nat (sk_sent s)"] assms(1,2,4) sl
    by (auto simp: send_fresh_def Let_def uadd_fits safe_def)
qed

lemma tcp_poll_safe:
  assumes "tcp_ok s" "tx_ok ctx" "now + RTO_TICKS < USIZE_LIMIT"
  shows "safe ctx (tcp_poll now s ctx)"
proof -
  have mac: "length (sk_peer_mac s) = 6" "length (sk_peer_ip s) = 4" using assms(1) by (simp_all add: tcp_ok_def)
  have syn: "safe ctx (retry now (\<lambda>s'. if sk_state s' = SynSent then send_syn s' (sk_peer_mac s) (sk_peer_ip s)
        else send_syn_ack s' (sk_peer_mac s) (sk_peer_ip s)) s ctx)" if "\<not> sk_dead s"
    by (rule retry_safe [OF assms(1,2) that assms(3)]) (simp add: send_step [OF assms(2) mac])
  have data: "safe ctx (retry now resend_data s ctx)" if "\<not> sk_dead s"
    by (rule retry_safe [OF assms(1,2) that assms(3)])
      (use resend_data_step [OF _ assms(2)] assms(1) resend_data_step [OF assms(1,2)] in
        \<open>auto simp: resend_data_def send_data_seg_def push_tcp_def\<close>)
  have fin: "safe ctx (retry now (\<lambda>s'. send_fin s' (sk_peer_mac s) (sk_peer_ip s) (sk_fin_seq s')) s ctx)" if "\<not> sk_dead s"
    by (rule retry_safe [OF assms(1,2) that assms(3)]) (simp add: send_step [OF assms(2) mac])
  have first: "safe ctx (do { ctx \<leftarrow> send_fin s (sk_peer_mac s) (sk_peer_ip s) (sk_snd_nxt s) ctx;
      Some (s\<lparr>sk_fin_sent := True, sk_fin_seq := sk_snd_nxt s, sk_retries := 0, sk_rto_deadline := now + RTO_TICKS\<rparr>, ctx) })"
    by (rule safe_then_send) (use assms(1) send_step(4) [OF assms(2) mac] in \<open>auto simp: tcp_ok_def\<close>)
  show ?thesis
    using assms syn data fin first
    by (simp add: tcp_poll_def Let_def send_fresh_safe uadd_fits)
qed

section \<open>Acknowledgements out of order\<close>

text \<open>
  C36.  An acknowledgement older than the unacknowledged data is taken for an acknowledgement of all of it: the
  distance to the base is computed modulo 2 to the 32, so a delayed duplicate that acknowledges up to k bytes
  before the base drops every byte in flight from the queue, never to be retransmitted.\<close>

theorem stale_ack_discards:
  assumes "tcp_ok s" "0 < sk_sent s" "0 < k" "k + sk_sent s \<le> 2 ^ 32"
  shows "\<exists>s'. rx_ack (sk_data_base s - of_nat k) s = Some s' \<and> sk_sent s' = 0 \<and> sk_inflight s' = 0 \<and>
    sk_out_len s' = sk_out_len s - sk_sent s \<and>
    take (sk_out_len s') (sk_out s') = drop (sk_sent s) (take (sk_out_len s) (sk_out s))"
proof -
  have k: "k < 2 ^ 32" using assms(2,4) by linarith
  have "sk_data_base s - of_nat k - sk_data_base s = of_nat (2 ^ 32 - k)"
    using k by (simp add: of_nat_diff)
  then have "unat (sk_data_base s - of_nat k - sk_data_base s) = 2 ^ 32 - k"
    using assms(3) by (simp add: unat_of_nat take_bit_eq_mod)
  then have adv: "min (unat (sk_data_base s - of_nat k - sk_data_base s)) (sk_sent s) = sk_sent s"
    using assms(4) by linarith
  have le: "sk_sent s \<le> sk_out_len s" "sk_out_len s \<le> length (sk_out s)" "sk_inflight s = sk_sent s"
    using assms(1) by (simp_all add: tcp_ok_def)
  obtain out' where out': "copy_down (sk_sent s) (sk_out_len s) (sk_out s) = Some out'"
    "take (sk_out_len s - sk_sent s) out' = take (sk_out_len s - sk_sent s) (drop (sk_sent s) (sk_out s))"
    using copy_down_ok [OF le(1,2)] by blast
  obtain s' where s': "ack_data (sk_data_base s - of_nat k) s = Some s'" "sk_sent s' = 0" "sk_inflight s' = 0"
    "sk_out_len s' = sk_out_len s - sk_sent s" "sk_out s' = out'"
    using assms(2) le out'(1) unfolding ack_data_def Let_def adv usub_def by simp
  have keep: "sk_sent (ack_fin a (ack_syn a s')) = sk_sent s'" "sk_inflight (ack_fin a (ack_syn a s')) = sk_inflight s'"
    "sk_out_len (ack_fin a (ack_syn a s')) = sk_out_len s'" "sk_out (ack_fin a (ack_syn a s')) = sk_out s'" for a
    by (simp_all add: ack_fin_def ack_syn_def Let_def die_def notify_app_def)
  show ?thesis using s' out'(2) by (simp add: rx_ack_def keep drop_take)
qed

definition demo_socket :: tcp_socket where
  "demo_socket = (blank 7777)\<lparr>sk_state := Established, sk_peer_mac := [2,0,0,0,0,2], sk_peer_ip := [10,0,2,2],
     sk_data_base := 1000, sk_snd_nxt := 1005, sk_syn_acked := True, sk_sent := 5, sk_inflight := 5, sk_out_len := 5,
     sk_rto_deadline := 800\<rparr>"

lemma demo_socket_ok: "tcp_ok demo_socket"
  by (simp add: demo_socket_def blank_def tcp_ok_def)

theorem stale_ack_discards_witness:
  "\<exists>s'. rx_ack 999 demo_socket = Some s' \<and> sk_out_len s' = 0"
  using stale_ack_discards [OF demo_socket_ok, of 1] by (auto simp: demo_socket_def)

section \<open>Retransmission ends\<close>

fun spaced :: "nat \<Rightarrow> nat list \<Rightarrow> bool" where
  "spaced d [] = True"
| "spaced d (t # ts) = (d \<le> t \<and> spaced (t + RTO_TICKS) ts)"

definition poll_at :: "nat list \<Rightarrow> tcp_socket \<times> tx_ctx \<Rightarrow> (tcp_socket \<times> tx_ctx) option" where
  "poll_at = foldm (\<lambda>now (s, ctx). tcp_poll now s ctx)"

text \<open>One expired poll of a socket with data in flight.\<close>

lemma poll_expired:
  assumes "tcp_ok s" "tx_ok ctx" "\<not> sk_dead s" "0 < sk_inflight s" "sk_syn_acked s"
    and "sk_peer_mac s \<noteq> replicate 6 0" "sk_rto_deadline s \<le> t" "t + RTO_TICKS < USIZE_LIMIT"
  shows "if sk_retries s = MAX_RETRIES
    then tcp_poll t s ctx = Some (die (s\<lparr>sk_retries := MAX_RETRIES + 1\<rparr>), ctx)
    else \<exists>ctx'. tcp_poll t s ctx = Some (s\<lparr>sk_retries := sk_retries s + 1, sk_rto_deadline := t + RTO_TICKS\<rparr>, ctx') \<and> tx_ok ctx'"
proof -
  have n: "sk_retries s \<le> 8" using assms(1,3) by (simp add: tcp_ok_def)
  have run: "tcp_poll t s ctx = retry t resend_data s ctx"
    using assms(3-7) by (simp add: tcp_poll_def)
  show ?thesis
  proof (cases "sk_retries s = MAX_RETRIES")
    case True
    then show ?thesis by (simp add: run retry_def)
  next
    case False
    then have "tcp_ok (s\<lparr>sk_retries := sk_retries s + 1\<rparr>)" using assms(1) n by (simp add: tcp_ok_def)
    then show ?thesis using False n resend_data_step [OF _ assms(2)] assms(8)
      by (force simp: run retry_def uadd_fits tx_step_def)
  qed
qed


definition demo_ctx :: tx_ctx where
  "demo_ctx = \<lparr>tx_mac = [2,0,0,0,0,1], tx_ip = [10,0,2,15], tx_ip_id = 0, tx_q = outq_new\<rparr>"

lemma demo_ctx_ok: "tx_ok demo_ctx"
  by (simp add: demo_ctx_def tx_ok_def outq_ok_def outq_new_def)


end
