(* ===== verification/Net_Stack.thy ===== *)
theory Net_Stack
  imports Net_Tcp
begin

text \<open>
  The network stack, \<^verbatim>\<open>servers/libtanix-net/src/lib.rs\<close>: the address cache, ARP, ICMP echo, the tables of UDP
  endpoints and TCP sockets with the calls of the server, and the handling of a received frame.

  \<open>None\<close> is a panic: a slice whose bounds the code does not check.  The result of a call carries the new
  stack and the new outbound queue.
\<close>

abbreviation MAX_TCP :: nat where "MAX_TCP \<equiv> 4"
abbreviation MAX_UDP :: nat where "MAX_UDP \<equiv> 4"
abbreviation ARP_CACHE_MAX :: nat where "ARP_CACHE_MAX \<equiv> 8"
abbreviation ICMP_ECHO_PAYLOAD :: nat where "ICMP_ECHO_PAYLOAD \<equiv> 16"

record net_stack =
  ns_mac :: "u8 list"
  ns_my_ip :: "u8 list"
  ns_gw_ip :: "u8 list"
  ns_gw_mac :: "u8 list option"
  ns_ip_id :: u16
  ns_tcp :: "tcp_socket option list"
  ns_udp :: "udp_ep option list"
  ns_cache :: "(u8 list \<times> u8 list) list"
  ns_cache_n :: nat
  ns_ephemeral :: u16
  ns_ping_id :: u16
  ns_ping_seq :: u16
  ns_pong_id :: u16
  ns_pong_seq :: u16

definition stack_new :: "u8 list \<Rightarrow> u8 list \<Rightarrow> net_stack" where
  "stack_new my_ip gw_ip = \<lparr>ns_mac = replicate 6 0, ns_my_ip = my_ip, ns_gw_ip = gw_ip, ns_gw_mac = None,
     ns_ip_id = 0x1234, ns_tcp = replicate MAX_TCP None, ns_udp = replicate MAX_UDP None,
     ns_cache = replicate ARP_CACHE_MAX (replicate 4 0, replicate 6 0), ns_cache_n = 0, ns_ephemeral = 49152,
     ns_ping_id = 0x1234, ns_ping_seq = 0, ns_pong_id = 0, ns_pong_seq = 0\<rparr>"

definition set_mac :: "u8 list \<Rightarrow> net_stack \<Rightarrow> net_stack" where
  "set_mac mac ns = ns\<lparr>ns_mac := mac\<rparr>"

definition gw_resolved :: "net_stack \<Rightarrow> bool" where
  "gw_resolved ns \<longleftrightarrow> ns_gw_mac ns \<noteq> None"

section \<open>The address cache\<close>

definition cache_add :: "u8 list \<Rightarrow> u8 list \<Rightarrow> net_stack \<Rightarrow> net_stack" where
  "cache_add ip mac ns =
     (if mac = replicate 6 0 then ns
      else case find_idx (\<lambda>e. fst e = ip) (ns_cache ns) of
        Some i \<Rightarrow> ns\<lparr>ns_cache := (ns_cache ns)[i := (ip, mac)]\<rparr>
      | None \<Rightarrow>
          if ns_cache_n ns < ARP_CACHE_MAX
          then ns\<lparr>ns_cache := (ns_cache ns)[ns_cache_n ns := (ip, mac)], ns_cache_n := ns_cache_n ns + 1\<rparr>
          else ns\<lparr>ns_cache := (ns_cache ns)[0 := (ip, mac)]\<rparr>)"

definition cache_get :: "u8 list \<Rightarrow> net_stack \<Rightarrow> u8 list option" where
  "cache_get ip ns =
     (if ip = ns_gw_ip ns then ns_gw_mac ns
      else map_option snd (find (\<lambda>e. fst e = ip) (take (ns_cache_n ns) (ns_cache ns))))"

definition dst_mac_for :: "u8 list \<Rightarrow> net_stack \<Rightarrow> u8 list option" where
  "dst_mac_for ip ns = cache_get ip ns"

section \<open>ARP\<close>

definition fill_arp :: "u8 list \<Rightarrow> u16 \<Rightarrow> u8 list \<Rightarrow> u8 list \<Rightarrow> u8 list \<Rightarrow> u8 list \<Rightarrow> u8 list \<Rightarrow> u8 list option" where
  "fill_arp dst op mac my_ip target_mac target_ip b =
     do { b \<leftarrow> copy_at 0 dst b;
          b \<leftarrow> copy_at 6 mac b;
          b \<leftarrow> put_u16 12 ETHERTYPE_ARP b;
          b \<leftarrow> put_u16 14 1 b;
          b \<leftarrow> put_u16 16 0x0800 b;
          b \<leftarrow> copy_at 18 [6, 4] b;
          b \<leftarrow> put_u16 20 op b;
          b \<leftarrow> copy_at 22 mac b;
          b \<leftarrow> copy_at 28 my_ip b;
          b \<leftarrow> copy_at 32 target_mac b;
          copy_at 38 target_ip b }"

definition arp_probe :: "net_stack \<Rightarrow> out_queue \<Rightarrow> (bool \<times> out_queue) option" where
  "arp_probe ns q =
     build_frame 42 (fill_arp (replicate 6 0xFF) 1 (ns_mac ns) (ns_my_ip ns) (replicate 6 0) (ns_gw_ip ns)) q"

definition arp_reply :: "u8 list \<Rightarrow> u8 list \<Rightarrow> u8 list \<Rightarrow> net_stack \<Rightarrow> out_queue \<Rightarrow> (bool \<times> out_queue) option" where
  "arp_reply dst_mac target_mac target_ip ns q =
     build_frame 42 (fill_arp dst_mac 2 (ns_mac ns) (ns_my_ip ns) target_mac target_ip) q"

definition handle_arp :: "u8 list \<Rightarrow> net_stack \<Rightarrow> out_queue \<Rightarrow> (net_stack \<times> out_queue) option" where
  "handle_arp frame ns q =
     (case parse_eth frame of
        None \<Rightarrow> Some (ns, q)
      | Some (_, src_mac, _) \<Rightarrow>
          if length frame < 14 + 28 then Some (ns, q)
          else do {
            hw \<leftarrow> get_u16 14 frame; pt \<leftarrow> get_u16 16 frame;
            if hw \<noteq> 1 \<or> pt \<noteq> 0x0800 \<or> frame ! 18 \<noteq> 6 \<or> frame ! 19 \<noteq> 4 then Some (ns, q)
            else do {
              sender_mac \<leftarrow> subslice 22 28 frame;
              sender_ip \<leftarrow> subslice 28 32 frame;
              target_ip \<leftarrow> subslice 38 42 frame;
              let ns = cache_add sender_ip sender_mac ns;
              op \<leftarrow> get_u16 20 frame;
              if op = 1 \<and> target_ip = ns_my_ip ns then
                do { (_, q) \<leftarrow> arp_reply src_mac sender_mac sender_ip ns q; Some (ns, q) }
              else if op = 2 \<and> sender_ip = ns_gw_ip ns then Some (ns\<lparr>ns_gw_mac := Some sender_mac\<rparr>, q)
              else Some (ns, q) } })"

section \<open>ICMP\<close>

text \<open>
  The fields an ICMP builder writes; the type of service, the fragment field, the two checksum fields and,
  in a request, the code are not among them.
\<close>

definition fill_icmp ::
  "u8 list \<Rightarrow> u8 list \<Rightarrow> u8 list \<Rightarrow> u8 list \<Rightarrow> u16 \<Rightarrow> u8 list \<Rightarrow> u8 list \<Rightarrow> u8 list \<Rightarrow> u8 list \<Rightarrow> u8 list option" where
  "fill_icmp dst_mac mac my_ip dst_ip ident kind idseq payload b =
     (let ftotal = 14 + 20 + 8 + length payload in
      do { b \<leftarrow> copy_at 0 dst_mac b;
           b \<leftarrow> copy_at 6 mac b;
           b \<leftarrow> put_u16 12 ETHERTYPE_IPV4 b;
           b \<leftarrow> copy_at 14 [0x45] b;
           len \<leftarrow> len_minus ftotal 14;
           b \<leftarrow> put_u16 16 len b;
           b \<leftarrow> put_u16 18 ident b;
           b \<leftarrow> copy_at 22 [64, IPPROTO_ICMP] b;
           b \<leftarrow> copy_at 26 my_ip b;
           b \<leftarrow> copy_at 30 dst_ip b;
           b \<leftarrow> copy_at 34 kind b;
           b \<leftarrow> copy_at 38 idseq b;
           b \<leftarrow> copy_at 42 payload b;
           seg \<leftarrow> subslice 34 (34 + (8 + length payload)) b;
           s \<leftarrow> checksum seg;
           b \<leftarrow> put_u16 36 s b;
           hdr \<leftarrow> subslice 14 34 b;
           ip_sum \<leftarrow> checksum hdr;
           put_u16 24 ip_sum b })"

definition icmp_echo_send :: "u8 list \<Rightarrow> net_stack \<Rightarrow> out_queue \<Rightarrow> (bool \<times> net_stack \<times> out_queue) option" where
  "icmp_echo_send dst_ip ns q =
     (case dst_mac_for dst_ip ns of
        None \<Rightarrow> Some (False, ns, q)
      | Some dst_mac \<Rightarrow>
          do { (ok, q) \<leftarrow> build_frame (14 + 20 + 8 + ICMP_ECHO_PAYLOAD)
                 (fill_icmp dst_mac (ns_mac ns) (ns_my_ip ns) dst_ip (ns_ip_id ns) [8]
                   (be16 (ns_ping_id ns) @ be16 (ns_ping_seq ns))
                   (map (\<lambda>i. 97 + of_nat (i mod 26)) [0..<ICMP_ECHO_PAYLOAD])) q;
               Some (ok, if ok then ns\<lparr>ns_ip_id := ns_ip_id ns + 1, ns_ping_seq := ns_ping_seq ns + 1\<rparr> else ns, q) })"

definition icmp_reply :: "u8 list \<Rightarrow> u8 list \<Rightarrow> u8 list \<Rightarrow> net_stack \<Rightarrow> out_queue \<Rightarrow> (net_stack \<times> out_queue) option" where
  "icmp_reply peer_mac peer_ip icmp ns q =
     (if length icmp < 8 then Some (ns, q)
      else let payload_len = min (length icmp - 8) 64 in
        do { idseq \<leftarrow> subslice 4 8 icmp;
             payload \<leftarrow> subslice 8 (8 + payload_len) icmp;
             (ok, q) \<leftarrow> build_frame (14 + 20 + 8 + payload_len)
               (fill_icmp peer_mac (ns_mac ns) (ns_my_ip ns) peer_ip (ns_ip_id ns) [0, 0] idseq payload) q;
             Some (if ok then ns\<lparr>ns_ip_id := ns_ip_id ns + 1\<rparr> else ns, q) })"

section \<open>UDP sockets\<close>

text \<open>The transmission context the stack lends to a socket, and what it takes back.\<close>

definition lend :: "net_stack \<Rightarrow> out_queue \<Rightarrow> tx_ctx" where
  "lend ns q = \<lparr>tx_mac = ns_mac ns, tx_ip = ns_my_ip ns, tx_ip_id = ns_ip_id ns, tx_q = q\<rparr>"

definition settle :: "net_stack \<Rightarrow> tx_ctx \<Rightarrow> net_stack \<times> out_queue" where
  "settle ns ctx = (ns\<lparr>ns_ip_id := tx_ip_id ctx\<rparr>, tx_q ctx)"

definition udp_bind :: "u16 \<Rightarrow> net_stack \<Rightarrow> nat option \<times> net_stack" where
  "udp_bind port ns =
     (if list_ex (\<lambda>s. case s of None \<Rightarrow> False | Some e \<Rightarrow> ep_port e = port) (ns_udp ns) then (None, ns)
      else case find_idx (\<lambda>s. s = None) (ns_udp ns) of
        None \<Rightarrow> (None, ns)
      | Some i \<Rightarrow> (Some i, ns\<lparr>ns_udp := (ns_udp ns)[i := Some (udp_ep_bind port)]\<rparr>))"

definition udp_open :: "net_stack \<Rightarrow> nat option \<times> net_stack" where
  "udp_open ns = udp_bind (ns_ephemeral ns) (ns\<lparr>ns_ephemeral := ns_ephemeral ns + 1\<rparr>)"

definition slot_at :: "nat \<Rightarrow> 'a option list \<Rightarrow> 'a option" where
  "slot_at i xs = (if i < length xs then xs ! i else None)"

definition udp_send :: "nat \<Rightarrow> u8 list \<Rightarrow> u16 \<Rightarrow> u8 list \<Rightarrow> net_stack \<Rightarrow> out_queue \<Rightarrow> (bool \<times> net_stack \<times> out_queue) option" where
  "udp_send idx dst_ip dst_port payload ns q =
     (case slot_at idx (ns_udp ns) of
        None \<Rightarrow> Some (False, ns, q)
      | Some e \<Rightarrow>
          (case dst_mac_for dst_ip ns of
             None \<Rightarrow> Some (False, ns, q)
           | Some dst_mac \<Rightarrow>
               do { (ok, ctx) \<leftarrow> push_udp_frame dst_mac dst_ip (ep_port e) dst_port payload (lend ns q);
                    Some (ok, settle ns ctx) }))"

definition udp_rx_info :: "nat \<Rightarrow> net_stack \<Rightarrow> (u8 list \<times> u16 \<times> u16) option" where
  "udp_rx_info idx ns = Option.bind (slot_at idx (ns_udp ns)) rx_info"

definition udp_unread :: "nat \<Rightarrow> nat \<Rightarrow> net_stack \<Rightarrow> u8 list \<times> net_stack" where
  "udp_unread idx cap ns =
     (case slot_at idx (ns_udp ns) of
        None \<Rightarrow> ([], ns)
      | Some e \<Rightarrow> (let (data, e) = unread cap e in (data, ns\<lparr>ns_udp := (ns_udp ns)[idx := Some e]\<rparr>)))"

section \<open>TCP sockets\<close>

definition tcp_listen :: "u16 \<Rightarrow> net_stack \<Rightarrow> nat option \<times> net_stack" where
  "tcp_listen port ns =
     (if list_ex (\<lambda>s. case s of None \<Rightarrow> False | Some s \<Rightarrow> sk_local_port s = port \<and> sk_state s \<noteq> Listen) (ns_tcp ns)
      then (None, ns)
      else case find_idx (\<lambda>s. s = None) (ns_tcp ns) of
        None \<Rightarrow> (None, ns)
      | Some i \<Rightarrow> (Some i, ns\<lparr>ns_tcp := (ns_tcp ns)[i := Some (listen port)]\<rparr>))"

definition tcp_connect :: "u8 list \<Rightarrow> u16 \<Rightarrow> nat \<Rightarrow> net_stack \<Rightarrow> out_queue \<Rightarrow> (nat option \<times> net_stack \<times> out_queue) option" where
  "tcp_connect dst_ip dst_port now ns q =
     (case dst_mac_for dst_ip ns of
        None \<Rightarrow> Some (None, ns, q)
      | Some dst_mac \<Rightarrow>
          (case find_idx (\<lambda>s. s = None) (ns_tcp ns) of
             None \<Rightarrow> Some (None, ns, q)
           | Some i \<Rightarrow>
               do { let port = ns_ephemeral ns;
                    let ns = ns\<lparr>ns_ephemeral := ns_ephemeral ns + 1\<rparr>;
                    sock \<leftarrow> connect dst_ip dst_port port now;
                    let sock = sock\<lparr>sk_peer_mac := dst_mac\<rparr>;
                    ctx \<leftarrow> send_syn sock dst_mac dst_ip (lend ns q);
                    Some (Some i, settle (ns\<lparr>ns_tcp := (ns_tcp ns)[i := Some sock]\<rparr>) ctx) }))"

definition tcp_write :: "nat \<Rightarrow> u8 list \<Rightarrow> net_stack \<Rightarrow> (bool \<times> net_stack) option" where
  "tcp_write idx data ns =
     (case slot_at idx (ns_tcp ns) of
        None \<Rightarrow> Some (False, ns)
      | Some s \<Rightarrow> do { (ok, s) \<leftarrow> app_write data s; Some (ok, ns\<lparr>ns_tcp := (ns_tcp ns)[idx := Some s]\<rparr>) })"

definition tcp_read :: "nat \<Rightarrow> nat \<Rightarrow> net_stack \<Rightarrow> (u8 list \<times> net_stack) option" where
  "tcp_read idx cap ns =
     (case slot_at idx (ns_tcp ns) of
        None \<Rightarrow> Some ([], ns)
      | Some s \<Rightarrow> do { (data, s) \<leftarrow> app_read cap s; Some (data, ns\<lparr>ns_tcp := (ns_tcp ns)[idx := Some s]\<rparr>) })"

definition tcp_rx_pending :: "nat \<Rightarrow> net_stack \<Rightarrow> nat" where
  "tcp_rx_pending idx ns = (case slot_at idx (ns_tcp ns) of None \<Rightarrow> 0 | Some s \<Rightarrow> sk_rx_len s)"

definition tcp_close :: "nat \<Rightarrow> net_stack \<Rightarrow> net_stack" where
  "tcp_close idx ns =
     (case slot_at idx (ns_tcp ns) of
        None \<Rightarrow> ns | Some s \<Rightarrow> ns\<lparr>ns_tcp := (ns_tcp ns)[idx := Some (app_close s)]\<rparr>)"

definition tcp_take_event :: "nat \<Rightarrow> net_stack \<Rightarrow> tcp_notify \<times> net_stack" where
  "tcp_take_event idx ns =
     (case slot_at idx (ns_tcp ns) of
        None \<Rightarrow> (NoEvent, ns)
      | Some s \<Rightarrow> (let (ev, s) = take_notify s in (ev, ns\<lparr>ns_tcp := (ns_tcp ns)[idx := Some s]\<rparr>)))"

definition tcp_is_established :: "nat \<Rightarrow> net_stack \<Rightarrow> bool" where
  "tcp_is_established idx ns = (case slot_at idx (ns_tcp ns) of None \<Rightarrow> False | Some s \<Rightarrow> is_established s)"

definition tcp_peer :: "nat \<Rightarrow> net_stack \<Rightarrow> u8 list \<times> u16" where
  "tcp_peer idx ns =
     (case slot_at idx (ns_tcp ns) of None \<Rightarrow> (replicate 4 0, 0) | Some s \<Rightarrow> (sk_peer_ip s, sk_peer_port s))"

definition tcp_done :: "nat \<Rightarrow> net_stack \<Rightarrow> bool" where
  "tcp_done idx ns = (case slot_at idx (ns_tcp ns) of None \<Rightarrow> False | Some s \<Rightarrow> sk_dead s)"

definition tcp_free :: "nat \<Rightarrow> net_stack \<Rightarrow> net_stack" where
  "tcp_free idx ns = ns\<lparr>ns_tcp := (ns_tcp ns)[idx := None]\<rparr>"

definition tcp_find :: "u16 \<Rightarrow> u8 list \<Rightarrow> u16 \<Rightarrow> net_stack \<Rightarrow> nat option" where
  "tcp_find dport src_ip sport ns =
     find_idx (\<lambda>s. case s of None \<Rightarrow> False
        | Some s \<Rightarrow> sk_local_port s = dport \<and> \<not> sk_dead s \<and>
                    (sk_state s = Listen \<or> sk_peer_ip s = src_ip \<and> sk_peer_port s = sport)) (ns_tcp ns)"

section \<open>Frame ingress\<close>

definition handle_icmp :: "u8 list \<Rightarrow> u8 list \<Rightarrow> u8 list \<Rightarrow> net_stack \<Rightarrow> out_queue \<Rightarrow> (net_stack \<times> out_queue) option" where
  "handle_icmp seg src_mac src_ip ns q =
     (if length seg < 8 then Some (ns, q)
      else if seg ! 0 = 0 then
        do { ident \<leftarrow> get_u16 4 seg; sq \<leftarrow> get_u16 6 seg; Some (ns\<lparr>ns_pong_id := ident, ns_pong_seq := sq\<rparr>, q) }
      else if seg ! 0 = 8 then icmp_reply src_mac src_ip seg ns q
      else Some (ns, q))"

definition handle_udp :: "u8 list \<Rightarrow> u8 list \<Rightarrow> net_stack \<Rightarrow> net_stack option" where
  "handle_udp seg src_ip ns =
     (if length seg < 8 then Some ns
      else do { sport \<leftarrow> get_u16 0 seg;
                dport \<leftarrow> get_u16 2 seg;
                ulen \<leftarrow> get_u16 4 seg;
                data \<leftarrow> subslice 8 (min (unat ulen) (length seg)) seg;
                Some (ns\<lparr>ns_udp := map (map_option (\<lambda>e. if ep_port e = dport then deliver_udp src_ip sport data e else e)) (ns_udp ns)\<rparr>) })"

text \<open>The header fields of a segment; \<open>None\<close> when the segment is ignored.\<close>

record tcp_hdr =
  th_sport :: u16
  th_dport :: u16
  th_flags :: u8
  th_seg :: tcp_seg

definition parse_tcp :: "u8 list \<Rightarrow> u8 list \<Rightarrow> u8 list \<Rightarrow> tcp_hdr option" where
  "parse_tcp seg src_ip src_mac =
     (if length seg < 20 then None
      else do {
        sport \<leftarrow> get_u16 0 seg; dport \<leftarrow> get_u16 2 seg; sq \<leftarrow> get_u32 4 seg; ack \<leftarrow> get_u32 8 seg;
        window \<leftarrow> get_u16 14 seg;
        let off = unat (drop_bit 4 (seg ! 12)) * 4;
        let flags = seg ! 13;
        if off < 20 \<or> off > length seg then None
        else Some \<lparr>th_sport = sport, th_dport = dport, th_flags = flags,
               th_seg = \<lparr>sg_seq = sq, sg_ack = ack, sg_syn = (flags AND FLAG_SYN \<noteq> 0),
                 sg_ack_flag = (flags AND FLAG_ACK \<noteq> 0), sg_fin = (flags AND FLAG_FIN \<noteq> 0),
                 sg_rst = (flags AND FLAG_RST \<noteq> 0), sg_window = window, sg_payload = drop off seg,
                 sg_peer_ip = src_ip, sg_peer_port = sport, sg_peer_mac = src_mac\<rparr>\<rparr> })"

definition handle_tcp :: "u8 list \<Rightarrow> u8 list \<Rightarrow> u8 list \<Rightarrow> nat \<Rightarrow> net_stack \<Rightarrow> out_queue \<Rightarrow> (net_stack \<times> out_queue) option" where
  "handle_tcp seg src_ip src_mac now ns q =
     (case parse_tcp seg src_ip src_mac of
        None \<Rightarrow> Some (ns, q)
      | Some h \<Rightarrow>
          (case tcp_find (th_dport h) src_ip (th_sport h) ns of
             None \<Rightarrow>
               if th_flags h AND FLAG_SYN \<noteq> 0 then
                 do { (_, ctx) \<leftarrow> push_tcp_frame src_mac src_ip (th_dport h) (th_sport h) 0
                        (sg_seq (th_seg h) + of_nat (1 + length (sg_payload (th_seg h)))) (FLAG_RST OR FLAG_ACK) 0 [] (lend ns q);
                      Some (settle ns ctx) }
               else Some (ns, q)
           | Some idx \<Rightarrow>
               (case ns_tcp ns ! idx of
                  None \<Rightarrow> Some (ns, q)
                | Some s \<Rightarrow>
                    do { (s, ctx) \<leftarrow> rx_segment (th_seg h) now s (lend ns q);
                         Some (settle (ns\<lparr>ns_tcp := (ns_tcp ns)[idx := Some s]\<rparr>) ctx) })))"

definition handle_ip4 :: "u8 list \<Rightarrow> u8 list \<Rightarrow> nat \<Rightarrow> net_stack \<Rightarrow> out_queue \<Rightarrow> (net_stack \<times> out_queue) option" where
  "handle_ip4 frame src_mac now ns q =
     (case parse_ip4 frame of
        None \<Rightarrow> Some (ns, q)
      | Some hdr \<Rightarrow>
          if ip_dst hdr \<noteq> ns_my_ip ns then Some (ns, q)
          else let ns = cache_add (ip_src hdr) src_mac ns in
            do { payload \<leftarrow> subslice (transport hdr) (min (length frame) (14 + total_len hdr)) frame;
                 if ip_proto hdr = IPPROTO_ICMP then handle_icmp payload src_mac (ip_src hdr) ns q
                 else if ip_proto hdr = IPPROTO_UDP then do { ns \<leftarrow> handle_udp payload (ip_src hdr) ns; Some (ns, q) }
                 else if ip_proto hdr = IPPROTO_TCP then handle_tcp payload (ip_src hdr) src_mac now ns q
                 else Some (ns, q) })"

definition on_frame :: "u8 list \<Rightarrow> nat \<Rightarrow> net_stack \<Rightarrow> out_queue \<Rightarrow> (net_stack \<times> out_queue) option" where
  "on_frame frame now ns q =
     (case parse_eth frame of
        None \<Rightarrow> Some (ns, q)
      | Some (dst, src_mac, etype) \<Rightarrow>
          if dst \<noteq> ns_mac ns \<and> dst \<noteq> replicate 6 0xFF then Some (ns, q)
          else if etype = ETHERTYPE_ARP then handle_arp frame ns q
          else if etype = ETHERTYPE_IPV4 then handle_ip4 frame src_mac now ns q
          else Some (ns, q))"

section \<open>Polling\<close>

definition poll_slot :: "nat \<Rightarrow> nat \<Rightarrow> net_stack \<times> out_queue \<Rightarrow> (net_stack \<times> out_queue) option" where
  "poll_slot now i = (\<lambda>(ns, q).
     case ns_tcp ns ! i of
       None \<Rightarrow> Some (ns, q)
     | Some s \<Rightarrow>
         do { (s, ctx) \<leftarrow> tcp_poll now s (lend ns q);
              Some (settle (ns\<lparr>ns_tcp := (ns_tcp ns)[i := Some s]\<rparr>) ctx) })"

definition stack_poll :: "nat \<Rightarrow> net_stack \<Rightarrow> out_queue \<Rightarrow> (net_stack \<times> out_queue) option" where
  "stack_poll now ns q = foldm (poll_slot now) [0..<MAX_TCP] (ns, q)"

section \<open>The stack invariant\<close>

definition ep_ok :: "udp_ep \<Rightarrow> bool" where
  "ep_ok e \<longleftrightarrow> length (ep_rx e) = UDP_BUF \<and> ep_rx_len e \<le> UDP_BUF \<and> length (ep_peer_ip e) = 4"

definition stack_ok :: "net_stack \<Rightarrow> bool" where
  "stack_ok ns \<longleftrightarrow> length (ns_mac ns) = 6 \<and> length (ns_my_ip ns) = 4 \<and> length (ns_gw_ip ns) = 4 \<and>
     (\<forall>m. ns_gw_mac ns = Some m \<longrightarrow> length m = 6) \<and>
     length (ns_tcp ns) = MAX_TCP \<and> (\<forall>s. Some s \<in> set (ns_tcp ns) \<longrightarrow> tcp_ok s) \<and>
     length (ns_udp ns) = MAX_UDP \<and> (\<forall>e. Some e \<in> set (ns_udp ns) \<longrightarrow> ep_ok e) \<and>
     length (ns_cache ns) = ARP_CACHE_MAX \<and> (\<forall>e \<in> set (ns_cache ns). length (fst e) = 4 \<and> length (snd e) = 6) \<and>
     ns_cache_n ns \<le> ARP_CACHE_MAX"

lemma stack_ok_new: "length my_ip = 4 \<Longrightarrow> length gw_ip = 4 \<Longrightarrow> stack_ok (stack_new my_ip gw_ip)"
  by (simp add: stack_ok_def stack_new_def)

lemma stack_ok_fields [simp]:
  "stack_ok (ns\<lparr>ns_ip_id := i\<rparr>) = stack_ok ns" "stack_ok (ns\<lparr>ns_ephemeral := i\<rparr>) = stack_ok ns"
  "stack_ok (ns\<lparr>ns_ping_seq := i\<rparr>) = stack_ok ns" "stack_ok (ns\<lparr>ns_pong_id := i\<rparr>) = stack_ok ns"
  "stack_ok (ns\<lparr>ns_pong_seq := i\<rparr>) = stack_ok ns"
  by (simp_all add: stack_ok_def)

lemma set_update_cases: "x \<in> set (xs[i := y]) \<Longrightarrow> x = y \<or> x \<in> set xs"
  using set_update_subset_insert by fastforce

lemma cache_add_ok:
  assumes "stack_ok ns" "length ip = 4" "length mac = 6"
  shows "stack_ok (cache_add ip mac ns)" "ns_mac (cache_add ip mac ns) = ns_mac ns"
    "ns_my_ip (cache_add ip mac ns) = ns_my_ip ns" "ns_gw_ip (cache_add ip mac ns) = ns_gw_ip ns"
    "ns_tcp (cache_add ip mac ns) = ns_tcp ns" "ns_udp (cache_add ip mac ns) = ns_udp ns"
  using assms unfolding cache_add_def stack_ok_def
  by (auto split: option.splits dest!: set_update_cases)

lemma tcp_slot_ok: "stack_ok ns \<Longrightarrow> tcp_ok s \<Longrightarrow> stack_ok (ns\<lparr>ns_tcp := (ns_tcp ns)[i := Some s]\<rparr>)"
  unfolding stack_ok_def by (auto dest!: set_update_cases)

text \<open>A fallible write that keeps the length of the buffer.\<close>

definition fits :: "nat \<Rightarrow> u8 list option \<Rightarrow> bool" where
  "fits n r \<longleftrightarrow> (\<exists>b. r = Some b \<and> length b = n)"

lemma fits_copy: "length b = n \<Longrightarrow> off + length v \<le> n \<Longrightarrow> fits n (copy_at off v b)"
  by (simp add: fits_def copy_at_def)

lemma fits_put: "length b = n \<Longrightarrow> off + 2 \<le> n \<Longrightarrow> fits n (put_u16 off v b)"
  by (simp add: fits_def put_u16_def copy_at_def)

lemma fits_bind: "fits n r \<Longrightarrow> (\<And>b. length b = n \<Longrightarrow> fits n (f b)) \<Longrightarrow> fits n (Option.bind r f)"
  by (auto simp: fits_def)

lemma build_frame_ok:
  assumes "outq_ok q" "\<forall>b. length b = n \<longrightarrow> fits n (fill b)"
  shows "\<exists>ok q'. build_frame n fill q = Some (ok, q') \<and> outq_ok q'"
proof (cases "room n q")
  case True
  obtain fr where "fill (reserved n q) = Some fr" "length fr = n"
    using assms(2) reserved_length [OF assms(1) True] by (auto simp: fits_def)
  then show ?thesis using build_frame_room [OF assms(1) True] by blast
next
  case False
  then show ?thesis using assms(1) by (auto simp: build_frame_full)
qed

lemma fill_arp_fits:
  assumes "length dst = 6" "length mac = 6" "length my_ip = 4" "length tm = 6" "length ti = 4" "length b = 42"
  shows "fits 42 (fill_arp dst op mac my_ip tm ti b)"
  unfolding fill_arp_def
  by (intro fits_bind fits_copy fits_put) (use assms in simp_all)

lemma checksum_total: "length data \<le> 2000 \<Longrightarrow> \<exists>c. checksum data = Some c"
  by (simp add: checksum_def checksum_seed_small)

lemma fill_icmp_fits:
  assumes "length dst_mac = 6" "length mac = 6" "length my_ip = 4" "length dst_ip = 4"
    and "length kind \<le> 2" "length idseq = 4" "length payload \<le> 64" "length b = 42 + length payload"
  shows "fits (42 + length payload) (fill_icmp dst_mac mac my_ip dst_ip ident kind idseq payload b)"
proof -
  have l: "\<exists>v. len_minus (42 + length payload) 14 = Some v"
    using assms(7) by (simp add: len_minus_def unat_of_nat take_bit_eq_mod del: of_nat_add)
  have s: "\<exists>v. subslice i j x = Some v \<and> length v = j - i" if "i \<le> j" "j \<le> 42 + length payload" "length x = 42 + length payload" for i j x
    using that by (auto simp: subslice_def)
  have tail: "fits (42 + length payload) (do { seg \<leftarrow> subslice 34 (34 + (8 + length payload)) x; s \<leftarrow> checksum seg;
      b \<leftarrow> put_u16 36 s x; hdr \<leftarrow> subslice 14 34 b; ip_sum \<leftarrow> checksum hdr; put_u16 24 ip_sum b })"
    if x: "length x = 42 + length payload" for x
  proof -
    obtain seg where seg: "subslice 34 (34 + (8 + length payload)) x = Some seg" "length seg \<le> 2000"
      using s [of 34 "34 + (8 + length payload)" x] x assms(7) by auto
    obtain c where c: "checksum seg = Some c" using checksum_total [OF seg(2)] by blast
    have "fits (42 + length payload) (do { hdr \<leftarrow> subslice 14 34 y; ip_sum \<leftarrow> checksum hdr; put_u16 24 ip_sum y })"
      if y: "length y = 42 + length payload" for y
    proof -
      obtain hdr where hdr: "subslice 14 34 y = Some hdr" "length hdr \<le> 2000" using s [of 14 34 y] y by auto
      obtain c2 where "checksum hdr = Some c2" using checksum_total [OF hdr(2)] by blast
      then show ?thesis using hdr(1) y by (simp add: fits_put)
    qed
    then have "fits (42 + length payload) (do { b \<leftarrow> put_u16 36 c x; hdr \<leftarrow> subslice 14 34 b; ip_sum \<leftarrow> checksum hdr; put_u16 24 ip_sum b })"
      by (intro fits_bind [OF fits_put]) (use x in simp_all)
    then show ?thesis using seg(1) c by simp
  qed
  obtain v where v: "len_minus (42 + length payload) 14 = Some v" using l by blast
  have eq: "14 + 20 + 8 + length payload = 42 + length payload" by simp
  show ?thesis
    unfolding fill_icmp_def Let_def eq v Option.bind.simps
    by (intro fits_bind fits_copy fits_put tail) (use assms in simp_all)
qed

section \<open>Which frames stop the server\<close>

definition stack_safe :: "(net_stack \<times> out_queue) option \<Rightarrow> bool" where
  "stack_safe r \<longleftrightarrow> (\<exists>ns q. r = Some (ns, q) \<and> stack_ok ns \<and> outq_ok q)"

lemma stack_safe_Some [simp]: "stack_safe (Some (ns, q)) \<longleftrightarrow> stack_ok ns \<and> outq_ok q"
  by (simp add: stack_safe_def)

lemma parse_eth_lengths: "parse_eth frame = Some (d, m, e) \<Longrightarrow> length d = 6 \<and> length m = 6"
  by (auto simp: parse_eth_def split: if_splits)

lemma parse_ip4_lengths:
  "parse_ip4 frame = Some hdr \<Longrightarrow> length (ip_src hdr) = 4 \<and> length (ip_dst hdr) = 4 \<and> transport hdr \<le> length frame
     \<and> 14 + total_len hdr \<le> length frame"
  by (auto simp: parse_ip4_def Let_def split: if_splits)

lemma get_u16_Some: "off + 1 < length b \<Longrightarrow> \<exists>v. get_u16 off b = Some v"
  by (simp add: get_u16_def byte_at_def)

lemma get_u32_Some: "off + 3 < length b \<Longrightarrow> \<exists>v. get_u32 off b = Some v"
  by (simp add: get_u32_def get_u16_def byte_at_def)

lemma gw_mac_ok: "stack_ok ns \<Longrightarrow> length m = 6 \<Longrightarrow> stack_ok (ns\<lparr>ns_gw_mac := Some m\<rparr>)"
  by (simp add: stack_ok_def)

lemma handle_arp_safe:
  assumes "stack_ok ns" "outq_ok q"
  shows "stack_safe (handle_arp frame ns q)"
proof (cases "parse_eth frame = None \<or> length frame < 42")
  case True
  then show ?thesis using assms by (auto simp: handle_arp_def split: option.splits)
next
  case False
  then obtain d m e where p: "parse_eth frame = Some (d, m, e)" and l: "42 \<le> length frame" by auto
  have f: "subslice 22 28 frame = Some (take 6 (drop 22 frame))" "subslice 28 32 frame = Some (take 4 (drop 28 frame))"
    "subslice 38 42 frame = Some (take 4 (drop 38 frame))"
    using l by (simp_all add: subslice_def)
  let ?mac = "take 6 (drop 22 frame)" and ?ip = "take 4 (drop 28 frame)"
  let ?ns = "cache_add ?ip ?mac ns"
  have len: "length ?mac = 6" "length ?ip = 4" using l by simp_all
  note c = cache_add_ok [OF assms(1) len(2,1)]
  have own: "length (ns_mac ns) = 6" "length (ns_my_ip ns) = 4" using assms(1) by (simp_all add: stack_ok_def)
  have "length m = 6" using parse_eth_lengths [OF p] by simp
  from fill_arp_fits [OF this own len, of _ 2]
  have "\<forall>b. length b = 42 \<longrightarrow> fits 42 (fill_arp m 2 (ns_mac ns) (ns_my_ip ns) ?mac ?ip b)" by blast
  from build_frame_ok [OF assms(2) this] obtain ok q' where r: "arp_reply m ?mac ?ip ?ns q = Some (ok, q')" "outq_ok q'"
    by (auto simp: arp_reply_def c)
  have gw: "stack_ok (?ns\<lparr>ns_gw_mac := Some ?mac\<rparr>)" by (rule gw_mac_ok [OF c(1) len(1)])
  obtain a b op where g: "get_u16 14 frame = Some a" "get_u16 16 frame = Some b" "get_u16 20 frame = Some op"
    using get_u16_Some [of 14 frame] get_u16_Some [of 16 frame] get_u16_Some [of 20 frame] l by auto
  have nl: "(length frame < 14 + 28) = False" using l by simp
  show ?thesis
    unfolding handle_arp_def p option.case prod.case nl if_False f g Option.bind.simps Let_def r(1)
    using r(2) assms c(1) gw by simp
qed

lemma icmp_reply_safe:
  assumes "stack_ok ns" "outq_ok q" "length mac = 6" "length ip = 4"
  shows "stack_safe (icmp_reply mac ip icmp ns q)"
proof (cases "length icmp < 8")
  case True
  then show ?thesis using assms by (simp add: icmp_reply_def)
next
  case False
  let ?n = "min (length icmp - 8) 64"
  have s: "subslice 4 8 icmp = Some (take 4 (drop 4 icmp))" "subslice 8 (8 + ?n) icmp = Some (take ?n (drop 8 icmp))"
    using False by (auto simp: subslice_def)
  have len: "length (take 4 (drop 4 icmp)) = 4" "length (take ?n (drop 8 icmp)) = ?n" "?n \<le> 64" using False by auto
  have own: "length (ns_mac ns) = 6" "length (ns_my_ip ns) = 4" using assms(1) by (simp_all add: stack_ok_def)
  have "\<exists>ok q'. build_frame (42 + ?n) (fill_icmp mac (ns_mac ns) (ns_my_ip ns) ip (ns_ip_id ns) [0, 0]
      (take 4 (drop 4 icmp)) (take ?n (drop 8 icmp))) q = Some (ok, q') \<and> outq_ok q'"
    using build_frame_ok [OF assms(2), of "42 + ?n"] fill_icmp_fits [OF assms(3) own assms(4), of "[0, 0]" "take 4 (drop 4 icmp)" "take ?n (drop 8 icmp)"] len
    by simp
  then show ?thesis using False assms(1) s by (auto simp: icmp_reply_def Let_def)
qed

lemma handle_icmp_safe:
  assumes "stack_ok ns" "outq_ok q" "length mac = 6" "length ip = 4"
  shows "stack_safe (handle_icmp seg mac ip ns q)"
proof (cases "length seg < 8")
  case True
  then show ?thesis using assms by (simp add: handle_icmp_def)
next
  case False
  then obtain a b where "get_u16 4 seg = Some a" "get_u16 6 seg = Some b"
    using get_u16_Some [of 4 seg] get_u16_Some [of 6 seg] by auto
  then show ?thesis using False assms icmp_reply_safe by (simp add: handle_icmp_def)
qed

lemma handle_udp_cases:
  assumes "stack_ok ns" "length ip = 4"
  shows "(handle_udp seg ip ns = None \<longleftrightarrow> 8 \<le> length seg \<and> (\<exists>n. get_u16 4 seg = Some n \<and> unat n < 8)) \<and>
    (\<forall>ns'. handle_udp seg ip ns = Some ns' \<longrightarrow> stack_ok ns')"
proof (cases "length seg < 8")
  case True
  then show ?thesis using assms(1) by (auto simp: handle_udp_def)
next
  case False
  then obtain a b n where g: "get_u16 0 seg = Some a" "get_u16 2 seg = Some b" "get_u16 4 seg = Some n"
    using get_u16_Some [of 0 seg] get_u16_Some [of 2 seg] get_u16_Some [of 4 seg] by auto
  have ep: "ep_ok e \<Longrightarrow> ep_ok (deliver_udp ip p data e)" for e p data
    using assms(2) by (simp add: ep_ok_def deliver_udp_def Let_def)
  have "stack_ok (ns\<lparr>ns_udp := map (map_option (\<lambda>e. if ep_port e = b then deliver_udp ip a data e else e)) (ns_udp ns)\<rparr>)" for data
  proof -
    have "ep_ok e'" if "Some e' \<in> set (map (map_option (\<lambda>e. if ep_port e = b then deliver_udp ip a data e else e)) (ns_udp ns))" for e'
    proof -
      from that obtain e where "Some e \<in> set (ns_udp ns)" "e' = (if ep_port e = b then deliver_udp ip a data e else e)"
        by (auto simp: map_option_case split: option.splits)
      then show ?thesis using assms(1) ep by (simp add: stack_ok_def)
    qed
    then show ?thesis using assms(1) by (simp add: stack_ok_def)
  qed
  then show ?thesis using False g by (auto simp: handle_udp_def subslice_def)
qed

lemma lend_ok: "stack_ok ns \<Longrightarrow> outq_ok q \<Longrightarrow> tx_ok (lend ns q)"
  by (simp add: tx_ok_def lend_def stack_ok_def)

lemma settle_ok: "stack_ok ns \<Longrightarrow> tx_ok ctx \<Longrightarrow> stack_safe (Some (settle ns ctx))"
  by (simp add: settle_def tx_ok_def)

lemma parse_tcp_ok:
  "parse_tcp seg ip mac = Some h \<Longrightarrow> length ip = 4 \<Longrightarrow> length mac = 6 \<Longrightarrow> seg_ok (th_seg h)"
  by (auto simp: parse_tcp_def seg_ok_def Let_def split: if_splits Option.bind_splits)

lemma handle_tcp_safe:
  assumes "stack_ok ns" "outq_ok q" "length mac = 6" "length ip = 4" "now + RTO_TICKS < USIZE_LIMIT"
  shows "stack_safe (handle_tcp seg ip mac now ns q)"
proof (cases "parse_tcp seg ip mac")
  case None
  then show ?thesis using assms by (simp add: handle_tcp_def)
next
  case (Some h)
  have lend: "tx_ok (lend ns q)" using assms by (simp add: lend_ok)
  show ?thesis
  proof (cases "tcp_find (th_dport h) ip (th_sport h) ns")
    case None
    have "\<exists>ok ctx. push_tcp_frame mac ip (th_dport h) (th_sport h) 0 (sg_seq (th_seg h) + of_nat (1 + length (sg_payload (th_seg h))))
        (FLAG_RST OR FLAG_ACK) 0 [] (lend ns q) = Some (ok, ctx) \<and> tx_ok ctx"
      using push_tcp_frame_sends [OF lend _ assms(3,4), of "[]"] push_frame_full(1) [of "[]" "lend ns q"] lend
      by (cases "room 54 (tx_q (lend ns q))") (force simp: sends_def)+
    then obtain ok ctx where "push_tcp_frame mac ip (th_dport h) (th_sport h) 0
        (sg_seq (th_seg h) + of_nat (1 + length (sg_payload (th_seg h)))) (FLAG_RST OR FLAG_ACK) 0 [] (lend ns q) = Some (ok, ctx)"
      "tx_ok ctx" by blast
    then show ?thesis using Some None assms(1,2) settle_ok [OF assms(1), of ctx]
      by (simp add: handle_tcp_def del: of_nat_add of_nat_Suc)
  next
    case (Some idx)
    then have idx: "idx < length (ns_tcp ns)" by (simp add: tcp_find_def find_idx_Some)
    show ?thesis
    proof (cases "ns_tcp ns ! idx")
      case None
      then show ?thesis using Some \<open>parse_tcp seg ip mac = Some h\<close> assms(1,2) by (simp add: handle_tcp_def)
    next
      case (Some s)
      then have ts: "tcp_ok s" using idx assms(1) unfolding stack_ok_def by (metis nth_mem)
      obtain s' ctx' where r: "rx_segment (th_seg h) now s (lend ns q) = Some (s', ctx')" "tcp_ok s'" "tx_ok ctx'"
        using rx_segment_safe [OF ts lend parse_tcp_ok [OF \<open>parse_tcp seg ip mac = Some h\<close> assms(4,3)] assms(5)]
        by (auto simp: safe_def tx_step_def)
      then show ?thesis
        using Some \<open>parse_tcp seg ip mac = Some h\<close> \<open>tcp_find (th_dport h) ip (th_sport h) ns = Some idx\<close>
          settle_ok [OF tcp_slot_ok [OF assms(1) r(2)] r(3)]
        by (simp add: handle_tcp_def)
    qed
  qed
qed

text \<open>
  The frames that make a slice bound fail: an IPv4 packet for this host whose total length is smaller than its
  header, and a UDP datagram whose length field is smaller than the UDP header.
\<close>

definition ip_payload :: "ip4_hdr \<Rightarrow> u8 list \<Rightarrow> u8 list" where
  "ip_payload hdr frame = take (14 + total_len hdr - transport hdr) (drop (transport hdr) frame)"

definition bad_lengths :: "net_stack \<Rightarrow> u8 list \<Rightarrow> bool" where
  "bad_lengths ns frame \<longleftrightarrow>
     (\<exists>dst src hdr. parse_eth frame = Some (dst, src, ETHERTYPE_IPV4) \<and> dst \<in> {ns_mac ns, replicate 6 0xFF} \<and>
        parse_ip4 frame = Some hdr \<and> ip_dst hdr = ns_my_ip ns \<and>
        (14 + total_len hdr < transport hdr \<or>
         ip_proto hdr = IPPROTO_UDP \<and> 8 \<le> length (ip_payload hdr frame) \<and>
         (\<exists>n. get_u16 4 (ip_payload hdr frame) = Some n \<and> unat n < 8)))"

lemma handle_ip4_cases:
  assumes "stack_ok ns" "outq_ok q" "length mac = 6" "now + RTO_TICKS < USIZE_LIMIT"
  shows "(handle_ip4 frame mac now ns q = None \<longleftrightarrow>
      (\<exists>hdr. parse_ip4 frame = Some hdr \<and> ip_dst hdr = ns_my_ip ns \<and>
        (14 + total_len hdr < transport hdr \<or>
         ip_proto hdr = IPPROTO_UDP \<and> 8 \<le> length (ip_payload hdr frame) \<and>
         (\<exists>n. get_u16 4 (ip_payload hdr frame) = Some n \<and> unat n < 8)))) \<and>
    (\<forall>r. handle_ip4 frame mac now ns q = Some r \<longrightarrow> stack_safe (Some r))"
proof (cases "\<exists>hdr. parse_ip4 frame = Some hdr \<and> ip_dst hdr = ns_my_ip ns")
  case False
  then show ?thesis using assms by (auto simp: handle_ip4_def split: option.splits)
next
  case True
  then obtain hdr where hdr: "parse_ip4 frame = Some hdr" "ip_dst hdr = ns_my_ip ns" by blast
  note len = parse_ip4_lengths [OF hdr(1)]
  let ?ns = "cache_add (ip_src hdr) mac ns"
  have ok: "stack_ok ?ns" using cache_add_ok(1) [OF assms(1) _ assms(3)] len by simp
  show ?thesis
  proof (cases "14 + total_len hdr < transport hdr")
    case True
    then show ?thesis using hdr len by (simp add: handle_ip4_def subslice_def Let_def)
  next
    case False
    then have pl: "subslice (transport hdr) (min (length frame) (14 + total_len hdr)) frame = Some (ip_payload hdr frame)"
      using len by (simp add: subslice_def ip_payload_def min_def)
    have src: "length (ip_src hdr) = 4" using len by simp
    note u = handle_udp_cases [OF ok src, of "ip_payload hdr frame"]
    have run: "handle_ip4 frame mac now ns q =
        (if ip_proto hdr = IPPROTO_ICMP then handle_icmp (ip_payload hdr frame) mac (ip_src hdr) ?ns q
         else if ip_proto hdr = IPPROTO_UDP then do { ns \<leftarrow> handle_udp (ip_payload hdr frame) (ip_src hdr) ?ns; Some (ns, q) }
         else if ip_proto hdr = IPPROTO_TCP then handle_tcp (ip_payload hdr frame) (ip_src hdr) mac now ?ns q
         else Some (?ns, q))"
      using hdr pl by (simp add: handle_ip4_def Let_def)
    have icmp: "\<exists>r. handle_icmp (ip_payload hdr frame) mac (ip_src hdr) ?ns q = Some r \<and> stack_safe (Some r)"
      using handle_icmp_safe [OF ok assms(2,3) src] by (auto simp: stack_safe_def)
    have tcp: "\<exists>r. handle_tcp (ip_payload hdr frame) (ip_src hdr) mac now ?ns q = Some r \<and> stack_safe (Some r)"
      using handle_tcp_safe [OF ok assms(2,3) src assms(4)] by (auto simp: stack_safe_def)
    show ?thesis
    proof (cases "ip_proto hdr = IPPROTO_UDP")
      case True
      then show ?thesis using u hdr False assms(2) unfolding run by (cases "handle_udp (ip_payload hdr frame) (ip_src hdr) ?ns") auto
    next
      case False
      then show ?thesis using icmp tcp hdr \<open>\<not> 14 + total_len hdr < transport hdr\<close> ok assms(2) unfolding run by auto
    qed
  qed
qed

text \<open>
  C13.  A received frame stops the network server exactly when it is an IPv4 packet for this host whose total
  length is below its header length, or a UDP datagram for it whose length field is below eight; every other
  frame, whatever its contents, is handled to the end and leaves the stack and the queue well formed.\<close>

theorem on_frame_panics_iff:
  assumes "stack_ok ns" "outq_ok q" "now + RTO_TICKS < USIZE_LIMIT"
  shows "(on_frame frame now ns q = None \<longleftrightarrow> bad_lengths ns frame) \<and>
    (\<forall>ns' q'. on_frame frame now ns q = Some (ns', q') \<longrightarrow> stack_ok ns' \<and> outq_ok q')"
proof (cases "\<exists>dst src. parse_eth frame = Some (dst, src, ETHERTYPE_IPV4) \<and> dst \<in> {ns_mac ns, replicate 6 0xFF}")
  case False
  then have "stack_safe (on_frame frame now ns q)" "\<not> bad_lengths ns frame"
    using assms handle_arp_safe by (auto simp: on_frame_def bad_lengths_def split: option.splits)
  then show ?thesis by (auto simp: stack_safe_def)
next
  case True
  then obtain dst src where p: "parse_eth frame = Some (dst, src, ETHERTYPE_IPV4)" "dst \<in> {ns_mac ns, replicate 6 0xFF}" by blast
  then have run: "on_frame frame now ns q = handle_ip4 frame src now ns q" by (auto simp: on_frame_def)
  have "length src = 6" using parse_eth_lengths [OF p(1)] by simp
  from handle_ip4_cases [OF assms(1,2) this assms(3), of frame] show ?thesis
    unfolding run bad_lengths_def using p by (auto simp: stack_safe_def)
qed

definition demo_stack :: net_stack where
  "demo_stack = set_mac [2,0,0,0,0,1] (stack_new [10,0,2,15] [10,0,2,2])"

lemma demo_stack_ok: "stack_ok demo_stack"
  by (simp add: demo_stack_def set_mac_def stack_ok_def stack_new_def)

lemma outq_new_ok: "outq_ok outq_new"
  by (simp add: outq_ok_def outq_new_def)

definition short_udp_frame :: "u8 list" where
  "short_udp_frame = [2,0,0,0,0,1, 2,0,0,0,0,2, 8,0,
     0x45,0,0,28, 0,0,0,0, 64,17,0,0, 10,0,2,2, 10,0,2,15,
     0x15,0xB3, 0x15,0xB3, 0,7, 0,0]"

theorem on_frame_panics_iff_witness:
  "on_frame short_udp_frame 50 demo_stack outq_new = None"
proof -
  have "bad_lengths demo_stack short_udp_frame"
    unfolding bad_lengths_def
    by (intro exI [of _ "[2,0,0,0,0,1]"] exI [of _ "[2,0,0,0,0,2]"]
          exI [of _ "\<lparr>ip_src = [10,0,2,2], ip_dst = [10,0,2,15], ip_proto = IPPROTO_UDP, total_len = 28, transport = 34\<rparr>"])
      (simp add: parse_eth_def parse_ip4_def short_udp_frame_def demo_stack_def set_mac_def stack_new_def
        ip_payload_def get_u16_def byte_at_def)
  then show ?thesis using on_frame_panics_iff [OF demo_stack_ok outq_new_ok, of 50 short_udp_frame] by simp
qed

section \<open>Checksums of echo replies\<close>

definition icmp_ip :: "u16 \<Rightarrow> u16 \<Rightarrow> u8 list \<Rightarrow> u8 list \<Rightarrow> u8 list \<Rightarrow> u8 list \<Rightarrow> u8 list" where
  "icmp_ip len ident tos frag c ips = [0x45] @ tos @ be16 len @ be16 ident @ frag @ [64, IPPROTO_ICMP] @ c @ ips"

definition icmp_seg :: "u8 list \<Rightarrow> u8 list \<Rightarrow> u8 list \<Rightarrow> u8 list" where
  "icmp_seg c idseq payload = [0, 0] @ c @ idseq @ payload"

lemma fill_icmp_eq:
  assumes len: "length dst_mac = 6" "length mac = 6" "length my_ip = 4" "length dst_ip = 4" "length idseq = 4" "length payload \<le> 64"
    and x: "length x14 = 14" "length tos = 1" "length x4 = 4" "length frag = 2" "length x2 = 2" "length c = 2" "length x8 = 8"
      "length y2 = 2" "length k = 2" "length y4 = 4" "length pl = length payload"
  shows "fill_icmp dst_mac mac my_ip dst_ip ident [0, 0] idseq payload
      (x14 @ [v] @ tos @ x4 @ frag @ x2 @ c @ x8 @ y2 @ k @ y4 @ pl) =
    Some (dst_mac @ mac @ be16 ETHERTYPE_IPV4 @
      icmp_ip (of_nat (28 + length payload)) ident tos frag
        (be16 (sum16 (wsum (icmp_ip (of_nat (28 + length payload)) ident tos frag c (my_ip @ dst_ip))))) (my_ip @ dst_ip) @
      icmp_seg (be16 (sum16 (wsum (icmp_seg k idseq payload)))) idseq payload)"
proof -
  let ?b = "x14 @ [v] @ tos @ x4 @ frag @ x2 @ c @ x8 @ y2 @ k @ y4 @ pl"
  let ?e = "dst_mac @ mac @ be16 ETHERTYPE_IPV4"
  let ?ip = "icmp_ip (of_nat (28 + length payload)) ident tos frag"
  let ?ips = "my_ip @ dst_ip"
  have l: "len_minus (14 + 20 + 8 + length payload) 14 = Some (of_nat (28 + length payload))"
    using len by (simp add: len_minus_def unat_of_nat take_bit_eq_mod del: of_nat_add)
  have w: "do { b \<leftarrow> copy_at 0 dst_mac ?b; b \<leftarrow> copy_at 6 mac b; b \<leftarrow> put_u16 12 ETHERTYPE_IPV4 b;
      b \<leftarrow> copy_at 14 [0x45] b; b \<leftarrow> put_u16 16 (of_nat (28 + length payload)) b; b \<leftarrow> put_u16 18 ident b;
      b \<leftarrow> copy_at 22 [64, IPPROTO_ICMP] b; b \<leftarrow> copy_at 26 my_ip b; b \<leftarrow> copy_at 30 dst_ip b;
      b \<leftarrow> copy_at 34 [0, 0] b; b \<leftarrow> copy_at 38 idseq b; copy_at 42 payload b } =
    Some (?e @ ?ip c ?ips @ icmp_seg k idseq payload)"
    using len x by (simp add: copy_at_def put_u16_def icmp_ip_def icmp_seg_def del: of_nat_add)
  have lh: "length (?ip d ?ips) = 20" if "length d = 2" for d using len x that by (simp add: icmp_ip_def)
  have s1: "subslice 34 (34 + (8 + length payload)) (?e @ ?ip c ?ips @ icmp_seg k idseq payload) = Some (icmp_seg k idseq payload)"
    using len x lh by (simp add: subslice_def icmp_seg_def)
  have k1: "checksum (icmp_seg k idseq payload) = Some (sum16 (wsum (icmp_seg k idseq payload)))"
    using len x by (simp add: checksum_def checksum_seed_small icmp_seg_def)
  have p1: "put_u16 36 u (?e @ ?ip c ?ips @ icmp_seg k idseq payload) = Some (?e @ ?ip c ?ips @ icmp_seg (be16 u) idseq payload)" for u
    using len x lh by (simp add: copy_at_def put_u16_def icmp_seg_def)
  have s2: "subslice 14 34 (?e @ ?ip c ?ips @ r) = Some (?ip c ?ips)" for r
    using len x lh by (simp add: subslice_def)
  have k2: "checksum (?ip c ?ips) = Some (sum16 (wsum (?ip c ?ips)))"
    using x lh by (simp add: checksum_def checksum_seed_small)
  have p2: "put_u16 24 u (?e @ ?ip c ?ips @ r) = Some (?e @ ?ip (be16 u) ?ips @ r)" for u r
    using len x by (simp add: copy_at_def put_u16_def icmp_ip_def del: of_nat_add)
  show ?thesis
    using arg_cong [OF w, of "\<lambda>x. Option.bind x (\<lambda>b. do { seg \<leftarrow> subslice 34 (34 + (8 + length payload)) b; s \<leftarrow> checksum seg;
        b \<leftarrow> put_u16 36 s b; hdr \<leftarrow> subslice 14 34 b; ip_sum \<leftarrow> checksum hdr; put_u16 24 ip_sum b })"]
    unfolding Option.bind.simps(2) s1 k1 p1 s2 k2 p2
    by (simp only: fill_icmp_def Let_def l Option.bind.simps bind_assoc append_assoc)
qed

lemma mod_cancel: "(a + c) mod m = 0 \<Longrightarrow> a mod m = 0 \<longleftrightarrow> c mod m = 0" for a c m :: nat
  unfolding mod_eq_0_iff_dvd using dvd_add_left_iff dvd_add_right_iff by blast

text \<open>The sum a receiver forms over a header whose checksum was computed with \<open>c\<close> in its place.\<close>

lemma stale_checksum: "(r + unat (sum16 (r + c))) mod 65535 = 0 \<longleftrightarrow> c mod 65535 = 0"
proof -
  let ?f = "fold_carry (r + c)"
  have u: "unat (sum16 (r + c)) = 65535 - ?f" unfolding sum16_def by (rule unat_not_u16) (rule fold_carry_le)
  have "(r + (65535 - ?f) + c) mod 65535 = 0"
  proof -
    have "(r + c + (65535 - ?f)) mod 65535 = (?f + (65535 - ?f)) mod 65535" by (metis fold_carry_mod mod_add_left_eq)
    also have "\<dots> = 0" using fold_carry_le [of "r + c"] by simp
    finally show ?thesis by (simp only: add.assoc add.commute [of c])
  qed
  then show ?thesis unfolding u by (rule mod_cancel)
qed

lemma wsum_icmp_ip:
  assumes "length tos = 1" "length frag = 2"
  shows "wsum (icmp_ip l i tos frag [a, e] ips) = wsum (icmp_ip l i tos frag [0, 0] ips) + (unat a * 256 + unat e)"
    and "wsum (icmp_ip l i tos frag [0, 0] ips) > 0"
proof -
  obtain t f g where "tos = [t]" "frag = [f, g]" using assms by (auto simp: length_Suc_conv numeral_2_eq_2)
  then show "wsum (icmp_ip l i tos frag [a, e] ips) = wsum (icmp_ip l i tos frag [0, 0] ips) + (unat a * 256 + unat e)"
    and "wsum (icmp_ip l i tos frag [0, 0] ips) > 0"
    by (simp_all add: icmp_ip_def)
qed

lemma wsum_icmp_seg: "wsum (icmp_seg [a, e] idseq pl) = wsum (icmp_seg [0, 0] idseq pl) + (unat a * 256 + unat e)"
  by (simp add: icmp_seg_def)

lemma word16_multiple: "unat (a :: u8) * 256 + unat (b :: u8) = 0 \<or> unat a * 256 + unat b = 65535 \<longleftrightarrow>
    (unat a * 256 + unat b) mod 65535 = 0"
proof -
  have "unat a * 256 + unat b \<le> 65535" using unat8_lt [of a] unat8_lt [of b] by linarith
  then show ?thesis
    by (cases "unat a * 256 + unat b = 65535") auto
qed

lemma stale_sum_ok:
  assumes "w = unat (a :: u8) * 256 + unat (b :: u8)"
  shows "r > 0 \<Longrightarrow> sum_ok (r + unat (sum16 (r + w))) \<longleftrightarrow> w \<in> {0, 65535}"
    and "w \<notin> {0, 65535} \<Longrightarrow> \<not> sum_ok (r + unat (sum16 (r + w)))"
proof -
  have w: "w \<in> {0, 65535} \<longleftrightarrow> w mod 65535 = 0" unfolding assms insert_iff empty_iff HOL.simp_thms by (rule word16_multiple)
  show "sum_ok (r + unat (sum16 (r + w))) \<longleftrightarrow> w \<in> {0, 65535}" if "r > 0"
    unfolding sum_ok_iff stale_checksum w using that by simp
  show "\<not> sum_ok (r + unat (sum16 (r + w)))" if "w \<notin> {0, 65535}"
    using that unfolding sum_ok_iff stale_checksum w by blast
qed

lemma wsum_pair: "wsum ([a, b] @ r) = unat a * 256 + unat b + wsum r"
  by simp

lemma reserved_split:
  assumes "length b = 42 + n"
  obtains x14 v tos x4 frag x2 c0 c1 x8 y2 k0 k1 y4 pl
  where "b = x14 @ [v] @ tos @ x4 @ frag @ x2 @ [c0, c1] @ x8 @ y2 @ [k0, k1] @ y4 @ pl"
    "length x14 = 14" "length tos = 1" "length x4 = 4" "length frag = 2" "length x2 = 2" "length x8 = 8"
    "length y2 = 2" "length y4 = 4" "length pl = n" "b ! 24 = c0" "b ! 25 = c1" "b ! 36 = k0" "b ! 37 = k1"
proof -
  obtain x14 ra where s1: "b = x14 @ ra" "length x14 = 14" "length ra = 28 + n"
    using split_front [of 14 b] assms by auto
  obtain v rb where s2: "ra = v # rb" "length rb = 27 + n" using s1(3) by (cases ra) auto
  obtain tos rc where s3: "rb = tos @ rc" "length tos = 1" "length rc = 26 + n"
    using split_front [of 1 rb] s2(2) by auto
  obtain x4 rd where s4: "rc = x4 @ rd" "length x4 = 4" "length rd = 22 + n"
    using split_front [of 4 rc] s3(3) by auto
  obtain frag re where s5: "rd = frag @ re" "length frag = 2" "length re = 20 + n"
    using split_front [of 2 rd] s4(3) by auto
  obtain x2 rf where s6: "re = x2 @ rf" "length x2 = 2" "length rf = 18 + n"
    using split_front [of 2 re] s5(3) by auto
  obtain c0 rg where s7: "rf = c0 # rg" "length rg = 17 + n" using s6(3) by (cases rf) auto
  obtain c1 rh where s8: "rg = c1 # rh" "length rh = 16 + n" using s7(2) by (cases rg) auto
  obtain x8 ri where s9: "rh = x8 @ ri" "length x8 = 8" "length ri = 8 + n"
    using split_front [of 8 rh] s8(2) by auto
  obtain y2 rj where s10: "ri = y2 @ rj" "length y2 = 2" "length rj = 6 + n"
    using split_front [of 2 ri] s9(3) by auto
  obtain k0 rk where s11: "rj = k0 # rk" "length rk = 5 + n" using s10(3) by (cases rj) auto
  obtain k1 rl where s12: "rk = k1 # rl" "length rl = 4 + n" using s11(2) by (cases rk) auto
  obtain y4 rm where s13: "rl = y4 @ rm" "length y4 = 4" "length rm = n"
    using split_front [of 4 rl] s12(2) by auto
  have e: "b = x14 @ [v] @ tos @ x4 @ frag @ x2 @ [c0, c1] @ x8 @ y2 @ [k0, k1] @ y4 @ rm"
    by (simp add: s1(1) s2(1) s3(1) s4(1) s5(1) s6(1) s7(1) s8(1) s9(1) s10(1) s11(1) s12(1) s13(1))
  show thesis
    by (rule that [OF e s1(2) s3(2) s4(2) s5(2) s6(2) s9(2) s10(2) s13(2) s13(3)]) (simp_all add: e nth_append s1(2) s3(2) s4(2) s5(2) s6(2) s9(2) s10(2) s13(2) s13(3))
qed

text \<open>
  C35.  An echo reply is only sent with valid checksums into a scratch buffer that is zero at the two checksum
  fields: the builder does not clear them before it sums, so the IPv4 header checksum of the reply verifies
  exactly when the two bytes an earlier frame left there are 0x0000 or 0xFFFF, and the ICMP checksum never
  verifies when the bytes left at its place are neither.\<close>

theorem icmp_reply_stale_checksum:
  assumes "stack_ok ns" "outq_ok q" "length mac = 6" "length ip = 4" "8 \<le> length icmp"
    and n: "n = min (length icmp - 8) 64" and room: "room (42 + n) q"
  shows "\<exists>ns' q' fr. icmp_reply mac ip icmp ns q = Some (ns', q') \<and> frames_of q' = frames_of q @ [fr] \<and>
    (sum_ok (wsum (take 20 (drop 14 fr))) \<longleftrightarrow> word_at 12 (reserved (42 + n) q) \<in> {0, 65535}) \<and>
    (word_at 18 (reserved (42 + n) q) \<notin> {0, 65535} \<longrightarrow> \<not> sum_ok (wsum (drop 34 fr)))"
proof -
  let ?idseq = "take 4 (drop 4 icmp)" and ?pl = "take n (drop 8 icmp)"
  let ?b = "reserved (42 + n) q"
  have lb: "length ?b = 42 + n" using reserved_length [OF assms(2) room] .
  obtain x14 v tos x4 frag x2 c0 c1 x8 y2 k0 k1 y4 pl where b: "?b = x14 @ [v] @ tos @ x4 @ frag @ x2 @ [c0, c1] @ x8 @ y2 @ [k0, k1] @ y4 @ pl"
    and x: "length x14 = 14" "length tos = 1" "length x4 = 4" "length frag = 2" "length x2 = 2" "length x8 = 8"
      "length y2 = 2" "length y4 = 4" "length pl = n"
    and at: "?b ! 24 = c0" "?b ! 25 = c1" "?b ! 36 = k0" "?b ! 37 = k1"
    by (rule reserved_split [OF lb])
  have own: "length (ns_mac ns) = 6" "length (ns_my_ip ns) = 4" using assms(1) by (simp_all add: stack_ok_def)
  have len: "length ?idseq = 4" "length ?pl = n" "n \<le> 64" using assms(5) n by auto
  let ?ips = "ns_my_ip ns @ ip"
  let ?hdr = "icmp_ip (of_nat (28 + n)) (ns_ip_id ns) tos frag"
  let ?fr = "mac @ ns_mac ns @ be16 ETHERTYPE_IPV4 @ ?hdr (be16 (sum16 (wsum (?hdr [c0, c1] ?ips)))) ?ips @
    icmp_seg (be16 (sum16 (wsum (icmp_seg [k0, k1] ?idseq ?pl)))) ?idseq ?pl"
  have fill: "fill_icmp mac (ns_mac ns) (ns_my_ip ns) ip (ns_ip_id ns) [0, 0] ?idseq ?pl ?b = Some ?fr"
    using fill_icmp_eq [of mac "ns_mac ns" "ns_my_ip ns" ip ?idseq ?pl x14 tos x4 frag x2 "[c0, c1]" x8 y2 "[k0, k1]" y4 pl]
      assms(3,4) own len x b by simp
  have lf: "length ?fr = 42 + n" using assms(3,4) own len x by (simp add: icmp_ip_def icmp_seg_def)
  obtain q' where q': "build_frame (42 + n) (fill_icmp mac (ns_mac ns) (ns_my_ip ns) ip (ns_ip_id ns) [0, 0] ?idseq ?pl) q = Some (True, q')"
    "frames_of q' = frames_of q @ [?fr]"
    using build_frame_room [of q "42 + n" "fill_icmp mac (ns_mac ns) (ns_my_ip ns) ip (ns_ip_id ns) [0, 0] ?idseq ?pl",
        OF assms(2) room fill lf] by blast
  have run: "icmp_reply mac ip icmp ns q = Some (ns\<lparr>ns_ip_id := ns_ip_id ns + 1\<rparr>, q')"
    using assms(5) q'(1) n by (simp add: icmp_reply_def subslice_def Let_def)
  let ?r = "wsum (?hdr [0, 0] ?ips)" and ?s = "wsum (icmp_seg [0, 0] ?idseq ?pl)"
  have w: "word_at 12 ?b = unat c0 * 256 + unat c1" "word_at 18 ?b = unat k0 * 256 + unat k1"
    using at by (simp_all add: word_at_def)
  have hl: "length (?hdr d ?ips) = 20" if "length d = 2" for d using assms(4) own x that by (simp add: icmp_ip_def)
  have e1: "wsum (?hdr [c0, c1] ?ips) = ?r + word_at 12 ?b" unfolding w by (rule wsum_icmp_ip(1) [OF x(2,4)])
  have e2: "wsum (icmp_seg [k0, k1] ?idseq ?pl) = ?s + word_at 18 ?b" unfolding w by (rule wsum_icmp_seg)
  have ip_part: "take 20 (drop 14 ?fr) = ?hdr (be16 (sum16 (?r + word_at 12 ?b))) ?ips"
    using assms(3) own hl unfolding e1 by simp
  have icmp_part: "drop 34 ?fr = icmp_seg (be16 (sum16 (?s + word_at 18 ?b))) ?idseq ?pl"
    using assms(3) own hl unfolding e2 by simp
  have be: "\<exists>a e. be16 u = [a, e] \<and> unat a * 256 + unat e = unat u" for u :: u16
    using unat_be16 [of u] by (simp add: be16_def)
  have ipw: "wsum (take 20 (drop 14 ?fr)) = ?r + unat (sum16 (?r + word_at 12 ?b))"
    unfolding ip_part using be [of "sum16 (?r + word_at 12 ?b)"] wsum_icmp_ip(1) [OF x(2,4)] by metis
  have icw: "wsum (drop 34 ?fr) = ?s + unat (sum16 (?s + word_at 18 ?b))"
    unfolding icmp_part using be [of "sum16 (?s + word_at 18 ?b)"] wsum_icmp_seg by metis
  have "sum_ok (wsum (take 20 (drop 14 ?fr))) \<longleftrightarrow> word_at 12 ?b \<in> {0, 65535}"
    unfolding ipw by (rule stale_sum_ok(1) [OF w(1) wsum_icmp_ip(2) [OF x(2,4)]])
  moreover have "word_at 18 ?b \<notin> {0, 65535} \<longrightarrow> \<not> sum_ok (wsum (drop 34 ?fr))"
    unfolding icw using stale_sum_ok(2) [OF w(2)] by blast
  ultimately show ?thesis using run q'(2) by blast
qed

definition used_queue :: out_queue where
  "used_queue = outq_new\<lparr>oq_buf := replicate 24 0 @ [0x63, 0xCE] @ replicate 1492 0\<rparr>"

theorem icmp_reply_stale_checksum_witness:
  "\<exists>ns' q' fr. icmp_reply [2,0,0,0,0,2] [10,0,2,2] [8,0,0,0,0x12,0x34,0,1] demo_stack used_queue = Some (ns', q') \<and>
     frames_of q' = [fr] \<and> \<not> sum_ok (wsum (take 20 (drop 14 fr)))"
proof -
  have at: "unat (oq_off used_queue ! oq_n used_queue) = 0" "oq_buf used_queue = replicate 24 0 @ [0x63, 0xCE] @ replicate 1492 0"
    by (simp_all add: used_queue_def outq_new_def)
  have w: "word_at 12 (reserved (42 + 0) used_queue) = 25550"
    unfolding word_at_def reserved_def at by (simp add: nth_append)
  have q: "outq_ok used_queue" by (simp add: outq_ok_def used_queue_def outq_new_def)
  have room: "room (42 + 0) used_queue" by (simp add: room_def used_queue_def outq_new_def)
  have none: "frames_of used_queue = []" by (simp add: used_queue_def outq_new_def frames_of_def)
  have h: "length [2,0,0,0,0,2::u8] = 6" "length [10,0,2,2::u8] = 4" "8 \<le> length [8,0,0,0,0x12,0x34,0,1::u8]"
    "0 = min (length [8,0,0,0,0x12,0x34,0,1::u8] - 8) 64" by simp_all
  from icmp_reply_stale_checksum [OF demo_stack_ok q h room] show ?thesis
    unfolding w none by (simp only: append_Nil insert_iff empty_iff) auto
qed

end
