(* ===== verification/Net_Stream.thy ===== *)
theory Net_Stream
  imports Net_Stack
begin

text \<open>
  Two TCP sockets of the stack and the network between them.  One side writes, the other reads; the frames
  each side queues are read back by the parsers of the receiving stack.  The network may lose, duplicate and
  reorder the segments that carry data; it may lose acknowledgements but not reorder them (\<open>Net_Tcp\<close>
  shows what an old acknowledgement does).  The main result is that the bytes read are always a prefix of the
  bytes written, and that the sender only forgets bytes that have arrived.
\<close>

section \<open>Frames on the wire\<close>

text \<open>What a received frame hands to the socket it belongs to.\<close>

definition frame_seg :: "u8 list \<Rightarrow> tcp_seg option" where
  "frame_seg fr =
     (case parse_eth fr of
        None \<Rightarrow> None
      | Some (_, src_mac, _) \<Rightarrow>
          (case parse_ip4 fr of
             None \<Rightarrow> None
           | Some hdr \<Rightarrow> map_option th_seg (parse_tcp (ip_payload hdr fr) (ip_src hdr) src_mac)))"

definition segs_of :: "tx_ctx \<Rightarrow> tcp_seg list" where
  "segs_of ctx = List.map_filter frame_seg (frames_of (tx_q ctx))"

definition fresh :: "tx_ctx \<Rightarrow> bool" where
  "fresh ctx \<longleftrightarrow> tx_ok ctx \<and> oq_n (tx_q ctx) = 0 \<and> unat (oq_off (tx_q ctx) ! 0) = 0"

lemma frame_seg_tcp:
  assumes "length dst_mac = 6" "length mac = 6" "length my_ip = 4" "length dst_ip = 4" "length payload \<le> 1400"
  shows "frame_seg (tcp_frame dst_mac mac my_ip dst_ip ident sport dport seq ack flags wnd payload) =
    Some \<lparr>sg_seq = seq, sg_ack = ack, sg_syn = (flags AND FLAG_SYN \<noteq> 0), sg_ack_flag = (flags AND FLAG_ACK \<noteq> 0),
      sg_fin = (flags AND FLAG_FIN \<noteq> 0), sg_rst = (flags AND FLAG_RST \<noteq> 0), sg_window = wnd, sg_payload = payload,
      sg_peer_ip = my_ip, sg_peer_port = sport, sg_peer_mac = mac\<rparr>"
proof -
  let ?fr = "tcp_frame dst_mac mac my_ip dst_ip ident sport dport seq ack flags wnd payload"
  note f = tcp_frame_fields [OF assms refl, of ident sport dport seq ack flags wnd]
  have "length ?fr = 54 + length payload" using assms by (simp add: tcp_frame_def)
  then have pl: "ip_payload \<lparr>ip_src = my_ip, ip_dst = dst_ip, ip_proto = IPPROTO_TCP, total_len = 40 + length payload, transport = 34\<rparr> ?fr = drop 34 ?fr"
    by (simp add: ip_payload_def)
  have off: "unat (drop_bit 4 (0x50 :: u8)) * 4 = 20" by simp
  show ?thesis
    unfolding frame_seg_def f(1,2) option.case prod.case pl
    unfolding f(3) parse_tcp_def
    by (simp add: tcp_bytes_fields off)
qed

lemma push_tcp_fresh:
  assumes "fresh ctx" "length m = 6" "length ip = 4" "length payload \<le> 512"
  shows "\<exists>ctx'. push_tcp s m ip seq ack flags wnd payload ctx = Some ctx' \<and>
    segs_of ctx' = [\<lparr>sg_seq = seq, sg_ack = ack, sg_syn = (flags AND FLAG_SYN \<noteq> 0), sg_ack_flag = (flags AND FLAG_ACK \<noteq> 0),
      sg_fin = (flags AND FLAG_FIN \<noteq> 0), sg_rst = (flags AND FLAG_RST \<noteq> 0), sg_window = wnd, sg_payload = payload,
      sg_peer_ip = tx_ip ctx, sg_peer_port = sk_local_port s, sg_peer_mac = tx_mac ctx\<rparr>]"
proof -
  have ok: "tx_ok ctx" and own: "length (tx_mac ctx) = 6" "length (tx_ip ctx) = 4" and none: "frames_of (tx_q ctx) = []"
    using assms(1) by (auto simp: fresh_def tx_ok_def frames_of_def)
  have room: "room (54 + length payload) (tx_q ctx)" and pl: "length payload \<le> 1400"
    using assms(1,4) by (auto simp: room_def fresh_def)
  show ?thesis
    using push_tcp_frame_sends [OF ok room assms(2,3) pl, of "sk_local_port s" "sk_peer_port s" seq ack flags wnd] none
      frame_seg_tcp [OF assms(2) own assms(3) pl, of "tx_ip_id ctx" "sk_local_port s" "sk_peer_port s" seq ack flags wnd]
    by (auto simp: push_tcp_def sends_def segs_of_def map_filter_simps)
qed

lemma segs_of_fresh: "fresh ctx \<Longrightarrow> segs_of ctx = []"
  by (simp add: fresh_def segs_of_def frames_of_def map_filter_simps)

text \<open>The two kinds of segment an established connection exchanges.\<close>

definition plain_seg :: "tcp_seg \<Rightarrow> bool" where
  "plain_seg g \<longleftrightarrow> seg_ok g \<and> \<not> sg_syn g \<and> \<not> sg_fin g \<and> \<not> sg_rst g \<and> sg_ack_flag g"

lemma send_ack_fresh:
  assumes "fresh ctx" "length m = 6" "length ip = 4"
  shows "\<exists>ctx' g. send_ack s m ip ctx = Some ctx' \<and> segs_of ctx' = [g] \<and> plain_seg g \<and> sg_payload g = [] \<and> sg_ack g = sk_rcv_nxt s"
  using push_tcp_fresh [OF assms, of "[]" s "sk_snd_nxt s" "sk_rcv_nxt s" FLAG_ACK WINDOW] assms(1)
  by (auto simp: send_ack_def plain_seg_def seg_ok_def fresh_def tx_ok_def)

lemma send_data_fresh:
  assumes "fresh ctx" "length m = 6" "length ip = 4" "length data \<le> 512"
  shows "\<exists>ctx' g. send_data_seg s m ip seq data ctx = Some ctx' \<and> segs_of ctx' = [g] \<and> plain_seg g \<and>
    sg_payload g = data \<and> sg_seq g = seq"
  using push_tcp_fresh [OF assms, of s seq "sk_rcv_nxt s" "FLAG_ACK OR FLAG_PSH" WINDOW] assms(1)
  by (auto simp: send_data_seg_def plain_seg_def seg_ok_def fresh_def tx_ok_def)

section \<open>Established sockets\<close>

definition open_sock :: "tcp_socket \<Rightarrow> bool" where
  "open_sock s \<longleftrightarrow> tcp_ok s \<and> sk_state s = Established \<and> \<not> sk_fin_req s \<and> \<not> sk_fin_sent s"

text \<open>The sending half and the receiving half of a socket.\<close>

definition tx_half :: "tcp_socket \<Rightarrow> u8 list \<times> nat \<times> u32 \<times> nat" where
  "tx_half s = (sk_out s, sk_out_len s, sk_data_base s, sk_sent s)"

definition rx_half :: "tcp_socket \<Rightarrow> u8 list \<times> nat \<times> u32" where
  "rx_half s = (sk_rx s, sk_rx_len s, sk_rcv_nxt s)"

lemma retry_cases:
  assumes "retry now send s ctx = Some (s', ctx')"
  shows "s' = die (s\<lparr>sk_retries := sk_retries s + 1\<rparr>) \<and> ctx' = ctx \<or>
    (\<exists>t. s' = s\<lparr>sk_retries := sk_retries s + 1, sk_rto_deadline := t\<rparr> \<and> send (s\<lparr>sk_retries := sk_retries s + 1\<rparr>) ctx = Some ctx')"
proof -
  have "\<not> sk_retries s \<ge> 255" using assms by (intro notI) (simp add: retry_def)
  then show ?thesis
    using assms by (cases "sk_retries s + 1 > MAX_RETRIES") (simp_all add: retry_def Let_def Option.bind_eq_Some_conv, blast)
qed

lemma retry_open:
  assumes "retry now send s ctx = Some (s', ctx')"
  shows "tx_half s' = tx_half s \<and> rx_half s' = rx_half s \<and> sk_state s' = sk_state s \<and> sk_fin_req s' = sk_fin_req s \<and>
    sk_fin_sent s' = sk_fin_sent s \<and> (ctx' = ctx \<or> send (s\<lparr>sk_retries := sk_retries s + 1\<rparr>) ctx = Some ctx')"
  using retry_cases [OF assms]
  by (elim disjE exE conjE) (simp_all add: die_def notify_app_def tx_half_def rx_half_def)

lemma resend_data_fresh:
  assumes "fresh ctx" "tcp_ok s"
  shows "\<exists>ctx' g. resend_data s ctx = Some ctx' \<and> segs_of ctx' = [g] \<and> plain_seg g \<and>
    sg_payload g = take (sk_sent s) (sk_out s) \<and> sg_seq g = sk_data_base s"
proof -
  have "length (sk_peer_mac s) = 6" "length (sk_peer_ip s) = 4" "length (take (sk_sent s) (sk_out s)) \<le> 512"
    using assms(2) by (simp_all add: tcp_ok_def)
  from send_data_fresh [OF assms(1) this, of s "sk_data_base s"] show ?thesis
    using assms(2) by (simp add: resend_data_def tcp_ok_def usub_def subslice_def)
qed

lemma send_fresh_fresh:
  assumes "fresh ctx" "tcp_ok s" "sk_sent s = 0" "send_fresh now s ctx = Some (s', ctx')"
  shows "sk_state s' = sk_state s \<and> sk_fin_req s' = sk_fin_req s \<and> sk_fin_sent s' = sk_fin_sent s \<and> rx_half s' = rx_half s \<and>
    sk_out s' = sk_out s \<and> sk_out_len s' = sk_out_len s \<and> sk_data_base s' = sk_data_base s \<and>
    (segs_of ctx' = [] \<and> sk_sent s' = 0 \<or>
     (\<exists>g. segs_of ctx' = [g] \<and> plain_seg g \<and> sk_sent s' \<le> sk_out_len s \<and>
        sg_payload g = take (sk_sent s') (sk_out s) \<and> sg_seq g = sk_data_base s))"
proof -
  let ?chunk = "min (min (sk_out_len s - sk_sent s) TCP_MSS) (unat (sk_peer_wnd s))"
  have len: "length (sk_out s) = 512" "sk_out_len s \<le> 512" using assms(2) by (simp_all add: tcp_ok_def)
  have sl: "subslice (sk_sent s) (sk_sent s + ?chunk) (sk_out s) = Some (take ?chunk (sk_out s))"
    using len assms(3) by (simp add: subslice_def)
  have "length (sk_peer_mac s) = 6" "length (sk_peer_ip s) = 4" "length (take ?chunk (sk_out s)) \<le> 512"
    using assms(2) by (simp_all add: tcp_ok_def)
  from send_data_fresh [OF assms(1) this, of s "sk_data_base s + of_nat (sk_sent s)"]
  obtain c g where g: "send_data_seg s (sk_peer_mac s) (sk_peer_ip s) (sk_data_base s + of_nat (sk_sent s)) (take ?chunk (sk_out s)) ctx = Some c"
    "segs_of c = [g]" "plain_seg g" "sg_payload g = take ?chunk (sk_out s)" "sg_seq g = sk_data_base s + of_nat (sk_sent s)"
    by blast
  have "?chunk \<le> sk_out_len s" by simp
  then show ?thesis
    using assms(3,4) g segs_of_fresh [OF assms(1)] unfolding send_fresh_def Let_def sl
    by (auto simp: rx_half_def Option.bind_eq_Some_conv split: if_splits)
qed

lemma poll_open:
  assumes "fresh ctx" "open_sock s" "now + RTO_TICKS < USIZE_LIMIT" "tcp_poll now s ctx = Some (s', ctx')"
  shows "open_sock s' \<and> rx_half s' = rx_half s \<and> sk_out s' = sk_out s \<and> sk_out_len s' = sk_out_len s \<and>
    sk_data_base s' = sk_data_base s \<and>
    (segs_of ctx' = [] \<and> sk_sent s' = sk_sent s \<or>
     (\<exists>g. segs_of ctx' = [g] \<and> plain_seg g \<and> sk_sent s \<le> sk_sent s' \<and> sk_sent s' \<le> sk_out_len s \<and>
        sg_payload g = take (sk_sent s') (sk_out s) \<and> sg_seq g = sk_data_base s))"
proof -
  have ok: "tcp_ok s" and st: "sk_state s = Established" "\<not> sk_fin_req s" "\<not> sk_fin_sent s"
    using assms(2) by (auto simp: open_sock_def)
  have ok': "tcp_ok s'"
    using tcp_poll_safe [OF ok _ assms(3), of ctx] assms(1,4) by (auto simp: safe_def fresh_def)
  have sent: "sk_inflight s = sk_sent s" "sk_sent s \<le> sk_out_len s" using ok by (simp_all add: tcp_ok_def)
  note seg0 = segs_of_fresh [OF assms(1)]
  consider (idle) "s' = s" "ctx' = ctx" | (again) "retry now resend_data s ctx = Some (s', ctx')"
    | (new) "sk_sent s = 0" "send_fresh now s ctx = Some (s', ctx')"
  proof -
    have "tcp_poll now s ctx =
      (if sk_dead s \<or> sk_peer_mac s = replicate 6 0 then Some (s, ctx)
       else if sk_inflight s > 0 then (if now \<ge> sk_rto_deadline s then retry now resend_data s ctx else Some (s, ctx))
       else if sk_sent s < sk_out_len s then send_fresh now s ctx else Some (s, ctx))"
      using st by (simp add: tcp_poll_def Let_def)
    then show thesis using that assms(4) sent(1) by (simp split: if_splits)
  qed
  then show ?thesis
  proof cases
    case idle
    then show ?thesis using assms(2) seg0 by simp
  next
    case again
    have r: "resend_data (s\<lparr>sk_retries := n\<rparr>) ctx = resend_data s ctx" for n
      by (simp add: resend_data_def send_data_seg_def push_tcp_def)
    from retry_open [OF again]
    have same: "tx_half s' = tx_half s" "rx_half s' = rx_half s" "open_sock s'" and out: "ctx' = ctx \<or> resend_data s ctx = Some ctx'"
      using ok' st by (auto simp: r open_sock_def)
    then show ?thesis
      using resend_data_fresh [OF assms(1) ok] seg0 sent(2) by (auto simp: tx_half_def)
  next
    case new
    then show ?thesis using send_fresh_fresh [OF assms(1) ok new] ok' st by (auto simp: open_sock_def)
  qed
qed

lemma open_ack:
  assumes "open_sock s" "\<not> sk_dead s" "plain_seg g"
  shows "rx_segment g now s ctx = do { s \<leftarrow> ack_data (sg_ack g) (s\<lparr>sk_peer_wnd := ucast (sg_window g)\<rparr>);
    if sg_payload g \<noteq> [] then rx_data g s ctx else Some (s, ctx) }"
proof -
  let ?s = "s\<lparr>sk_peer_wnd := ucast (sg_window g)\<rparr>"
  have ok: "tcp_ok ?s" using assms(1) by (simp add: open_sock_def)
  obtain s1 where s1: "ack_data (sg_ack g) ?s = Some s1" "sk_state s1 = Established"
    using ack_data_ok [OF ok, of "sg_ack g"] assms(1) by (auto simp: open_sock_def)
  have "sk_fin_sent s1 = sk_fin_sent s"
    using s1(1) unfolding ack_data_def Let_def by (auto simp: Option.bind_eq_Some_conv split: if_splits)
  then have "ack_fin a (ack_syn a s1) = s1" for a
    using s1(2) assms(1) by (simp add: ack_fin_def ack_syn_def open_sock_def)
  then show ?thesis
    using assms(2,3) s1 by (simp add: rx_segment_def rx_ack_def rx_body_def plain_seg_def)
qed

lemma rx_half_simps [simp]:
  "rx_half (s\<lparr>sk_peer_wnd := w\<rparr>) = rx_half s" "tx_half (s\<lparr>sk_peer_wnd := w\<rparr>) = tx_half s"
  by (simp_all add: rx_half_def tx_half_def)

lemma receiver_step:
  assumes "open_sock r" "\<not> sk_dead r" "sk_sent r = 0" "plain_seg g" "fresh ctx"
    and fit: "length (sg_payload g) \<le> RX_BUF - sk_rx_len r"
    and run: "rx_segment g now r ctx = Some (r', ctx')" and now: "now + RTO_TICKS < USIZE_LIMIT"
  shows "open_sock r' \<and> \<not> sk_dead r' \<and> sk_sent r' = 0 \<and>
    (if sg_payload g = [] then segs_of ctx' = [] \<and> rx_half r' = rx_half r
     else (\<exists>a. segs_of ctx' = [a] \<and> plain_seg a \<and> sg_payload a = [] \<and> sg_ack a = sk_rcv_nxt r') \<and>
       (if sg_seq g = sk_rcv_nxt r
        then sk_rcv_nxt r' = sk_rcv_nxt r + of_nat (length (sg_payload g)) \<and>
          take (sk_rx_len r') (sk_rx r') = take (sk_rx_len r) (sk_rx r) @ sg_payload g
        else rx_half r' = rx_half r))"
proof -
  let ?r = "r\<lparr>sk_peer_wnd := ucast (sg_window g)\<rparr>"
  have ok: "tcp_ok r" using assms(1) by (simp add: open_sock_def)
  have len: "length (sk_rx r) = 512" "sk_rx_len r \<le> 512" using ok by (simp_all add: tcp_ok_def)
  have g: "length (sg_peer_mac g) = 6" "length (sg_peer_ip g) = 4" using assms(4) by (auto simp: plain_seg_def seg_ok_def)
  have "ack_data (sg_ack g) ?r = Some ?r" using assms(3) by (simp add: ack_data_def)
  then have body: "(if sg_payload g \<noteq> [] then rx_data g ?r ctx else Some (?r, ctx)) = Some (r', ctx')"
    using run open_ack [OF assms(1,2,4)] by simp
  have safe: "tcp_ok r'"
    using rx_segment_safe [OF ok _ _ now, of ctx g] assms(4,5) run by (auto simp: safe_def fresh_def plain_seg_def)
  show ?thesis
  proof (cases "sg_payload g = []")
    case True
    then show ?thesis using body assms segs_of_fresh [OF assms(5)] by (auto simp: open_sock_def)
  next
    case False
    have cp: "copy_at (sk_rx_len r) (take (min (length (sg_payload g)) (RX_BUF - sk_rx_len r)) (sg_payload g)) (sk_rx r) =
        Some (take (sk_rx_len r) (sk_rx r) @ sg_payload g @ drop (sk_rx_len r + length (sg_payload g)) (sk_rx r))"
      using fit len by (simp add: copy_at_def min_def)
    show ?thesis
    proof (cases "sg_seq g = sk_rcv_nxt r")
      case True
      let ?s = "notify_app N_DATA (?r\<lparr>sk_rx := take (sk_rx_len r) (sk_rx r) @ sg_payload g @ drop (sk_rx_len r + length (sg_payload g)) (sk_rx r),
          sk_rx_len := sk_rx_len r + length (sg_payload g), sk_rcv_nxt := sk_rcv_nxt r + of_nat (length (sg_payload g))\<rparr>)"
      obtain c a where a: "send_ack ?s (sg_peer_mac g) (sg_peer_ip g) ctx = Some c" "segs_of c = [a]" "plain_seg a"
        "sg_payload a = []" "sg_ack a = sk_rcv_nxt ?s"
        using send_ack_fresh [OF assms(5) g, of ?s] by blast
      have min: "min (length (sg_payload g)) (RX_BUF - sk_rx_len r) = length (sg_payload g)" using fit by simp
      have "Some (r', ctx') = Some (?s, c)"
        using body False True cp a(1) len(2) by (simp add: rx_data_def usub_def Let_def min)
      then show ?thesis using False True a safe assms(1-3) len by (simp add: open_sock_def notify_app_def)
    next
      case False
      obtain c a where a: "send_ack ?r (sg_peer_mac g) (sg_peer_ip g) ctx = Some c" "segs_of c = [a]" "plain_seg a"
        "sg_payload a = []" "sg_ack a = sk_rcv_nxt ?r"
        using send_ack_fresh [OF assms(5) g, of ?r] by blast
      then have "r' = ?r" "ctx' = c" using body False \<open>sg_payload g \<noteq> []\<close> by (simp_all add: rx_data_def)
      then show ?thesis using a False \<open>sg_payload g \<noteq> []\<close> safe assms(1-3) by (simp add: open_sock_def)
    qed
  qed
qed

lemma ack_data_exact:
  assumes "tcp_ok s" "d \<le> sk_sent s"
  shows "\<exists>s'. ack_data (sk_data_base s + of_nat d) s = Some s' \<and> tcp_ok s' \<and> sk_data_base s' = sk_data_base s + of_nat d \<and>
    sk_sent s' = sk_sent s - d \<and> sk_out_len s' = sk_out_len s - d \<and>
    take (sk_out_len s') (sk_out s') = drop d (take (sk_out_len s) (sk_out s)) \<and>
    sk_state s' = sk_state s \<and> sk_fin_req s' = sk_fin_req s \<and> sk_fin_sent s' = sk_fin_sent s \<and> rx_half s' = rx_half s"
proof (cases "d = 0")
  case True
  then show ?thesis using assms by (simp add: ack_data_def)
next
  case False
  have le: "d \<le> sk_out_len s" "sk_out_len s \<le> length (sk_out s)" "d \<le> 512" using assms by (auto simp: tcp_ok_def)
  have adv: "min (unat (sk_data_base s + of_nat d - sk_data_base s)) (sk_sent s) = d"
    using le(3) assms(2) by (simp add: unat_of_nat take_bit_eq_mod)
  obtain out' where out': "copy_down d (sk_out_len s) (sk_out s) = Some out'"
    "take (sk_out_len s - d) out' = take (sk_out_len s - d) (drop d (sk_out s))"
    using copy_down_ok [OF le(1,2)] by blast
  have run: "ack_data (sk_data_base s + of_nat d) s = Some (s\<lparr>sk_out := out', sk_out_len := sk_out_len s - d,
      sk_snd_nxt := sk_data_base s + of_nat d + of_nat (sk_out_len s - d), sk_sent := sk_sent s - d, sk_inflight := sk_inflight s - d,
      sk_data_base := if sk_out_len s - d = 0 then sk_data_base s + of_nat d + of_nat (sk_out_len s - d) else sk_data_base s + of_nat d\<rparr>)"
    using False out'(1) le(1) unfolding ack_data_def Let_def adv usub_def by simp
  moreover have "tcp_ok (the (ack_data (sk_data_base s + of_nat d) s))"
    using ack_data_ok [OF assms(1), of "sk_data_base s + of_nat d"] by auto
  ultimately show ?thesis using out'(2) by (simp add: rx_half_def drop_take)
qed

section \<open>A connection\<close>

record link =
  lk_snd :: tcp_socket
  lk_rcv :: tcp_socket
  lk_data :: "tcp_seg list"
  lk_acks :: "tcp_seg list"
  lk_written :: "u8 list"
  lk_read :: "u8 list"

text \<open>
  A segment with data stays in the network once sent, so it can arrive any number of times and in any order, or
  never.  Acknowledgements arrive in the order they were sent; any of them can be lost.  A segment is only
  taken when the reader has made room for it.
\<close>

inductive link_step :: "link \<Rightarrow> link \<Rightarrow> bool" where
  writes: "app_write data (lk_snd l) = Some (ok, s) \<Longrightarrow>
    link_step l (l\<lparr>lk_snd := s, lk_written := lk_written l @ (if ok then data else [])\<rparr>)"
| polls: "fresh ctx \<Longrightarrow> now + RTO_TICKS < USIZE_LIMIT \<Longrightarrow> tcp_poll now (lk_snd l) ctx = Some (s, ctx') \<Longrightarrow>
    link_step l (l\<lparr>lk_snd := s, lk_data := lk_data l @ segs_of ctx'\<rparr>)"
| arrives: "g \<in> set (lk_data l) \<Longrightarrow> fresh ctx \<Longrightarrow> now + RTO_TICKS < USIZE_LIMIT \<Longrightarrow>
    length (sg_payload g) \<le> RX_BUF - sk_rx_len (lk_rcv l) \<Longrightarrow> rx_segment g now (lk_rcv l) ctx = Some (r, ctx') \<Longrightarrow>
    link_step l (l\<lparr>lk_rcv := r, lk_acks := lk_acks l @ segs_of ctx'\<rparr>)"
| acked: "lk_acks l = g # gs \<Longrightarrow> fresh ctx \<Longrightarrow> now + RTO_TICKS < USIZE_LIMIT \<Longrightarrow>
    rx_segment g now (lk_snd l) ctx = Some (s, ctx') \<Longrightarrow>
    link_step l (l\<lparr>lk_snd := s, lk_acks := gs, lk_data := lk_data l @ segs_of ctx'\<rparr>)"
| ack_lost: "lk_acks l = gs @ g # hs \<Longrightarrow> link_step l (l\<lparr>lk_acks := gs @ hs\<rparr>)"
| reads: "app_read cap (lk_rcv l) = Some (data, r) \<Longrightarrow> link_step l (l\<lparr>lk_rcv := r, lk_read := lk_read l @ data\<rparr>)"

definition opened :: "link \<Rightarrow> bool" where
  "opened l \<longleftrightarrow> open_sock (lk_snd l) \<and> open_sock (lk_rcv l) \<and> \<not> sk_dead (lk_rcv l) \<and>
     sk_out_len (lk_snd l) = 0 \<and> sk_sent (lk_rcv l) = 0 \<and> sk_rx_len (lk_rcv l) = 0 \<and>
     sk_rcv_nxt (lk_rcv l) = sk_data_base (lk_snd l) \<and>
     lk_data l = [] \<and> lk_acks l = [] \<and> lk_written l = [] \<and> lk_read l = []"

text \<open>
  The invariant, with \<open>a\<close> the number of bytes acknowledged and \<open>c\<close> the number of bytes that arrived: sequence
  numbers are \<open>base\<close> plus stream positions.
\<close>

definition data_inv :: "u32 \<Rightarrow> nat \<Rightarrow> link \<Rightarrow> tcp_seg \<Rightarrow> bool" where
  "data_inv base a l g \<longleftrightarrow> plain_seg g \<and>
     (\<exists>p. sg_seq g = base + of_nat p \<and> p \<le> a \<and> p + length (sg_payload g) \<le> a + sk_sent (lk_snd l) \<and>
        sg_payload g = take (length (sg_payload g)) (drop p (lk_written l)))"

definition ack_at :: "u32 \<Rightarrow> tcp_seg \<Rightarrow> nat \<Rightarrow> bool" where
  "ack_at base g e \<longleftrightarrow> plain_seg g \<and> sg_payload g = [] \<and> sg_ack g = base + of_nat e"

definition acks_inv :: "u32 \<Rightarrow> nat \<Rightarrow> nat \<Rightarrow> tcp_seg list \<Rightarrow> bool" where
  "acks_inv base a c gs \<longleftrightarrow> (\<exists>es. list_all2 (ack_at base) gs es \<and> sorted es \<and> (\<forall>e \<in> set es. a \<le> e \<and> e \<le> c))"

definition stream_inv :: "u32 \<Rightarrow> nat \<Rightarrow> nat \<Rightarrow> link \<Rightarrow> bool" where
  "stream_inv base a c l \<longleftrightarrow> open_sock (lk_snd l) \<and> open_sock (lk_rcv l) \<and> \<not> sk_dead (lk_rcv l) \<and> sk_sent (lk_rcv l) = 0 \<and>
     sk_data_base (lk_snd l) = base + of_nat a \<and> a + sk_out_len (lk_snd l) = length (lk_written l) \<and>
     take (sk_out_len (lk_snd l)) (sk_out (lk_snd l)) = drop a (lk_written l) \<and>
     a \<le> c \<and> c \<le> a + sk_sent (lk_snd l) \<and> sk_rcv_nxt (lk_rcv l) = base + of_nat c \<and>
     lk_read l @ take (sk_rx_len (lk_rcv l)) (sk_rx (lk_rcv l)) = take c (lk_written l) \<and>
     (\<forall>g \<in> set (lk_data l). data_inv base a l g) \<and> acks_inv base a c (lk_acks l)"

lemma opened_inv: "opened l \<Longrightarrow> stream_inv (sk_data_base (lk_snd l)) 0 0 l"
  by (auto simp: opened_def stream_inv_def acks_inv_def open_sock_def tcp_ok_def)

lemma take_drop_append: "p + n \<le> length xs \<Longrightarrow> take n (drop p (xs @ ys)) = take n (drop p xs)"
  by simp

lemma inv_writes:
  assumes "stream_inv base a c l" "app_write data (lk_snd l) = Some (ok, s)"
  shows "stream_inv base a c (l\<lparr>lk_snd := s, lk_written := lk_written l @ (if ok then data else [])\<rparr>)"
proof (cases ok)
  case False
  then have "s = lk_snd l"
    using assms(2) by (auto simp: app_write_def Let_def Option.bind_eq_Some_conv split: if_splits)
  then show ?thesis using assms(1) False by (simp add: stream_inv_def data_inv_def)
next
  case True
  let ?s = "lk_snd l" and ?W = "lk_written l"
  have i: "open_sock ?s" "a + sk_out_len ?s = length ?W" "take (sk_out_len ?s) (sk_out ?s) = drop a ?W" "c \<le> a + sk_sent ?s"
    using assms(1) by (simp_all add: stream_inv_def)
  have ok: "tcp_ok ?s" using i(1) by (simp add: open_sock_def)
  then have len: "length (sk_out ?s) = 512" "sk_sent ?s \<le> sk_out_len ?s" by (simp_all add: tcp_ok_def)
  have s: "s = ?s\<lparr>sk_out := take (sk_out_len ?s) (sk_out ?s) @ data @ drop (sk_out_len ?s + length data) (sk_out ?s),
      sk_out_len := sk_out_len ?s + length data, sk_snd_nxt := sk_data_base ?s + of_nat (sk_out_len ?s + length data)\<rparr>"
    and fit: "sk_out_len ?s + length data \<le> 512"
    using assms(2) True unfolding app_write_def by (auto simp: Let_def copy_at_def split: if_splits)
  have sock: "open_sock s" using i(1) ok fit len unfolding s open_sock_def tcp_ok_def by simp
  have out: "take (sk_out_len s) (sk_out s) = drop a (?W @ data)"
    using i(2,3) fit len unfolding s by simp
  have pos: "a + sk_sent ?s \<le> length ?W" using i(2) len(2) by linarith
  have d: "data_inv base a (l\<lparr>lk_snd := s, lk_written := ?W @ data\<rparr>) g" if "data_inv base a l g" for g
    using that pos unfolding data_inv_def s by (auto simp: take_drop_append)
  have rd: "take c (?W @ data) = take c ?W" using i(4) pos by simp
  show ?thesis
    using assms(1) True sock out d rd i(2) unfolding stream_inv_def by (simp add: s)
qed

lemma inv_polls:
  assumes "stream_inv base a c l" "fresh ctx" "now + RTO_TICKS < USIZE_LIMIT" "tcp_poll now (lk_snd l) ctx = Some (s, ctx')"
  shows "stream_inv base a c (l\<lparr>lk_snd := s, lk_data := lk_data l @ segs_of ctx'\<rparr>)"
proof -
  let ?s = "lk_snd l" and ?W = "lk_written l"
  let ?l = "l\<lparr>lk_snd := s, lk_data := lk_data l @ segs_of ctx'\<rparr>"
  have i: "open_sock ?s" "sk_data_base ?s = base + of_nat a" "a + sk_out_len ?s = length ?W" "take (sk_out_len ?s) (sk_out ?s) = drop a ?W"
    "c \<le> a + sk_sent ?s" using assms(1) by (simp_all add: stream_inv_def)
  note p = poll_open [OF assms(2) i(1) assms(3,4)]
  have len: "length (sk_out ?s) = 512" "sk_out_len ?s \<le> 512" using i(1) by (simp_all add: open_sock_def tcp_ok_def)
  have mono: "sk_sent ?s \<le> sk_sent s" using p by auto
  have old: "data_inv base a ?l g" if "data_inv base a l g" for g
    using that mono unfolding data_inv_def by force
  have new: "data_inv base a ?l g" if "g \<in> set (segs_of ctx')" for g
  proof -
    have g: "plain_seg g" "sk_sent s \<le> sk_out_len ?s" "sg_payload g = take (sk_sent s) (sk_out ?s)" "sg_seq g = sk_data_base ?s"
      using p that by auto
    then have n: "length (sg_payload g) = sk_sent s" using len by simp
    have "sg_payload g = take (sk_sent s) (take (sk_out_len ?s) (sk_out ?s))" using g(2,3) by (simp add: min_def)
    then have "sg_payload g = take (sk_sent s) (drop a ?W)" by (simp only: i(4))
    then show ?thesis using g(1,4) i(2) n unfolding data_inv_def by (intro conjI exI [of _ a]) simp_all
  qed
  have "c \<le> a + sk_sent s" using i(5) mono by linarith
  then show ?thesis using assms(1) p old new unfolding stream_inv_def by auto
qed

lemma inv_reads:
  assumes "stream_inv base a c l" "app_read cap (lk_rcv l) = Some (data, r)"
  shows "stream_inv base a c (l\<lparr>lk_rcv := r, lk_read := lk_read l @ data\<rparr>)"
proof -
  let ?r = "lk_rcv l" and ?n = "min (sk_rx_len (lk_rcv l)) cap"
  have i: "open_sock ?r" using assms(1) by (simp add: stream_inv_def)
  have len: "length (sk_rx ?r) = 512" "sk_rx_len ?r \<le> 512" using i by (simp_all add: open_sock_def tcp_ok_def)
  obtain rx' where rx': "copy_down ?n (sk_rx_len ?r) (sk_rx ?r) = Some rx'" "length rx' = length (sk_rx ?r)"
    "take (sk_rx_len ?r - ?n) rx' = take (sk_rx_len ?r - ?n) (drop ?n (sk_rx ?r))"
    using copy_down_ok [of ?n "sk_rx_len ?r" "sk_rx ?r"] len by auto
  have "?n \<le> length (sk_rx ?r)" using len by linarith
  then have sl: "subslice 0 ?n (sk_rx ?r) = Some (take ?n (sk_rx ?r))" by (simp add: subslice_def)
  have d: "data = take ?n (sk_rx ?r)" and r: "r = ?r\<lparr>sk_rx := rx', sk_rx_len := sk_rx_len ?r - ?n\<rparr>"
    using assms(2) unfolding app_read_def Let_def sl rx'(1) by simp_all
  have "sk_rx_len ?r - ?n \<le> 512" using len by linarith
  then have sock: "open_sock r" using i rx'(2) unfolding r open_sock_def tcp_ok_def by simp
  have "data @ take (sk_rx_len r) (sk_rx r) = take (sk_rx_len ?r) (sk_rx ?r)"
  proof -
    have "data @ take (sk_rx_len r) (sk_rx r) = take ?n (sk_rx ?r) @ take (sk_rx_len ?r - ?n) (drop ?n (sk_rx ?r))"
      unfolding d r using rx'(3) by simp
    also have "\<dots> = take (?n + (sk_rx_len ?r - ?n)) (sk_rx ?r)" by (rule take_add [symmetric])
    finally show ?thesis by simp
  qed
  then show ?thesis using assms(1) sock unfolding stream_inv_def by (simp add: r data_inv_def)
qed

lemma of_nat_u32_inj: "(of_nat p :: u32) = of_nat q \<Longrightarrow> p < 2 ^ 32 \<Longrightarrow> q < 2 ^ 32 \<Longrightarrow> p = q"
proof -
  assume h: "(of_nat p :: u32) = of_nat q" "p < 2 ^ 32" "q < 2 ^ 32"
  have eq: "unat (of_nat n :: u32) = n" if "n < 2 ^ 32" for n
    using that by (simp add: unat_of_nat take_bit_eq_mod)
  show "p = q" using arg_cong [OF h(1), of unat] unfolding eq [OF h(2)] eq [OF h(3)] .
qed

lemma stream_inv_receive:
  assumes "stream_inv base a c l" "open_sock r" "\<not> sk_dead r" "sk_sent r = 0"
    and "a \<le> c'" "c' \<le> a + sk_sent (lk_snd l)" "sk_rcv_nxt r = base + of_nat c'"
    and "lk_read l @ take (sk_rx_len r) (sk_rx r) = take c' (lk_written l)" "acks_inv base a c' gs"
  shows "stream_inv base a c' (l\<lparr>lk_rcv := r, lk_acks := gs\<rparr>)"
proof -
  have "data_inv base a (l\<lparr>lk_rcv := r, lk_acks := gs\<rparr>) h = data_inv base a l h" for h by (simp add: data_inv_def)
  then show ?thesis using assms unfolding stream_inv_def by simp
qed

lemma acks_inv_snoc:
  assumes "acks_inv base a c gs" "a \<le> c" "c \<le> c'" "hs = [] \<or> (\<exists>h. hs = [h] \<and> ack_at base h c')"
  shows "acks_inv base a c' (gs @ hs)"
proof -
  obtain es where es: "list_all2 (ack_at base) gs es" "sorted es" "\<forall>e \<in> set es. a \<le> e \<and> e \<le> c"
    using assms(1) unfolding acks_inv_def by blast
  have up: "\<forall>e \<in> set es. a \<le> e \<and> e \<le> c'" using es(3) assms(3) by (meson order_trans)
  show ?thesis
  proof (cases "hs = []")
    case True
    then show ?thesis using es(1,2) up unfolding acks_inv_def by auto
  next
    case False
    then obtain h where h: "hs = [h]" "ack_at base h c'" using assms(4) by blast
    have "list_all2 (ack_at base) (gs @ [h]) (es @ [c'])" using es(1) h(2) by (simp add: list_all2_appendI)
    moreover have "sorted (es @ [c'])" using es(2) up by (simp add: sorted_append)
    moreover have "\<forall>e \<in> set (es @ [c']). a \<le> e \<and> e \<le> c'" using up assms(2,3) by simp
    ultimately show ?thesis unfolding acks_inv_def h(1) by (intro exI conjI)
  qed
qed

lemma inv_arrives:
  assumes "stream_inv base a c l" "g \<in> set (lk_data l)" "fresh ctx" "now + RTO_TICKS < USIZE_LIMIT"
    and "length (sg_payload g) \<le> RX_BUF - sk_rx_len (lk_rcv l)" "rx_segment g now (lk_rcv l) ctx = Some (r, ctx')"
    and bound: "length (lk_written l) < 2 ^ 32"
  shows "\<exists>c'. stream_inv base a c' (l\<lparr>lk_rcv := r, lk_acks := lk_acks l @ segs_of ctx'\<rparr>)"
proof -
  let ?r = "lk_rcv l" and ?W = "lk_written l"
  let ?l = "l\<lparr>lk_rcv := r, lk_acks := lk_acks l @ segs_of ctx'\<rparr>"
  have i: "open_sock ?r" "\<not> sk_dead ?r" "sk_sent ?r = 0" "data_inv base a l g" "a \<le> c" "c \<le> a + sk_sent (lk_snd l)"
    "sk_rcv_nxt ?r = base + of_nat c" "lk_read l @ take (sk_rx_len ?r) (sk_rx ?r) = take c ?W" "acks_inv base a c (lk_acks l)"
    using assms(1,2) by (simp_all add: stream_inv_def)
  obtain p where p: "plain_seg g" "sg_seq g = base + of_nat p" "p \<le> a" "p + length (sg_payload g) \<le> a + sk_sent (lk_snd l)"
    "sg_payload g = take (length (sg_payload g)) (drop p ?W)"
    using i(4) unfolding data_inv_def by blast
  have "sk_sent (lk_snd l) \<le> sk_out_len (lk_snd l)" "a + sk_out_len (lk_snd l) = length ?W"
    using assms(1) by (simp_all add: stream_inv_def open_sock_def tcp_ok_def)
  then have top: "a + sk_sent (lk_snd l) \<le> length ?W" by linarith
  note st = receiver_step [OF i(1-3) p(1) assms(3,5,6,4)]
  note acks = acks_inv_snoc [OF i(9) i(5)]
  note r = conjunct1 [OF st] conjunct1 [OF conjunct2 [OF st]] conjunct1 [OF conjunct2 [OF conjunct2 [OF st]]]
  note br = conjunct2 [OF conjunct2 [OF conjunct2 [OF st]]]
  show ?thesis
  proof (cases "sg_payload g \<noteq> [] \<and> sg_seq g = sk_rcv_nxt ?r")
    case True
    then have ne: "sg_payload g \<noteq> []" "sg_seq g = sk_rcv_nxt ?r" by simp_all
    let ?c = "c + length (sg_payload g)"
    note b = br [unfolded if_not_P [OF ne(1)] if_P [OF ne(2)]]
    note st' = conjunct1 [OF b] conjunct1 [OF conjunct2 [OF b]] conjunct2 [OF conjunct2 [OF b]]
    have "p < 2 ^ 32" "c < 2 ^ 32" using p(3) i(5,6) top bound by linarith+
    moreover have "(of_nat p :: u32) = of_nat c" using ne(2) p(2) i(7) by simp
    ultimately have pc: "p = c" by (intro of_nat_u32_inj)
    have rn: "sk_rcv_nxt r = base + of_nat ?c" using st'(2) i(7) by simp
    have "take ?c ?W = take c ?W @ sg_payload g" using p(5) pc by (metis take_add)
    then have rd: "lk_read l @ take (sk_rx_len r) (sk_rx r) = take ?c ?W" using st'(3) i(8) by (metis append.assoc)
    have "\<exists>h. segs_of ctx' = [h] \<and> ack_at base h ?c" using st'(1) unfolding rn ack_at_def by blast
    then have ac: "acks_inv base a ?c (lk_acks l @ segs_of ctx')" using acks by simp
    have "a \<le> ?c" "?c \<le> a + sk_sent (lk_snd l)" using i(5) p(4) pc by simp_all
    from stream_inv_receive [OF assms(1) r this rn rd ac] show ?thesis ..
  next
    case False
    have same: "rx_half r = rx_half ?r" proof (cases "sg_payload g = []")
      case True
      show ?thesis using br unfolding if_P [OF True] ..
    next
      case ne: False
      with False have "sg_seq g \<noteq> sk_rcv_nxt ?r" by blast
      with br show ?thesis unfolding if_not_P [OF ne] by (simp only: if_False)
    qed
    then have eqs: "sk_rcv_nxt r = sk_rcv_nxt ?r" "sk_rx r = sk_rx ?r" "sk_rx_len r = sk_rx_len ?r" by (simp_all add: rx_half_def)
    have rn: "sk_rcv_nxt r = base + of_nat c" using eqs(1) i(7) by simp
    have "segs_of ctx' = [] \<or> (\<exists>h. segs_of ctx' = [h] \<and> plain_seg h \<and> sg_payload h = [] \<and> sg_ack h = sk_rcv_nxt r)"
      using br by (cases "sg_payload g = []") (simp_all only: if_True if_False simp_thms)
    then have "segs_of ctx' = [] \<or> (\<exists>h. segs_of ctx' = [h] \<and> ack_at base h c)" unfolding rn ack_at_def .
    then have ac: "acks_inv base a c (lk_acks l @ segs_of ctx')" using acks by blast
    have rd: "lk_read l @ take (sk_rx_len r) (sk_rx r) = take c ?W" using i(8) unfolding eqs .
    from stream_inv_receive [OF assms(1) r i(5,6) rn rd ac] show ?thesis ..
  qed
qed

lemma inv_acked:
  assumes "stream_inv base a c l" "lk_acks l = g # gs" "fresh ctx" "rx_segment g now (lk_snd l) ctx = Some (s, ctx')"
  shows "\<exists>a'. stream_inv base a' c (l\<lparr>lk_snd := s, lk_acks := gs, lk_data := lk_data l @ segs_of ctx'\<rparr>)"
proof -
  let ?s = "lk_snd l" and ?W = "lk_written l"
  have i: "open_sock ?s" "sk_data_base ?s = base + of_nat a" "a + sk_out_len ?s = length ?W"
    "take (sk_out_len ?s) (sk_out ?s) = drop a ?W" "a \<le> c" "c \<le> a + sk_sent ?s"
    using assms(1) by (simp_all add: stream_inv_def)
  obtain e es where es: "ack_at base g e" "list_all2 (ack_at base) gs es" "sorted (e # es)" "\<forall>x \<in> set (e # es). a \<le> x \<and> x \<le> c"
    using assms(1,2) by (auto simp: stream_inv_def acks_inv_def list_all2_Cons1)
  have e: "a \<le> e" "e \<le> c" and g: "plain_seg g" "sg_payload g = []" "sg_ack g = base + of_nat e"
    using es(1,4) by (auto simp: ack_at_def)
  note seg0 = segs_of_fresh [OF assms(3)]
  show ?thesis
  proof (cases "sk_dead ?s")
    case True
    then have "s = ?s" "ctx' = ctx" using assms(4) by (simp_all add: rx_segment_def)
    moreover have "acks_inv base a c gs" using es by (auto simp: acks_inv_def)
    ultimately have "stream_inv base a c (l\<lparr>lk_snd := s, lk_acks := gs, lk_data := lk_data l @ segs_of ctx'\<rparr>)"
      using assms(1) seg0 by (simp add: stream_inv_def data_inv_def)
    then show ?thesis ..
  next
    case False
    let ?s1 = "?s\<lparr>sk_peer_wnd := ucast (sg_window g)\<rparr>"
    have ok: "tcp_ok ?s1" and d: "e - a \<le> sk_sent ?s1" using i(1,6) e by (auto simp: open_sock_def)
    have "sg_ack g = sk_data_base ?s1 + of_nat (e - a)" using g(3) i(2) e(1) by (simp add: of_nat_diff)
    then obtain s' where s': "rx_segment g now ?s ctx = Some (s', ctx)" "tcp_ok s'" "sk_data_base s' = base + of_nat e"
      "sk_sent s' = sk_sent ?s - (e - a)" "sk_out_len s' = sk_out_len ?s - (e - a)"
      "take (sk_out_len s') (sk_out s') = drop (e - a) (take (sk_out_len ?s) (sk_out ?s))"
      "sk_state s' = Established" "\<not> sk_fin_req s'" "\<not> sk_fin_sent s'"
      using ack_data_exact [OF ok d] open_ack [OF i(1) False g(1), of now ctx] g(2,3) i(1) by (auto simp: open_sock_def)
    then have s: "s = s'" "ctx' = ctx" using assms(4) by simp_all
    have out: "sk_sent ?s \<le> sk_out_len ?s" using i(1) by (simp add: open_sock_def tcp_ok_def)
    have "drop (e - a) (drop a ?W) = drop e ?W" using e(1) by simp
    then have q: "take (sk_out_len s') (sk_out s') = drop e ?W" using s'(6) i(4) by simp
    have sum: "e + sk_sent s' = a + sk_sent ?s" "e + sk_out_len s' = length ?W" using s'(4,5) e i(3,6) out by linarith+
    have dat: "data_inv base e (l\<lparr>lk_snd := s', lk_acks := gs, lk_data := lk_data l @ segs_of ctx\<rparr>) h" if "data_inv base a l h" for h
      using that e(1) sum(1) unfolding data_inv_def by force
    have "acks_inv base e c gs" using es unfolding acks_inv_def by auto
    then have "stream_inv base e c (l\<lparr>lk_snd := s', lk_acks := gs, lk_data := lk_data l @ segs_of ctx\<rparr>)"
      using assms(1) s' q sum dat e(2) i(6) seg0 unfolding stream_inv_def by (simp add: open_sock_def)
    then show ?thesis unfolding s ..
  qed
qed

lemma inv_ack_lost:
  assumes "stream_inv base a c l" "lk_acks l = gs @ g # hs"
  shows "stream_inv base a c (l\<lparr>lk_acks := gs @ hs\<rparr>)"
proof -
  obtain es where es: "list_all2 (ack_at base) (gs @ g # hs) es" "sorted es" "\<forall>x \<in> set es. a \<le> x \<and> x \<le> c"
    using assms by (auto simp: stream_inv_def acks_inv_def)
  then obtain xs e ys where e: "es = xs @ e # ys" "list_all2 (ack_at base) gs xs" "list_all2 (ack_at base) hs ys"
    by (auto simp: list_all2_append1 list_all2_Cons1)
  have "acks_inv base a c (gs @ hs)"
    using es(2,3) e unfolding acks_inv_def
    by (intro exI [of _ "xs @ ys"]) (auto simp: sorted_append list_all2_appendI)
  then show ?thesis using assms(1) by (simp add: stream_inv_def data_inv_def)
qed

lemma written_grows: "link_step l l' \<Longrightarrow> length (lk_written l) \<le> length (lk_written l')"
  by (induction rule: link_step.induct) (simp (no_asm))+

lemma stream_inv_step:
  "link_step l l' \<Longrightarrow> stream_inv base a c l \<Longrightarrow> length (lk_written l') < 2 ^ 32 \<Longrightarrow> \<exists>a' c'. stream_inv base a' c' l'"
proof (induction rule: link_step.induct)
  case (writes data l ok s)
  show ?case using inv_writes [OF writes(2,1)] by (intro exI)
next
  case (polls ctx now l s ctx')
  show ?case using inv_polls [OF polls(4,1-3)] by (intro exI)
next
  case (arrives g l ctx now r ctx')
  have bound: "length (lk_written l) < 2 ^ 32" using arrives(7) by simp
  show ?case using inv_arrives [OF arrives(6,1-5) bound] by (rule exI)
next
  case (acked l g gs ctx now s ctx')
  show ?case using inv_acked [OF acked(5,1,2,4)] by (elim exE) (intro exI)
next
  case (ack_lost l gs g hs)
  show ?case using inv_ack_lost [OF ack_lost(2,1)] by (intro exI)
next
  case (reads cap l data r)
  show ?case using inv_reads [OF reads(2,1)] by (intro exI)
qed

lemma stream_inv_steps:
  "link_step\<^sup>*\<^sup>* l l' \<Longrightarrow> stream_inv base a c l \<Longrightarrow> length (lk_written l') < 2 ^ 32 \<Longrightarrow> \<exists>a' c'. stream_inv base a' c' l'"
proof (induction rule: rtranclp_induct)
  case base
  show ?case using base(1) by (intro exI)
next
  case (step l1 l2)
  have "length (lk_written l1) < 2 ^ 32" using written_grows [OF step(2)] step.prems(2) by (rule order.strict_trans1)
  from step.IH [OF step.prems(1) this] show ?case
    by (elim exE) (rule stream_inv_step [OF step(2) _ step.prems(2)])
qed


definition demo_end :: "u16 \<Rightarrow> u32 \<Rightarrow> u32 \<Rightarrow> tcp_socket" where
  "demo_end port base peer = (blank port)\<lparr>sk_state := Established, sk_peer_mac := [2,0,0,0,0,2], sk_peer_ip := [10,0,2,2],
     sk_data_base := base, sk_snd_nxt := base, sk_rcv_nxt := peer, sk_syn_acked := True, sk_peer_wnd := 512\<rparr>"

definition demo_link :: link where
  "demo_link = \<lparr>lk_snd = demo_end 7777 1000 2000, lk_rcv = demo_end 80 2000 1000, lk_data = [], lk_acks = [],
     lk_written = [], lk_read = []\<rparr>"

lemma demo_link_opened: "opened demo_link"
  by (simp add: opened_def demo_link_def demo_end_def open_sock_def tcp_ok_def blank_def)


end
