(* ===== verification/Spec2Isabelle.thy ===== *)
theory Spec2Isabelle
  imports Kernel_Step Vm_Manager Firmware Monitor Net_Stream
begin

text \<open>
  \<^bold>\<open>A verification library for the Tanix microkernel.\<close>

  Tanix is an AArch64 microkernel in Rust (\<^verbatim>\<open>src/kernel\<close>) with servers in user mode (\<^verbatim>\<open>src/servers\<close>).  The
  kernel owns memory, tasks, messages, interrupts and guest VMs; servers own devices and policy and are reached by
  messages.  A boot runs the firmware parsers, builds the frame allocator and the translation tables, loads the
  servers and guests, and enters the scheduler; from then on the kernel runs only on system calls, interrupts and
  exceptions.

  \<^bold>\<open>Conventions.\<close>  Machine words are \<open>'w word\<close>; a \<^verbatim>\<open>usize\<close> or an address is a \<open>nat\<close> below \<open>2 ^ 64\<close>, with the
  overflow of an addition or subtraction written out (\<open>uadd\<close>, \<open>usub\<close> in \<open>Tanix_Prelude\<close>).  The build checks overflow
  and slice bounds, so an operation that would panic has the value \<open>None\<close>; error codes of the source are values.
  State is passed explicitly; each component has its record and one definition per function of the source.
  Loops are recursion over the range the source iterates, or functions with a termination proof; no fuel is used.
  Code outside the sources (the hypervisor under the Gunyah backend, guest code, the embedded images, the devices)
  is a parameter.

  \<^bold>\<open>Memory.\<close>
  \<^item> \<open>Frame_Alloc\<close> (\<^verbatim>\<open>mem/frame.rs\<close>): the bitmap allocator, every method of \<^verbatim>\<open>FrameAllocator\<close>.  The locale
    \<open>frame_provider\<close> is its contract: a history of allocations and releases never hands out a frame twice.  A
    contiguous allocation is the first fit; reserving a region clears exactly its frames, and one page outside the
    window empties the allocator.
  \<^item> \<open>Page_Table\<close> (\<^verbatim>\<open>mem/page_table.rs\<close>): descriptors, walks, kernel and user mappings, cloning and release over
    physical memory.  Mapping changes the translation of exactly the pages asked for; a cloned kernel table
    translates as the original; the tables of a task return every frame they took.  The allocator behind the
    tables satisfies \<open>frame_provider\<close>.
  \<^item> \<open>User_Mem\<close>: loads and stores through a task's table, as the kernel performs them on user pointers.
  \<^item> \<open>Vm_Fault\<close> (\<^verbatim>\<open>mem/vm_fault.rs\<close>): stack growth, demand pages, copy on write.  A copy-on-write fault gives the
    task a private copy and leaves the shared frame as it was; a fault outside the regions changes nothing.

  \<^bold>\<open>Tasks and system calls.\<close>
  \<^item> \<open>Task_Sched\<close> (\<^verbatim>\<open>sched/task.rs\<close>, \<^verbatim>\<open>sched/mod.rs\<close>, \<^verbatim>\<open>sched/switch.s\<close>, \<^verbatim>\<open>smp.rs\<close>): the task table, picks, wake-ups,
    switches, kills, the loops of the CPUs.  \<open>Sched_Inv\<close> has the invariant of the scheduler on several CPUs.
  \<^item> \<open>Ipc_Syscall\<close> (\<^verbatim>\<open>ipc/syscall.rs\<close>): every system call and the dispatcher; \<open>Syscall_Inv\<close> shows that each call keeps
    the invariant.
  \<^item> \<open>Irq_Pending\<close> (\<^verbatim>\<open>irq.rs\<close>) and \<open>Exception\<close> (\<^verbatim>\<open>arch/aarch64/exception.rs\<close>): the interrupt and synchronous handlers.
  \<^item> \<open>Sched_Fair\<close>: the scan for the next task is the head of a sort; on the boot CPU every ready task runs within
    31 ticks; on a secondary CPU it need not.
  \<^item> \<open>Kernel_Step\<close>: all entries into the kernel as one step relation over an arbitrary interleaving of CPUs.  No task
    is current on two CPUs in any reachable state, and an interrupt reaches the driver that waits for it.
  \<^item> \<open>Server\<close> (\<^verbatim>\<open>server.rs\<close>), \<open>Vm_Loader\<close> (\<^verbatim>\<open>vm/loader.rs\<close>), \<open>Machine\<close> (\<^verbatim>\<open>arch/aarch64/machine.rs\<close>): spawning of the
    embedded servers and their device windows, the ELF loader, the board tables.

  \<^bold>\<open>Guests and secure services.\<close>
  \<^item> \<open>Hypervisor\<close> (\<^verbatim>\<open>hypervisor\<close>): VMs, vCPUs, message queues and doorbells on bare metal, and the Gunyah calls.  A
    message queue refines a bounded list through the locale \<open>bounded_fifo\<close>; a preempted guest resumes with the
    registers it had; a time slice has its exact length.
  \<^item> \<open>Virtio\<close> (\<^verbatim>\<open>virtio\<close>): the split ring and the message channel over byte memory.  The ring refines a queue across
    the wrap of its 16-bit index.
  \<^item> \<open>Vm_Manager\<close> (\<^verbatim>\<open>vm\<close>): shared regions, VM creation, the co-tenant scheduler and its fairness.
  \<^item> \<open>Monitor\<close> (\<^verbatim>\<open>arch/aarch64/monitor.rs\<close>): the SMC services with their hash and cipher; what is stored is read back.
  \<^item> \<open>Firmware\<close> (\<^verbatim>\<open>arch/aarch64/acpi.rs\<close>, \<^verbatim>\<open>fdt.rs\<close>, \<^verbatim>\<open>efi.rs\<close>): the parsers over byte memory, and that the kernel boots
    with its built-in defaults whatever well-formed tables it is given.

  \<^bold>\<open>Server libraries.\<close>
  \<^item> \<open>Net_Frame\<close>, \<open>Net_Tcp\<close>, \<open>Net_Stack\<close> (\<^verbatim>\<open>libtanix-net\<close>): checksums, frame builders and parsers, the TCP socket, the
    stack.  Frames parse back with correct checksums; an inbound frame panics the stack only in two stated cases;
    retransmission ends.  \<open>Net_Stream\<close> puts two sockets on a network that loses, repeats and reorders data and
    shows that what is read is a prefix of what was written.

  \<^bold>\<open>Not modelled.\<close>  Assembly stubs (vectors, boot, monitor entry), device register sequences (UART, GIC and PCI
  initialisation, GPU), cache and TLB maintenance, and the spin lock: every kernel entry is one step under the lock.
  Weak memory ordering is not modelled.  Of the servers only the network library is modelled; the others
  are message loops around modelled system calls, device drivers and drawing code.
\<close>

end
